(* ===== verification/Mdv_Prelude.thy ===== *)
theory Mdv_Prelude
  imports Main "HOL-Library.Word"
begin

text \<open>
  Shared vocabulary of the development: the error codes of
  mdv_platform/mdv_errno.h, names for the machine types of the C code, the
  block copy that models \<^verbatim>\<open>memcpy\<close> into an array, and the generic facts on lists
  that the components use.
\<close>

unbundle bit_operations_syntax

named_theorems mdv_defs \<open>definitions a component unfolds in its proofs\<close>
named_theorems mdv_inv \<open>preservation lemmas of the component invariants\<close>

type_synonym u8 = "8 word"
type_synonym u16 = "16 word"
type_synonym u32 = "32 word"
type_synonym u64 = "64 word"
type_synonym bytes = "8 word list"


section \<open>Error codes\<close>

datatype mdv_errno =
    MDV_OK | MDV_FALSE | MDV_FAILED | MDV_INVALID_ARG | MDV_INVALID_TYPE
  | MDV_ENOENT | MDV_EAGAIN | MDV_CLOSED | MDV_EEXIST | MDV_NO_MEM
  | MDV_INPROGRESS | MDV_ETIMEDOUT | MDV_BUSY | MDV_NO_IMPL
  | MDV_STACK_OVERFLOW | MDV_NOT_FOUND

fun errno_code :: "mdv_errno \<Rightarrow> int" where
  "errno_code MDV_OK = 1"
| "errno_code MDV_FALSE = 0"
| "errno_code MDV_FAILED = -1"
| "errno_code MDV_INVALID_ARG = -2"
| "errno_code MDV_INVALID_TYPE = -3"
| "errno_code MDV_ENOENT = -4"
| "errno_code MDV_EAGAIN = -5"
| "errno_code MDV_CLOSED = -6"
| "errno_code MDV_EEXIST = -7"
| "errno_code MDV_NO_MEM = -8"
| "errno_code MDV_INPROGRESS = -9"
| "errno_code MDV_ETIMEDOUT = -10"
| "errno_code MDV_BUSY = -11"
| "errno_code MDV_NO_IMPL = -12"
| "errno_code MDV_STACK_OVERFLOW = -13"
| "errno_code MDV_NOT_FOUND = -14"

lemma errno_code_inject [simp]: "errno_code a = errno_code b \<longleftrightarrow> a = b"
  by (cases a; cases b) simp_all


section \<open>Wrapped indices\<close>

lemma mod_wrap: "x mod c = (if x < c then x else x - c)" if "x < 2 * c" for x c :: nat
  using that by (simp add: mod_if)

lemma mod_add_wrap:
  assumes "d < c"
  shows "(h + d) mod c = (if h mod c + d < c then h mod c + d else h mod c + d - (c :: nat))"
proof -
  obtain r where r: "r = h mod c" "r < c" using assms by simp
  have "(h + d) mod c = (r + d) mod c" by (simp add: r mod_simps)
  also have "\<dots> = (if r + d < c then r + d else r + d - c)"
    by (rule mod_wrap) (use r(2) assms in arith)
  finally show ?thesis by (simp add: r)
qed


section \<open>Block copies\<close>

text \<open>\<^verbatim>\<open>memcpy(buf + i, xs, n)\<close> on an array of items, where xs holds the n items.\<close>

definition blit :: "'a list \<Rightarrow> nat \<Rightarrow> 'a list \<Rightarrow> 'a list" where
  "blit buf i xs = take i buf @ xs @ drop (i + length xs) buf"

text \<open>\<^verbatim>\<open>memcpy(dst, buf + i, n)\<close>: the n items read from position i.\<close>

definition subarray :: "'a list \<Rightarrow> nat \<Rightarrow> nat \<Rightarrow> 'a list" where
  "subarray buf i n = take n (drop i buf)"

lemma length_blit [simp]:
  "i + length xs \<le> length buf \<Longrightarrow> length (blit buf i xs) = length buf"
  by (simp add: blit_def)

lemma nth_blit:
  assumes "i + length xs \<le> length buf" "k < length buf"
  shows "blit buf i xs ! k = (if i \<le> k \<and> k < i + length xs then xs ! (k - i) else buf ! k)"
  using assms by (auto simp: blit_def nth_append min_def)

lemma blit_single: "i < length buf \<Longrightarrow> blit buf i [x] = buf[i := x]"
  by (simp add: blit_def upd_conv_take_nth_drop)

lemma length_subarray [simp]: "i + n \<le> length buf \<Longrightarrow> length (subarray buf i n) = n"
  by (simp add: subarray_def)

lemma nth_subarray [simp]: "k < n \<Longrightarrow> i + n \<le> length buf \<Longrightarrow> subarray buf i n ! k = buf ! (i + k)"
  by (simp add: subarray_def)

lemma subarray_blit_same:
  "i + length xs \<le> length buf \<Longrightarrow> subarray (blit buf i xs) i (length xs) = xs"
  by (simp add: subarray_def blit_def)



section \<open>Little-endian integers\<close>

text \<open>The bytes of an integer in memory, as the code stores them by address.\<close>

primrec le_bytes :: "nat \<Rightarrow> 'a::len word \<Rightarrow> bytes" where
  "le_bytes 0 w = []"
| "le_bytes (Suc n) w = ucast w # le_bytes n (drop_bit 8 w)"

primrec le_value :: "bytes \<Rightarrow> nat" where
  "le_value [] = 0"
| "le_value (b # bs) = unat b + 256 * le_value bs"

definition le_word :: "bytes \<Rightarrow> 'a::len word" where
  "le_word bs = of_nat (le_value bs)"

lemma unat_bounds:
  "unat (a :: u8) < 256" "unat (b :: u16) < 65536" "unat (c :: u32) < 4294967296"
  "unat (d :: u64) < 18446744073709551616"
  using unsigned_less [of a, where ?'a = nat] unsigned_less [of b, where ?'a = nat]
    unsigned_less [of c, where ?'a = nat] unsigned_less [of d, where ?'a = nat]
  by simp_all

lemma length_le_bytes [simp]: "length (le_bytes n w) = n"
  by (induction n arbitrary: w) simp_all

lemma le_value_le_bytes: "le_value (le_bytes n w) = unat w mod 256 ^ n"
proof (induction n arbitrary: w)
  case (Suc n)
  have byte: "unat (ucast w :: u8) = unat w mod 256"
    by (simp add: unsigned_ucast_eq take_bit_eq_mod)
  have rest: "unat (drop_bit 8 w) = unat w div 256"
    by (subst unat_drop_bit_eq) (simp add: drop_bit_eq_div)
  show ?case
    by (simp add: Suc.IH byte rest mod_mult2_eq add.commute)
qed simp

lemma le_value_u64 [simp]: "le_value (le_bytes 8 (w :: u64)) = unat w"
  using unat_bounds by (simp add: le_value_le_bytes)

lemma le_value_u32 [simp]: "le_value (le_bytes 4 (w :: u32)) = unat w"
  using unat_bounds by (simp add: le_value_le_bytes)

lemma le_word_u64 [simp]: "le_word (le_bytes 8 (w :: u64)) = w"
  by (simp add: le_word_def)

lemma le_word_u32 [simp]: "le_word (le_bytes 4 (w :: u32)) = w"
  by (simp add: le_word_def)

lemma base256_inj:
  assumes "a + 256 * m = b + 256 * n" "a < 256" "b < (256 :: nat)"
  shows "a = b \<and> m = n"
proof -
  have "a = (a + 256 * m) mod 256" using assms(2) by simp
  also have "\<dots> = (b + 256 * n) mod 256" by (simp only: assms(1))
  also have "\<dots> = b" using assms(3) by simp
  finally show ?thesis using assms(1) by simp
qed

lemma le_value_inj:
  assumes "length xs = length ys" "le_value xs = le_value ys"
  shows "xs = ys"
  using assms
proof (induction xs ys rule: list_induct2)
  case (Cons x xs y ys)
  have "unat x < 256" "unat y < 256"
    by (rule unat_bounds)+
  with Cons.prems have "unat x = unat y" "le_value xs = le_value ys"
    using base256_inj [of "unat x" "le_value xs"] by simp_all
  with Cons.IH show ?case by (simp add: word_eq_iff_unsigned [where ?'a = nat])
qed simp

lemma le_bytes_u64_inject [simp]: "le_bytes 8 (a :: u64) = le_bytes 8 b \<longleftrightarrow> a = b"
  using le_word_u64 by metis

end
