(* ===== verification/Mdv_Queue.thy ===== *)
theory Mdv_Queue
  imports Mdv_Prelude
begin

text \<open>
  The static ring buffer of mdv_platform/generic/mdv_queue.c. The buffer has
  one slot more than the capacity; head and tail are slot numbers, the byte
  counts that callers pass are kept next to the item size, and the items
  themselves are of any type. The locale states what a bounded FIFO promises;
  the ring buffer is an instance of it.
\<close>

record 'a mdv_queue =
  q_capacity :: nat
  q_item_size :: nat
  q_head :: nat
  q_tail :: nat
  q_data :: "'a list"

definition mdv_queue_clear :: "'a list \<Rightarrow> nat \<Rightarrow> 'a mdv_queue" where
  "mdv_queue_clear array item_size =
     \<lparr> q_capacity = length array - 1, q_item_size = item_size,
       q_head = 0, q_tail = 0, q_data = array \<rparr>"

definition mdv_queue_size :: "'a mdv_queue \<Rightarrow> nat" where
  "mdv_queue_size queue =
     (let head = q_head queue; tail = q_tail queue; capacity = q_capacity queue + 1
      in if head \<le> tail then tail - head else capacity + tail - head)"

definition mdv_queue_free_space :: "'a mdv_queue \<Rightarrow> nat" where
  "mdv_queue_free_space queue = q_capacity queue - mdv_queue_size queue"

definition mdv_queue_empty :: "'a mdv_queue \<Rightarrow> bool" where
  "mdv_queue_empty queue \<longleftrightarrow> q_head queue = q_tail queue"

definition mdv_queue_push_one :: "'a mdv_queue \<Rightarrow> 'a \<Rightarrow> nat \<Rightarrow> bool \<times> 'a mdv_queue" where
  "mdv_queue_push_one queue item sz =
     (if sz \<noteq> q_item_size queue then (False, queue)
      else
        let head = q_head queue;
            tail = q_tail queue;
            capacity = q_capacity queue + 1;
            data_size = (if head \<le> tail then tail - head else capacity + tail - head);
            free_space = q_capacity queue - data_size
        in if free_space = 0 then (False, queue)
           else (True, queue \<lparr> q_data := (q_data queue)[tail := item],
                               q_tail := (tail + 1) mod capacity \<rparr>))"

definition mdv_queue_push_multiple ::
  "'a mdv_queue \<Rightarrow> 'a list \<Rightarrow> nat \<Rightarrow> bool \<times> 'a mdv_queue" where
  "mdv_queue_push_multiple queue items sz =
     (let items_count = sz div q_item_size queue
      in if sz \<noteq> items_count * q_item_size queue then (False, queue)
         else
           let head = q_head queue;
               tail = q_tail queue;
               capacity = q_capacity queue + 1;
               xs = take items_count items
           in if head \<le> tail then
                let data_size = tail - head;
                    free_space = q_capacity queue - data_size
                in if free_space < items_count then (False, queue)
                   else
                     let free_space_0 = capacity - tail;
                         buf = (if free_space_0 \<ge> items_count
                                then blit (q_data queue) tail xs
                                else blit (blit (q_data queue) tail (take free_space_0 xs))
                                          0 (drop free_space_0 xs))
                     in (True, queue \<lparr> q_data := buf,
                                       q_tail := (tail + items_count) mod capacity \<rparr>)
              else
                let data_size = capacity + tail - head;
                    free_space = q_capacity queue - data_size
                in if free_space < items_count then (False, queue)
                   else (True, queue \<lparr> q_data := blit (q_data queue) tail xs,
                                       q_tail := (tail + items_count) mod capacity \<rparr>))"

definition mdv_queue_pop_one :: "'a mdv_queue \<Rightarrow> nat \<Rightarrow> 'a option \<times> 'a mdv_queue" where
  "mdv_queue_pop_one queue sz =
     (if sz \<noteq> q_item_size queue then (None, queue)
      else
        let head = q_head queue;
            tail = q_tail queue;
            capacity = q_capacity queue + 1;
            data_size = (if head \<le> tail then tail - head else capacity + tail - head)
        in if data_size = 0 then (None, queue)
           else (Some (q_data queue ! head), queue \<lparr> q_head := (head + 1) mod capacity \<rparr>))"

definition mdv_queue_pop_multiple :: "'a mdv_queue \<Rightarrow> nat \<Rightarrow> 'a list option \<times> 'a mdv_queue" where
  "mdv_queue_pop_multiple queue sz =
     (let items_count = sz div q_item_size queue
      in if sz \<noteq> items_count * q_item_size queue then (None, queue)
         else
           let head = q_head queue;
               tail = q_tail queue;
               capacity = q_capacity queue + 1
           in if head \<le> tail then
                let data_size = tail - head
                in if items_count > data_size then (None, queue)
                   else (Some (subarray (q_data queue) head items_count),
                         queue \<lparr> q_head := (head + items_count) mod capacity \<rparr>)
              else
                let data_size = capacity + tail - head
                in if items_count > data_size then (None, queue)
                   else
                     let data_block_0 = capacity - head;
                         out = (if data_block_0 \<ge> items_count
                                then subarray (q_data queue) head items_count
                                else subarray (q_data queue) head data_block_0
                                     @ subarray (q_data queue) 0 (items_count - data_block_0))
                     in (Some out, queue \<lparr> q_head := (head + items_count) mod capacity \<rparr>))"


section \<open>Invariant and abstraction\<close>

definition queue_wf :: "'a mdv_queue \<Rightarrow> bool" where
  "queue_wf q \<longleftrightarrow> length (q_data q) = q_capacity q + 1 \<and> 0 < q_item_size q \<and>
     q_head q \<le> q_capacity q \<and> q_tail q \<le> q_capacity q"

text \<open>The stored items, oldest first.\<close>

definition queue_items :: "'a mdv_queue \<Rightarrow> 'a list" where
  "queue_items q =
     map (\<lambda>i. q_data q ! ((q_head q + i) mod (q_capacity q + 1))) [0..<mdv_queue_size q]"

lemma length_queue_items [simp]: "length (queue_items q) = mdv_queue_size q"
  by (simp add: queue_items_def)

lemma queue_size_le: "queue_wf q \<Longrightarrow> mdv_queue_size q \<le> q_capacity q"
  by (auto simp: queue_wf_def mdv_queue_size_def Let_def)

lemma queue_size_mod:
  assumes "queue_wf q"
  shows "mdv_queue_size q = (q_tail q + (q_capacity q + 1) - q_head q) mod (q_capacity q + 1)"
  using assms
  by (auto simp: queue_wf_def mdv_queue_size_def Let_def mod_if add.commute)


lemma queue_empty_iff: "queue_wf q \<Longrightarrow> mdv_queue_empty q \<longleftrightarrow> queue_items q = []"
  by (auto simp: queue_wf_def mdv_queue_empty_def queue_items_def mdv_queue_size_def Let_def)

lemma queue_slot:
  assumes "queue_wf q" "i < mdv_queue_size q"
  shows "(q_head q + i) mod (q_capacity q + 1) \<noteq> q_tail q"
proof -
  let ?c = "q_capacity q + 1"
  have "q_head q + i < 2 * ?c"
    using assms queue_size_le [OF assms(1)] by (auto simp: queue_wf_def)
  then have "(q_head q + i) mod ?c = (if q_head q + i < ?c then q_head q + i else q_head q + i - ?c)"
    by (auto simp: mod_if)
  then show ?thesis
    using assms by (auto simp: queue_wf_def mdv_queue_size_def Let_def split: if_splits)
qed

lemma queue_tail_slot:
  assumes "queue_wf q"
  shows "(q_head q + mdv_queue_size q) mod (q_capacity q + 1) = q_tail q"
  using assms by (auto simp: queue_wf_def mdv_queue_size_def Let_def mod_if)

text \<open>Storing a block at the free slots after the tail appends it to the queue.\<close>

lemma queue_items_extend:
  assumes wf: "queue_wf q" and room: "mdv_queue_size q + length xs \<le> q_capacity q"
    and len: "length buf = q_capacity q + 1"
    and new: "\<And>k. k < length xs \<Longrightarrow> buf ! ((q_tail q + k) mod (q_capacity q + 1)) = xs ! k"
    and old: "\<And>i. i < mdv_queue_size q \<Longrightarrow>
       buf ! ((q_head q + i) mod (q_capacity q + 1)) = q_data q ! ((q_head q + i) mod (q_capacity q + 1))"
    and q': "q' = q \<lparr> q_data := buf, q_tail := (q_tail q + length xs) mod (q_capacity q + 1) \<rparr>"
  shows "queue_wf q' \<and> queue_items q' = queue_items q @ xs"
proof -
  let ?c = "q_capacity q + 1"
  have wf': "queue_wf q'"
    using wf len by (auto simp: q' queue_wf_def simp flip: less_Suc_eq_le)
  have tail: "(q_tail q + length xs) mod ?c = (if q_tail q + length xs < ?c then q_tail q + length xs
      else q_tail q + length xs - ?c)"
    using wf room by (auto simp: queue_wf_def mod_if)
  have sz: "mdv_queue_size q' = mdv_queue_size q + length xs"
    using wf room tail by (auto simp: q' queue_wf_def mdv_queue_size_def Let_def split: if_splits)
  have "queue_items q' ! i = (queue_items q @ xs) ! i" if i: "i < mdv_queue_size q'" for i
  proof (cases "i < mdv_queue_size q")
    case True
    then show ?thesis using i old [OF True] by (simp add: queue_items_def q' nth_append)
  next
    case False
    then have k: "i - mdv_queue_size q < length xs" using i sz by simp
    have "(q_head q + i) mod ?c = ((q_head q + mdv_queue_size q) mod ?c + (i - mdv_queue_size q)) mod ?c"
      by (subst mod_add_left_eq) (use False in simp)
    also have "\<dots> = (q_tail q + (i - mdv_queue_size q)) mod ?c"
      by (simp only: queue_tail_slot [OF wf])
    finally show ?thesis
      using i False new [OF k] by (simp add: queue_items_def q' nth_append)
  qed
  then have "queue_items q' = queue_items q @ xs"
    by (intro nth_equalityI) (simp_all add: sz)
  with wf' show ?thesis ..
qed


section \<open>The operations on the abstract queue\<close>

lemma push_one_room:
  assumes "queue_wf q" "length (queue_items q) < q_capacity q"
  shows "\<exists>q'. mdv_queue_push_one q x (q_item_size q) = (True, q') \<and> queue_wf q' \<and>
           queue_items q' = queue_items q @ [x] \<and>
           q_capacity q' = q_capacity q \<and> q_item_size q' = q_item_size q"
proof -
  let ?q' = "q \<lparr> q_data := (q_data q)[q_tail q := x],
                 q_tail := (q_tail q + length [x]) mod (q_capacity q + 1) \<rparr>"
  have "mdv_queue_push_one q x (q_item_size q) = (True, ?q')"
    using assms by (auto simp: mdv_queue_push_one_def mdv_queue_size_def Let_def)
  moreover have "queue_wf ?q' \<and> queue_items ?q' = queue_items q @ [x]"
    by (rule queue_items_extend [OF assms(1), where buf = "(q_data q)[q_tail q := x]"])
      (use assms queue_slot [OF assms(1)] in
        \<open>simp_all add: queue_wf_def nth_list_update_neq neq_commute\<close>)
  ultimately show ?thesis by auto
qed

lemma push_one_full:
  assumes "queue_wf q" "length (queue_items q) = q_capacity q"
  shows "mdv_queue_push_one q x (q_item_size q) = (False, q)"
  using assms by (auto simp: mdv_queue_push_one_def mdv_queue_size_def Let_def split: if_splits)

lemma queue_items_drop:
  assumes wf: "queue_wf q" and n: "n \<le> mdv_queue_size q"
    and q': "q' = q \<lparr> q_head := (q_head q + n) mod (q_capacity q + 1) \<rparr>"
  shows "queue_wf q' \<and> queue_items q' = drop n (queue_items q)"
proof -
  let ?c = "q_capacity q + 1"
  have wf': "queue_wf q'"
    using wf by (auto simp: q' queue_wf_def simp flip: less_Suc_eq_le)
  have "(q_head q + n) mod ?c = (if q_head q + n < ?c then q_head q + n else q_head q + n - ?c)"
    using wf n queue_size_le [OF wf] by (auto simp: queue_wf_def mod_if)
  then have sz: "mdv_queue_size q' = mdv_queue_size q - n"
    using wf n by (auto simp: q' queue_wf_def mdv_queue_size_def Let_def split: if_splits)
  have "queue_items q' ! i = drop n (queue_items q) ! i" if "i < mdv_queue_size q'" for i
  proof -
    have "n + i < mdv_queue_size q" using that sz n by simp
    then show ?thesis using that by (simp add: queue_items_def q' mod_simps add.assoc)
  qed
  then have "queue_items q' = drop n (queue_items q)"
    by (intro nth_equalityI) (simp_all add: sz)
  with wf' show ?thesis ..
qed

lemma queue_items_take_linear:
  assumes "queue_wf q" "n \<le> mdv_queue_size q" "q_head q + n \<le> q_capacity q + 1"
  shows "subarray (q_data q) (q_head q) n = take n (queue_items q)"
  using assms by (intro nth_equalityI) (auto simp: queue_wf_def queue_items_def)

lemma pop_one_some:
  assumes "queue_wf q" "queue_items q = x # xs"
  shows "\<exists>q'. mdv_queue_pop_one q (q_item_size q) = (Some x, q') \<and> queue_wf q' \<and>
           queue_items q' = xs \<and>
           q_capacity q' = q_capacity q \<and> q_item_size q' = q_item_size q"
proof -
  let ?q' = "q \<lparr> q_head := (q_head q + 1) mod (q_capacity q + 1) \<rparr>"
  have sz: "1 \<le> mdv_queue_size q" using assms(2) by (simp flip: length_queue_items)
  then have "q_data q ! q_head q = queue_items q ! 0"
    using assms(1) by (simp add: queue_items_def queue_wf_def)
  then have "mdv_queue_pop_one q (q_item_size q) = (Some x, ?q')"
    using sz assms by (auto simp: mdv_queue_pop_one_def mdv_queue_size_def Let_def)
  moreover have "queue_wf ?q' \<and> queue_items ?q' = xs"
    using queue_items_drop [OF assms(1) sz refl] assms(2) by simp
  ultimately show ?thesis by auto
qed

lemma pop_one_none:
  assumes "queue_wf q" "queue_items q = []"
  shows "mdv_queue_pop_one q (q_item_size q) = (None, q)"
  using assms(2) by (auto simp: mdv_queue_pop_one_def queue_items_def mdv_queue_size_def Let_def)


lemma push_multiple_room:
  assumes wf: "queue_wf q" and room: "length (queue_items q) + length xs \<le> q_capacity q"
  shows "\<exists>q'. mdv_queue_push_multiple q xs (length xs * q_item_size q) = (True, q') \<and>
           queue_wf q' \<and> queue_items q' = queue_items q @ xs \<and>
           q_capacity q' = q_capacity q \<and> q_item_size q' = q_item_size q"
proof -
  let ?c = "q_capacity q + 1" and ?f = "q_capacity q + 1 - q_tail q"
  define buf where
    "buf = (if q_head q \<le> q_tail q \<and> ?f < length xs
            then blit (blit (q_data q) (q_tail q) (take ?f xs)) 0 (drop ?f xs)
            else blit (q_data q) (q_tail q) xs)"
  let ?q' = "q \<lparr> q_data := buf, q_tail := (q_tail q + length xs) mod ?c \<rparr>"
  note wfs = wf [unfolded queue_wf_def] and sz = mdv_queue_size_def [of q, unfolded Let_def]
  have eq: "mdv_queue_push_multiple q xs (length xs * q_item_size q) = (True, ?q')"
    using wfs room sz by (auto simp: mdv_queue_push_multiple_def Let_def buf_def split: if_splits)
  have fits: "q_tail q + length xs \<le> ?c" if "\<not> (q_head q \<le> q_tail q \<and> ?f < length xs)"
    using that wfs room sz by (auto split: if_splits)
  have wrap: "length xs - ?f < q_head q" if "q_head q \<le> q_tail q \<and> ?f < length xs"
    using that wfs room sz by (auto split: if_splits)
  have len: "length buf = ?c"
    using wfs fits wrap by (auto simp: buf_def)
  have new: "buf ! ((q_tail q + k) mod ?c) = xs ! k" if k: "k < length xs" for k
  proof (cases "q_tail q + k < ?c")
    case True
    then show ?thesis using k wfs fits wrap
      by (auto simp: buf_def nth_blit split: if_splits)
  next
    case False
    then have *: "q_head q \<le> q_tail q \<and> ?f < length xs" using fits k by auto
    then have "(q_tail q + k) mod ?c = k - ?f"
      using False k wfs wrap [OF *] by (subst mod_wrap) auto
    then show ?thesis using * False k wfs wrap [OF *]
      by (auto simp: buf_def nth_blit split: if_splits)
  qed
  have old: "buf ! ((q_head q + i) mod ?c) = q_data q ! ((q_head q + i) mod ?c)"
    if i: "i < mdv_queue_size q" for i
  proof -
    have "(q_head q + i) mod ?c = (if q_head q + i < ?c then q_head q + i else q_head q + i - ?c)"
      using wfs i queue_size_le [OF wf] by (subst mod_wrap) auto
    then show ?thesis using i wfs fits wrap room sz
      by (auto simp: buf_def nth_blit split: if_splits)
  qed
  have "queue_wf ?q' \<and> queue_items ?q' = queue_items q @ xs"
    by (rule queue_items_extend [OF wf _ len new old refl]) (use room in auto)
  with eq show ?thesis by auto
qed

lemma push_multiple_full:
  assumes "queue_wf q" "q_capacity q < length (queue_items q) + length xs"
  shows "mdv_queue_push_multiple q xs (length xs * q_item_size q) = (False, q)"
  using assms by (auto simp: queue_wf_def mdv_queue_push_multiple_def mdv_queue_size_def Let_def
      split: if_splits)

lemma pop_multiple_some:
  assumes wf: "queue_wf q" and n: "n \<le> length (queue_items q)"
  shows "\<exists>q'. mdv_queue_pop_multiple q (n * q_item_size q) = (Some (take n (queue_items q)), q') \<and>
           queue_wf q' \<and> queue_items q' = drop n (queue_items q) \<and>
           q_capacity q' = q_capacity q \<and> q_item_size q' = q_item_size q"
proof -
  let ?c = "q_capacity q + 1"
  let ?q' = "q \<lparr> q_head := (q_head q + n) mod ?c \<rparr>"
  note wfs = wf [unfolded queue_wf_def] and sz = mdv_queue_size_def [of q, unfolded Let_def]
  have lin: "subarray (q_data q) (q_head q) n = take n (queue_items q)" if "q_head q + n \<le> ?c"
    using queue_items_take_linear [OF wf _ that] n by simp
  have wrapped: "subarray (q_data q) (q_head q) (?c - q_head q) @ subarray (q_data q) 0 (n - (?c - q_head q))
      = take n (queue_items q)" if w: "\<not> q_head q + n \<le> ?c"
  proof (rule nth_equalityI)
    have "n - (?c - q_head q) \<le> ?c" using w n wfs queue_size_le [OF wf] by auto
    then show "length (subarray (q_data q) (q_head q) (?c - q_head q) @
        subarray (q_data q) 0 (n - (?c - q_head q))) = length (take n (queue_items q))"
      using w n wfs by (simp add: subarray_def)
    fix i
    assume "i < length (subarray (q_data q) (q_head q) (?c - q_head q) @
        subarray (q_data q) 0 (n - (?c - q_head q)))"
    then have i: "i < n" "n - (?c - q_head q) \<le> ?c"
      using w n wfs queue_size_le [OF wf] by (auto simp: subarray_def)
    have "(q_head q + i) mod ?c = (if i < ?c - q_head q then q_head q + i else i - (?c - q_head q))"
      using i n wfs queue_size_le [OF wf] by (subst mod_wrap) auto
    then show "(subarray (q_data q) (q_head q) (?c - q_head q) @
        subarray (q_data q) 0 (n - (?c - q_head q))) ! i = take n (queue_items q) ! i"
      using i n wfs by (simp add: nth_append queue_items_def)
  qed
  have "mdv_queue_pop_multiple q (n * q_item_size q) = (Some (take n (queue_items q)), ?q')"
    using wfs n sz lin wrapped by (auto simp: mdv_queue_pop_multiple_def Let_def split: if_splits)
  moreover have "queue_wf ?q' \<and> queue_items ?q' = drop n (queue_items q)"
    using queue_items_drop [OF wf _ refl] n by simp
  ultimately show ?thesis by auto
qed

lemma pop_multiple_none:
  assumes "queue_wf q" "length (queue_items q) < n"
  shows "mdv_queue_pop_multiple q (n * q_item_size q) = (None, q)"
  using assms by (auto simp: queue_wf_def mdv_queue_pop_multiple_def mdv_queue_size_def Let_def
      split: if_splits)


section \<open>The bounded FIFO contract\<close>

datatype 'a queue_op = Push 'a | Pop

text \<open>The reference queue: a list that accepts at most c items.\<close>

fun fifo_step :: "nat \<Rightarrow> 'a queue_op \<Rightarrow> 'a list \<Rightarrow> (bool \<times> 'a option) \<times> 'a list" where
  "fifo_step c (Push x) xs = (if length xs < c then ((True, None), xs @ [x]) else ((False, None), xs))"
| "fifo_step c Pop [] = ((False, None), [])"
| "fifo_step c Pop (x # xs) = ((True, Some x), xs)"

primrec run_ops :: "('o \<Rightarrow> 's \<Rightarrow> 'r \<times> 's) \<Rightarrow> 'o list \<Rightarrow> 's \<Rightarrow> 'r list \<times> 's" where
  "run_ops step [] s = ([], s)"
| "run_ops step (x # xs) s =
     (let (r, s') = step x s; (rs, s'') = run_ops step xs s' in (r # rs, s''))"

locale bounded_fifo =
  fixes push :: "'q \<Rightarrow> 'a \<Rightarrow> bool \<times> 'q"
    and pop :: "'q \<Rightarrow> 'a option \<times> 'q"
    and invar :: "'q \<Rightarrow> bool"
    and items :: "'q \<Rightarrow> 'a list"
    and bound :: "'q \<Rightarrow> nat"
  assumes push_room: "invar q \<Longrightarrow> length (items q) < bound q \<Longrightarrow>
      \<exists>q'. push q x = (True, q') \<and> invar q' \<and> items q' = items q @ [x] \<and> bound q' = bound q"
    and push_full: "invar q \<Longrightarrow> length (items q) = bound q \<Longrightarrow> push q x = (False, q)"
    and pop_some: "invar q \<Longrightarrow> items q = x # xs \<Longrightarrow>
      \<exists>q'. pop q = (Some x, q') \<and> invar q' \<and> items q' = xs \<and> bound q' = bound q"
    and pop_none: "invar q \<Longrightarrow> items q = [] \<Longrightarrow> pop q = (None, q)"
    and within: "invar q \<Longrightarrow> length (items q) \<le> bound q"
begin

primrec step :: "'a queue_op \<Rightarrow> 'q \<Rightarrow> (bool \<times> 'a option) \<times> 'q" where
  "step (Push x) q = (let (ok, q') = push q x in ((ok, None), q'))"
| "step Pop q = (let (r, q') = pop q in ((r \<noteq> None, r), q'))"

lemma step_refines:
  assumes "invar q"
  shows "fst (step x q) = fst (fifo_step (bound q) x (items q)) \<and> invar (snd (step x q)) \<and>
    items (snd (step x q)) = snd (fifo_step (bound q) x (items q)) \<and> bound (snd (step x q)) = bound q"
proof (cases x)
  case (Push a)
  show ?thesis
  proof (cases "length (items q) < bound q")
    case True
    with push_room [OF assms True, of a] Push show ?thesis by auto
  next
    case False
    with within [OF assms] push_full [OF assms, of a] Push assms show ?thesis by auto
  qed
next
  case Pop
  show ?thesis
  proof (cases "items q")
    case Nil
    with pop_none [OF assms Nil] Pop assms show ?thesis by simp
  next
    case (Cons a as)
    with pop_some [OF assms Cons] Pop show ?thesis by auto
  qed
qed

lemma run_refines:
  assumes "invar q"
  shows "fst (run_ops step xs q) = fst (run_ops (fifo_step (bound q)) xs (items q)) \<and>
    invar (snd (run_ops step xs q)) \<and>
    items (snd (run_ops step xs q)) = snd (run_ops (fifo_step (bound q)) xs (items q))"
  using assms
proof (induction xs arbitrary: q)
  case Nil
  then show ?case by simp
next
  case (Cons x xs)
  from step_refines [OF Cons.prems, of x] Cons.IH [of "snd (step x q)"] show ?case
    by (auto simp: Let_def split_beta)
qed

end

primrec mdv_queue_step :: "'a queue_op \<Rightarrow> 'a mdv_queue \<Rightarrow> (bool \<times> 'a option) \<times> 'a mdv_queue" where
  "mdv_queue_step (Push x) q = (let (ok, q') = mdv_queue_push_one q x (q_item_size q) in ((ok, None), q'))"
| "mdv_queue_step Pop q = (let (r, q') = mdv_queue_pop_one q (q_item_size q) in ((r \<noteq> None, r), q'))"

interpretation ring: bounded_fifo
  "\<lambda>q x. mdv_queue_push_one q x (q_item_size q)" "\<lambda>q. mdv_queue_pop_one q (q_item_size q)"
  queue_wf queue_items q_capacity
proof (unfold_locales, goal_cases)
  case (1 q x)
  then show ?case using push_one_room [of q x] by auto
next
  case (3 q x xs)
  then show ?case using pop_one_some [of q x xs] by auto
qed (simp_all add: push_one_full pop_one_none queue_size_le)

lemma ring_step: "ring.step = mdv_queue_step"
proof (intro ext)
  show "ring.step x q = mdv_queue_step x q" for x :: "'a queue_op" and q
    by (cases x) simp_all
qed

end
