(* ===== verification/Mdv_Queue_Spsc.thy ===== *)
theory Mdv_Queue_Spsc
  imports Mdv_Queue
begin

text \<open>
  The ring buffer under one producer and one consumer thread, with the memory
  orders of mdv_platform/generic/mdv_queue.c. Every atomic load, every copy and
  every atomic store of _mdv_queue_push_one and _mdv_queue_pop_one is a step of
  its own, and the steps of the two threads interleave freely.

  The memory keeps all values an index has had. A thread has a view: how old a
  value of each index it may still load, and how many accesses to the slots
  happen before its next step. A store is a release: it leaves the view of its
  thread with the value. A load takes any value the view admits; an acquire also
  takes over the view left with the value, a relaxed load does not. The copies
  are not atomic: an access to a slot that does not happen after the other
  thread's last access to it is a data race. The program has no meaning
  after a race, so there is no step from such a state.

  The two history lists are ghost state: the items whose push has been
  published and the items whose pop has been published.
\<close>

section \<open>Memory orders and views\<close>

datatype memory_order = Relaxed | Acquire

record view =
  vw_writes :: nat
  vw_reads :: nat
  vw_head :: nat
  vw_tail :: nat

definition view_join :: "view \<Rightarrow> view \<Rightarrow> view" where
  "view_join v w = \<lparr> vw_writes = max (vw_writes v) (vw_writes w), vw_reads = max (vw_reads v) (vw_reads w),
     vw_head = max (vw_head v) (vw_head w), vw_tail = max (vw_tail v) (vw_tail w) \<rparr>"

definition view_zero :: view where
  "view_zero = \<lparr> vw_writes = 0, vw_reads = 0, vw_head = 0, vw_tail = 0 \<rparr>"

text \<open>The view of a thread after it has loaded a value with the view w.\<close>

definition load_view :: "memory_order \<Rightarrow> view \<Rightarrow> view \<Rightarrow> view" where
  "load_view ord w v = (if ord = Acquire then view_join v w else v)"

text \<open>The orders of the four loads; the two stores are releases.\<close>

record spsc_orders =
  o_push_head :: memory_order
  o_push_tail :: memory_order
  o_pop_head :: memory_order
  o_pop_tail :: memory_order

definition queue_orders :: spsc_orders where
  "queue_orders = \<lparr> o_push_head = Relaxed, o_push_tail = Acquire, o_pop_head = Acquire, o_pop_tail = Relaxed \<rparr>"


section \<open>The two threads\<close>

datatype 'a producer =
    PIdle
  | PCall 'a nat
  | PHead 'a
  | PTail 'a nat
  | PCopy 'a nat
  | PStore 'a nat

datatype 'a consumer =
    CIdle
  | CCall nat
  | CHead
  | CTail nat
  | CCopy nat
  | CStore nat 'a

record 'a spsc =
  sp_capacity :: nat
  sp_item_size :: nat
  sp_heads :: "(nat \<times> view) list"
  sp_tails :: "(nat \<times> view) list"
  sp_data :: "'a list"
  sp_written :: "nat list"
  sp_read :: "nat list"
  sp_race :: bool
  sp_prod :: "'a producer"
  sp_pview :: view
  sp_cons :: "'a consumer"
  sp_cview :: view
  sp_pushed :: "'a list"
  sp_popped :: "'a list"

definition spsc_init :: "'a mdv_queue \<Rightarrow> 'a spsc" where
  "spsc_init q = \<lparr> sp_capacity = q_capacity q, sp_item_size = q_item_size q,
     sp_heads = [(q_head q, view_zero)], sp_tails = [(q_tail q, view_zero)], sp_data = q_data q,
     sp_written = replicate (length (q_data q)) 0, sp_read = replicate (length (q_data q)) 0, sp_race = False,
     sp_prod = PIdle, sp_pview = view_zero, sp_cons = CIdle, sp_cview = view_zero, sp_pushed = [], sp_popped = [] \<rparr>"

text \<open>The queue as it is in memory: the last value of each index, and the slots.\<close>

definition spsc_queue :: "'a spsc \<Rightarrow> 'a mdv_queue" where
  "spsc_queue s = \<lparr> q_capacity = sp_capacity s, q_item_size = sp_item_size s,
     q_head = fst (last (sp_heads s)), q_tail = fst (last (sp_tails s)), q_data = sp_data s \<rparr>"

definition ring_distance :: "nat \<Rightarrow> nat \<Rightarrow> nat \<Rightarrow> nat" where
  "ring_distance cap head tail = (if head \<le> tail then tail - head else cap + 1 + tail - head)"

text \<open>Loads of the two indices: position k among the values it has had.\<close>

definition see_head :: "memory_order \<Rightarrow> nat \<Rightarrow> 'a spsc \<Rightarrow> view \<Rightarrow> view" where
  "see_head ord k s v = load_view ord (snd (sp_heads s ! k)) (v \<lparr> vw_head := k \<rparr>)"

definition see_tail :: "memory_order \<Rightarrow> nat \<Rightarrow> 'a spsc \<Rightarrow> view \<Rightarrow> view" where
  "see_tail ord k s v = load_view ord (snd (sp_tails s ! k)) (v \<lparr> vw_tail := k \<rparr>)"

text \<open>
  The producer keeps the item of its call to the end: what it publishes in the
  history is the item it was called with, not what the ring holds.
\<close>

inductive push_step :: "spsc_orders \<Rightarrow> 'a spsc \<Rightarrow> 'a spsc \<Rightarrow> bool" for ord where
  call: "sp_prod s = PIdle \<Longrightarrow> push_step ord s (s \<lparr> sp_prod := PCall x sz \<rparr>)"
| wrong_size: "sp_prod s = PCall x sz \<Longrightarrow> sz \<noteq> sp_item_size s \<Longrightarrow> push_step ord s (s \<lparr> sp_prod := PIdle \<rparr>)"
| right_size: "sp_prod s = PCall x sz \<Longrightarrow> sz = sp_item_size s \<Longrightarrow> push_step ord s (s \<lparr> sp_prod := PHead x \<rparr>)"
| load_head: "sp_prod s = PHead x \<Longrightarrow> vw_head (sp_pview s) \<le> k \<Longrightarrow> k < length (sp_heads s) \<Longrightarrow>
    push_step ord s (s \<lparr> sp_prod := PTail x (fst (sp_heads s ! k)), sp_pview := see_head (o_push_head ord) k s (sp_pview s) \<rparr>)"
| load_tail_full: "sp_prod s = PTail x head \<Longrightarrow> vw_tail (sp_pview s) \<le> k \<Longrightarrow> k < length (sp_tails s) \<Longrightarrow>
    sp_capacity s - ring_distance (sp_capacity s) head (fst (sp_tails s ! k)) = 0 \<Longrightarrow>
    push_step ord s (s \<lparr> sp_prod := PIdle, sp_pview := see_tail (o_push_tail ord) k s (sp_pview s) \<rparr>)"
| load_tail: "sp_prod s = PTail x head \<Longrightarrow> vw_tail (sp_pview s) \<le> k \<Longrightarrow> k < length (sp_tails s) \<Longrightarrow>
    sp_capacity s - ring_distance (sp_capacity s) head (fst (sp_tails s ! k)) \<noteq> 0 \<Longrightarrow>
    push_step ord s (s \<lparr> sp_prod := PCopy x (fst (sp_tails s ! k)), sp_pview := see_tail (o_push_tail ord) k s (sp_pview s) \<rparr>)"
| copy_race: "sp_prod s = PCopy x tail \<Longrightarrow> vw_reads (sp_pview s) < sp_read s ! tail \<Longrightarrow>
    push_step ord s (s \<lparr> sp_race := True \<rparr>)"
| copy: "sp_prod s = PCopy x tail \<Longrightarrow> sp_read s ! tail \<le> vw_reads (sp_pview s) \<Longrightarrow>
    push_step ord s (s \<lparr> sp_data := (sp_data s)[tail := x], sp_written := (sp_written s)[tail := vw_writes (sp_pview s) + 1],
                        sp_pview := (sp_pview s) \<lparr> vw_writes := vw_writes (sp_pview s) + 1 \<rparr>, sp_prod := PStore x tail \<rparr>)"
| store: "sp_prod s = PStore x tail \<Longrightarrow> v = (sp_pview s) \<lparr> vw_tail := length (sp_tails s) \<rparr> \<Longrightarrow>
    push_step ord s (s \<lparr> sp_tails := sp_tails s @ [((tail + 1) mod (sp_capacity s + 1), v)], sp_pview := v,
                        sp_prod := PIdle, sp_pushed := sp_pushed s @ [x] \<rparr>)"

inductive pop_step :: "spsc_orders \<Rightarrow> 'a spsc \<Rightarrow> 'a spsc \<Rightarrow> bool" for ord where
  call: "sp_cons s = CIdle \<Longrightarrow> pop_step ord s (s \<lparr> sp_cons := CCall sz \<rparr>)"
| wrong_size: "sp_cons s = CCall sz \<Longrightarrow> sz \<noteq> sp_item_size s \<Longrightarrow> pop_step ord s (s \<lparr> sp_cons := CIdle \<rparr>)"
| right_size: "sp_cons s = CCall sz \<Longrightarrow> sz = sp_item_size s \<Longrightarrow> pop_step ord s (s \<lparr> sp_cons := CHead \<rparr>)"
| load_head: "sp_cons s = CHead \<Longrightarrow> vw_head (sp_cview s) \<le> k \<Longrightarrow> k < length (sp_heads s) \<Longrightarrow>
    pop_step ord s (s \<lparr> sp_cons := CTail (fst (sp_heads s ! k)), sp_cview := see_head (o_pop_head ord) k s (sp_cview s) \<rparr>)"
| load_tail_empty: "sp_cons s = CTail head \<Longrightarrow> vw_tail (sp_cview s) \<le> k \<Longrightarrow> k < length (sp_tails s) \<Longrightarrow>
    ring_distance (sp_capacity s) head (fst (sp_tails s ! k)) = 0 \<Longrightarrow>
    pop_step ord s (s \<lparr> sp_cons := CIdle, sp_cview := see_tail (o_pop_tail ord) k s (sp_cview s) \<rparr>)"
| load_tail: "sp_cons s = CTail head \<Longrightarrow> vw_tail (sp_cview s) \<le> k \<Longrightarrow> k < length (sp_tails s) \<Longrightarrow>
    ring_distance (sp_capacity s) head (fst (sp_tails s ! k)) \<noteq> 0 \<Longrightarrow>
    pop_step ord s (s \<lparr> sp_cons := CCopy head, sp_cview := see_tail (o_pop_tail ord) k s (sp_cview s) \<rparr>)"
| copy_race: "sp_cons s = CCopy head \<Longrightarrow> vw_writes (sp_cview s) < sp_written s ! head \<Longrightarrow>
    pop_step ord s (s \<lparr> sp_race := True \<rparr>)"
| copy: "sp_cons s = CCopy head \<Longrightarrow> sp_written s ! head \<le> vw_writes (sp_cview s) \<Longrightarrow>
    pop_step ord s (s \<lparr> sp_read := (sp_read s)[head := vw_reads (sp_cview s) + 1],
                       sp_cview := (sp_cview s) \<lparr> vw_reads := vw_reads (sp_cview s) + 1 \<rparr>, sp_cons := CStore head (sp_data s ! head) \<rparr>)"
| store: "sp_cons s = CStore head x \<Longrightarrow> v = (sp_cview s) \<lparr> vw_head := length (sp_heads s) \<rparr> \<Longrightarrow>
    pop_step ord s (s \<lparr> sp_heads := sp_heads s @ [((head + 1) mod (sp_capacity s + 1), v)], sp_cview := v,
                       sp_cons := CIdle, sp_popped := sp_popped s @ [x] \<rparr>)"

inductive_cases push_stepE: "push_step ord s s'"
inductive_cases pop_stepE: "pop_step ord s s'"

definition spsc_step :: "spsc_orders \<Rightarrow> 'a spsc \<Rightarrow> 'a spsc \<Rightarrow> bool" where
  "spsc_step ord s s' \<longleftrightarrow> \<not> sp_race s \<and> (push_step ord s s' \<or> pop_step ord s s')"

definition spsc_reach :: "spsc_orders \<Rightarrow> 'a list \<Rightarrow> nat \<Rightarrow> 'a spsc \<Rightarrow> bool" where
  "spsc_reach ord array item_size = (spsc_step ord)\<^sup>*\<^sup>* (spsc_init (mdv_queue_clear array item_size))"


section \<open>Absolute positions\<close>

lemma ring_distance_abs:
  assumes "h \<le> t" "t \<le> h + cap"
  shows "ring_distance cap (h mod Suc cap) (t mod Suc cap) = t - h"
proof -
  let ?c = "Suc cap"
  obtain d where t: "t = h + d" "d < ?c" using assms by (auto simp: le_iff_add)
  obtain r where r: "r = h mod ?c" "r < ?c" by simp
  show ?thesis
    using t(2) r(2) unfolding t(1) mod_add_wrap [OF t(2)] r(1) [symmetric]
    by (auto simp: ring_distance_def)
qed

lemma ring_slot_inj:
  assumes "i mod c = j mod c" "i \<le> j" "j - i < c"
  shows "i = (j :: nat)"
  using assms by (metis diff_is_0_eq le_antisym mod_eq_dvd_iff_nat mod_0_imp_dvd mod_less dvd_imp_mod_0)

lemma ring_slot_back:
  assumes "i mod c = j mod c" "i < j"
  shows "i + c \<le> (j :: nat)"
  using ring_slot_inj [of i c j] assms by linarith

text \<open>
  A view knows of at most W writes and R reads. When each thread acquires the
  index of the other, a view also covers the accesses behind the values it has
  seen.
\<close>

definition view_ok :: "spsc_orders \<Rightarrow> nat \<Rightarrow> nat \<Rightarrow> view \<Rightarrow> bool" where
  "view_ok ord W R v \<longleftrightarrow> vw_writes v \<le> W \<and> vw_reads v \<le> R \<and>
     (o_push_head ord = Acquire \<and> o_pop_tail ord = Acquire \<longrightarrow> vw_head v \<le> vw_reads v \<and> vw_tail v \<le> vw_writes v)"

text \<open>Position k of an index is its value after k items, with a view that has seen it.\<close>

definition index_ok :: "(view \<Rightarrow> bool) \<Rightarrow> (view \<Rightarrow> nat) \<Rightarrow> nat \<Rightarrow> (nat \<times> view) list \<Rightarrow> nat \<Rightarrow> bool" where
  "index_ok ok seen c xs n \<longleftrightarrow> length xs = Suc n \<and> (\<forall>k \<le> n. fst (xs ! k) = k mod c \<and> ok (snd (xs ! k)) \<and> k \<le> seen (snd (xs ! k)))"

text \<open>The number of the last access to each slot: the accesses go round the ring.\<close>

definition stamps_ok :: "nat \<Rightarrow> nat list \<Rightarrow> nat \<Rightarrow> bool" where
  "stamps_ok c es n \<longleftrightarrow> length es = c \<and> (\<forall>i < c. es ! i = 0 \<or> (\<exists>j < n. es ! i = Suc j \<and> j mod c = i))"

lemma view_ok_mono: "view_ok ord W R v \<Longrightarrow> W \<le> W' \<Longrightarrow> R \<le> R' \<Longrightarrow> view_ok ord W' R' v"
  by (auto simp: view_ok_def)

lemma view_ok_load: "view_ok ord W R v \<Longrightarrow> view_ok ord W R w \<Longrightarrow> view_ok ord W R (load_view o' w v)"
  by (auto simp: view_ok_def load_view_def view_join_def)

lemma index_ok_mono: "index_ok ok seen c xs n \<Longrightarrow> (\<And>v. ok v \<Longrightarrow> ok' v) \<Longrightarrow> index_ok ok' seen c xs n"
  by (auto simp: index_ok_def)

lemma index_ok_snoc:
  assumes "index_ok ok seen c xs n" "ok v" "Suc n \<le> seen v" "0 < c"
  shows "index_ok ok seen c (xs @ [((n mod c + 1) mod c, v)]) (Suc n)"
  using assms by (auto simp: index_ok_def nth_append le_Suc_eq mod_simps)

lemma index_ok_last: "index_ok ok seen c xs n \<Longrightarrow> fst (last xs) = n mod c"
  by (cases "xs = []") (auto simp: index_ok_def last_conv_nth)

lemma stamps_ok_next:
  assumes "stamps_ok c es n" "0 < c"
  shows "stamps_ok c (es[n mod c := Suc n]) (Suc n)"
  using assms by (auto simp: stamps_ok_def nth_list_update less_Suc_eq)

lemma stamps_ok_le:
  assumes "stamps_ok c es n" "0 < c" "n \<le> j + c"
  shows "es ! (j mod c) \<le> Suc j"
proof -
  have "k \<le> j" if "k < n" "k mod c = j mod c" for k
    using ring_slot_back [of j c k] that assms(3) by (metis le_less_trans less_irrefl not_le_imp_less)
  moreover have "j mod c < c" using assms(2) by simp
  ultimately show ?thesis using assms(1) by (fastforce simp: stamps_ok_def)
qed

lemma stamps_ok_back:
  assumes "stamps_ok c es n" "0 < c" "n \<le> j"
  shows "es ! (j mod c) + c \<le> Suc j \<or> es ! (j mod c) = 0"
proof -
  have "Suc k + c \<le> Suc j" if "k < n" "k mod c = j mod c" for k
    using ring_slot_back [of k c j] that assms(3) by simp
  moreover have "j mod c < c" using assms(2) by simp
  ultimately show ?thesis using assms(1) by (fastforce simp: stamps_ok_def)
qed


section \<open>Invariant\<close>

definition writes_done :: "'a spsc \<Rightarrow> nat" where
  "writes_done s = length (sp_pushed s) + (case sp_prod s of PStore x tail \<Rightarrow> 1 | _ \<Rightarrow> 0)"

definition reads_done :: "'a spsc \<Rightarrow> nat" where
  "reads_done s = length (sp_popped s) + (case sp_cons s of CStore head x \<Rightarrow> 1 | _ \<Rightarrow> 0)"

text \<open>The slots between the two positions hold the published items that are still to be read.\<close>

definition ring_inv :: "'a spsc \<Rightarrow> bool" where
  "ring_inv s = (let c = Suc (sp_capacity s); H = length (sp_popped s); T = length (sp_pushed s) in
     length (sp_data s) = c \<and> H \<le> T \<and> T \<le> H + sp_capacity s \<and> sp_popped s = take H (sp_pushed s) \<and>
     stamps_ok c (sp_written s) (writes_done s) \<and> stamps_ok c (sp_read s) (reads_done s) \<and>
     (\<forall>i. H \<le> i \<and> i < T \<longrightarrow> sp_data s ! (i mod c) = sp_pushed s ! i))"

definition views_inv :: "spsc_orders \<Rightarrow> 'a spsc \<Rightarrow> bool" where
  "views_inv ord s = (let c = Suc (sp_capacity s); H = length (sp_popped s); T = length (sp_pushed s);
       ok = view_ok ord (writes_done s) (reads_done s) in
     index_ok ok vw_head c (sp_heads s) H \<and> index_ok ok vw_tail c (sp_tails s) T \<and> ok (sp_pview s) \<and> ok (sp_cview s) \<and>
     vw_writes (sp_pview s) = writes_done s \<and> vw_reads (sp_cview s) = reads_done s \<and>
     T \<le> vw_tail (sp_pview s) \<and> T \<le> vw_head (sp_pview s) + sp_capacity s \<and> H \<le> vw_head (sp_cview s) \<and> H \<le> vw_tail (sp_cview s))"

text \<open>The local values of the threads are the positions they last saw.\<close>

definition prod_inv :: "'a spsc \<Rightarrow> bool" where
  "prod_inv s = (let c = Suc (sp_capacity s); H = length (sp_popped s); T = length (sp_pushed s); seen = vw_head (sp_pview s) in
     case sp_prod s of
       PTail x head \<Rightarrow> (\<exists>h \<le> H. head = h mod c \<and> T \<le> h + sp_capacity s \<and> h \<le> seen)
     | PCopy x tail \<Rightarrow> tail = T mod c \<and> T < H + sp_capacity s \<and> T < seen + sp_capacity s
     | PStore x tail \<Rightarrow> tail = T mod c \<and> T < H + sp_capacity s \<and> T < seen + sp_capacity s \<and> sp_data s ! tail = x
     | _ \<Rightarrow> True)"

definition cons_inv :: "'a spsc \<Rightarrow> bool" where
  "cons_inv s = (let c = Suc (sp_capacity s); H = length (sp_popped s); T = length (sp_pushed s); seen = vw_tail (sp_cview s) in
     case sp_cons s of
       CTail head \<Rightarrow> head = H mod c
     | CCopy head \<Rightarrow> head = H mod c \<and> H < T \<and> H < seen
     | CStore head x \<Rightarrow> head = H mod c \<and> H < T \<and> H < seen \<and> x = sp_pushed s ! H
     | _ \<Rightarrow> True)"

definition spsc_inv :: "spsc_orders \<Rightarrow> 'a spsc \<Rightarrow> bool" where
  "spsc_inv ord s \<longleftrightarrow> ring_inv s \<and> views_inv ord s \<and> prod_inv s \<and> cons_inv s \<and>
     (o_push_head ord = Acquire \<and> o_pop_tail ord = Acquire \<longrightarrow> \<not> sp_race s)"

lemmas spsc_inv_defs = spsc_inv_def ring_inv_def views_inv_def prod_inv_def cons_inv_def writes_done_def reads_done_def Let_def


text \<open>What a load does to the view of its thread.\<close>

lemma see_head_ok:
  assumes "index_ok (view_ok ord W R) vw_head c (sp_heads s) H" "view_ok ord W R v" "vw_head v \<le> k" "k < length (sp_heads s)"
    and "o' = o_push_head ord \<or> H \<le> vw_head v"
  shows "k \<le> H" "fst (sp_heads s ! k) = k mod c" "view_ok ord W R (see_head o' k s v)" "k \<le> vw_head (see_head o' k s v)"
    "vw_head v \<le> vw_head (see_head o' k s v)" "vw_tail v \<le> vw_tail (see_head o' k s v)"
    "vw_writes v = W \<Longrightarrow> vw_writes (see_head o' k s v) = W" "vw_reads v = R \<Longrightarrow> vw_reads (see_head o' k s v) = R"
proof -
  show k: "k \<le> H" using assms(1,4) by (simp add: index_ok_def)
  then have m: "fst (sp_heads s ! k) = k mod c" "view_ok ord W R (snd (sp_heads s ! k))" "k \<le> vw_head (snd (sp_heads s ! k))"
    using assms(1) by (auto simp: index_ok_def)
  show "fst (sp_heads s ! k) = k mod c" by (rule m(1))
  show "view_ok ord W R (see_head o' k s v)"
    using m(2,3) assms(2,3,5) k by (auto simp: see_head_def load_view_def view_join_def view_ok_def)
  show "k \<le> vw_head (see_head o' k s v)" "vw_head v \<le> vw_head (see_head o' k s v)" "vw_tail v \<le> vw_tail (see_head o' k s v)"
    "vw_writes v = W \<Longrightarrow> vw_writes (see_head o' k s v) = W" "vw_reads v = R \<Longrightarrow> vw_reads (see_head o' k s v) = R"
    using m(2) assms(3) by (simp_all add: see_head_def load_view_def view_join_def view_ok_def max.coboundedI1)
qed

lemma see_tail_ok:
  assumes "index_ok (view_ok ord W R) vw_tail c (sp_tails s) T" "view_ok ord W R v" "vw_tail v \<le> k" "k < length (sp_tails s)"
    and "o' = o_pop_tail ord \<or> T \<le> vw_tail v"
  shows "k \<le> T" "fst (sp_tails s ! k) = k mod c" "view_ok ord W R (see_tail o' k s v)" "k \<le> vw_tail (see_tail o' k s v)"
    "vw_tail v \<le> vw_tail (see_tail o' k s v)" "vw_head v \<le> vw_head (see_tail o' k s v)"
    "vw_writes v = W \<Longrightarrow> vw_writes (see_tail o' k s v) = W" "vw_reads v = R \<Longrightarrow> vw_reads (see_tail o' k s v) = R"
proof -
  show k: "k \<le> T" using assms(1,4) by (simp add: index_ok_def)
  then have m: "fst (sp_tails s ! k) = k mod c" "view_ok ord W R (snd (sp_tails s ! k))" "k \<le> vw_tail (snd (sp_tails s ! k))"
    using assms(1) by (auto simp: index_ok_def)
  show "fst (sp_tails s ! k) = k mod c" by (rule m(1))
  show "view_ok ord W R (see_tail o' k s v)"
    using m(2,3) assms(2,3,5) k by (auto simp: see_tail_def load_view_def view_join_def view_ok_def)
  show "k \<le> vw_tail (see_tail o' k s v)" "vw_tail v \<le> vw_tail (see_tail o' k s v)" "vw_head v \<le> vw_head (see_tail o' k s v)"
    "vw_writes v = W \<Longrightarrow> vw_writes (see_tail o' k s v) = W" "vw_reads v = R \<Longrightarrow> vw_reads (see_tail o' k s v) = R"
    using m(2) assms(3) by (simp_all add: see_tail_def load_view_def view_join_def view_ok_def max.coboundedI1)
qed

text \<open>A load changes the view of its thread and what the thread does next, and nothing else.\<close>

definition p_stored :: "'a producer \<Rightarrow> bool" where
  "p_stored p \<longleftrightarrow> (\<exists>x tail. p = PStore x tail)"

definition c_stored :: "'a consumer \<Rightarrow> bool" where
  "c_stored p \<longleftrightarrow> (\<exists>head x. p = CStore head x)"

lemma done_simps:
  "writes_done s = length (sp_pushed s) + of_bool (p_stored (sp_prod s))" "reads_done s = length (sp_popped s) + of_bool (c_stored (sp_cons s))"
  by (auto simp: writes_done_def reads_done_def p_stored_def c_stored_def split: producer.splits consumer.splits)

lemma push_local_inv:
  assumes "spsc_inv ord s" "view_ok ord (writes_done s) (reads_done s) v" "vw_writes v = writes_done s"
    "vw_tail (sp_pview s) \<le> vw_tail v" "vw_head (sp_pview s) \<le> vw_head v"
    "\<not> p_stored (sp_prod s)" "\<not> p_stored p" "prod_inv (s \<lparr> sp_prod := p, sp_pview := v \<rparr>)"
  shows "spsc_inv ord (s \<lparr> sp_prod := p, sp_pview := v \<rparr>)"
proof -
  let ?s = "s \<lparr> sp_prod := p, sp_pview := v \<rparr>"
  have d: "writes_done ?s = writes_done s" "reads_done ?s = reads_done s" using assms(6,7) by (simp_all add: done_simps)
  have "ring_inv ?s" "cons_inv ?s" using assms(1) by (simp_all add: spsc_inv_def ring_inv_def cons_inv_def d cong: consumer.case_cong)
  moreover have "views_inv ord ?s" using assms(1-5) by (simp add: spsc_inv_def views_inv_def d Let_def)
  ultimately show ?thesis using assms(1,8) by (simp add: spsc_inv_def)
qed

lemma pop_local_inv:
  assumes "spsc_inv ord s" "view_ok ord (writes_done s) (reads_done s) v" "vw_reads v = reads_done s"
    "vw_tail (sp_cview s) \<le> vw_tail v" "vw_head (sp_cview s) \<le> vw_head v"
    "\<not> c_stored (sp_cons s)" "\<not> c_stored p" "cons_inv (s \<lparr> sp_cons := p, sp_cview := v \<rparr>)"
  shows "spsc_inv ord (s \<lparr> sp_cons := p, sp_cview := v \<rparr>)"
proof -
  let ?s = "s \<lparr> sp_cons := p, sp_cview := v \<rparr>"
  have d: "writes_done ?s = writes_done s" "reads_done ?s = reads_done s" using assms(6,7) by (simp_all add: done_simps)
  have "ring_inv ?s" "prod_inv ?s" using assms(1) by (simp_all add: spsc_inv_def ring_inv_def prod_inv_def d cong: producer.case_cong)
  moreover have "views_inv ord ?s" using assms(1-5) by (simp add: spsc_inv_def views_inv_def d Let_def)
  ultimately show ?thesis using assms(1,8) by (simp add: spsc_inv_def)
qed

lemma spsc_invD:
  assumes "spsc_inv ord s"
  shows "index_ok (view_ok ord (writes_done s) (reads_done s)) vw_head (Suc (sp_capacity s)) (sp_heads s) (length (sp_popped s))"
    "index_ok (view_ok ord (writes_done s) (reads_done s)) vw_tail (Suc (sp_capacity s)) (sp_tails s) (length (sp_pushed s))"
    "view_ok ord (writes_done s) (reads_done s) (sp_pview s)" "view_ok ord (writes_done s) (reads_done s) (sp_cview s)"
    "vw_writes (sp_pview s) = writes_done s" "vw_reads (sp_cview s) = reads_done s"
    "length (sp_pushed s) \<le> vw_tail (sp_pview s)" "length (sp_pushed s) \<le> vw_head (sp_pview s) + sp_capacity s"
    "length (sp_popped s) \<le> vw_head (sp_cview s)" "length (sp_popped s) \<le> vw_tail (sp_cview s)"
    "length (sp_data s) = Suc (sp_capacity s)" "length (sp_popped s) \<le> length (sp_pushed s)"
    "length (sp_pushed s) \<le> length (sp_popped s) + sp_capacity s" "sp_popped s = take (length (sp_popped s)) (sp_pushed s)"
    "stamps_ok (Suc (sp_capacity s)) (sp_written s) (writes_done s)" "stamps_ok (Suc (sp_capacity s)) (sp_read s) (reads_done s)"
    "\<And>i. length (sp_popped s) \<le> i \<Longrightarrow> i < length (sp_pushed s) \<Longrightarrow> sp_data s ! (i mod Suc (sp_capacity s)) = sp_pushed s ! i"
    "prod_inv s" "cons_inv s" "o_push_head ord = Acquire \<Longrightarrow> o_pop_tail ord = Acquire \<Longrightarrow> \<not> sp_race s"
  using assms by (simp_all add: spsc_inv_def ring_inv_def views_inv_def Let_def)

lemma push_load_head_inv:
  assumes "spsc_inv ord s" "sp_prod s = PHead x" "vw_head (sp_pview s) \<le> k" "k < length (sp_heads s)"
  shows "spsc_inv ord (s \<lparr> sp_prod := PTail x (fst (sp_heads s ! k)), sp_pview := see_head (o_push_head ord) k s (sp_pview s) \<rparr>)"
proof -
  note inv = spsc_invD [OF assms(1)]
  note see = see_head_ok [OF inv(1,3) assms(3,4) disjI1 [OF refl]]
  have "length (sp_pushed s) \<le> k + sp_capacity s" using inv(8) assms(3) by linarith
  then have "prod_inv (s \<lparr> sp_prod := PTail x (fst (sp_heads s ! k)), sp_pview := see_head (o_push_head ord) k s (sp_pview s) \<rparr>)"
    using see(1,2,4) by (auto simp: prod_inv_def Let_def)
  then show ?thesis
    using assms(2) see(3,5,6,7) inv(5) by (intro push_local_inv [OF assms(1)]) (auto simp: p_stored_def)
qed

lemma push_load_tail_inv:
  assumes "spsc_inv ord s" "sp_prod s = PTail x head" "vw_tail (sp_pview s) \<le> k" "k < length (sp_tails s)"
    and "full \<longleftrightarrow> sp_capacity s - ring_distance (sp_capacity s) head (fst (sp_tails s ! k)) = 0"
  shows "spsc_inv ord (s \<lparr> sp_prod := (if full then PIdle else PCopy x (fst (sp_tails s ! k))),
    sp_pview := see_tail (o_push_tail ord) k s (sp_pview s) \<rparr>)"
proof -
  let ?T = "length (sp_pushed s)" and ?c = "Suc (sp_capacity s)" and ?v = "see_tail (o_push_tail ord) k s (sp_pview s)"
  note inv = spsc_invD [OF assms(1)]
  note see = see_tail_ok [where o' = "o_push_tail ord", OF inv(2,3) assms(3,4) disjI2 [OF inv(7)]]
  have k: "k = ?T" using see(1) assms(3) inv(7) by simp
  then have val: "fst (sp_tails s ! k) = ?T mod ?c" using see(2) by simp
  from inv(18) assms(2) obtain h where h: "h \<le> length (sp_popped s)" "head = h mod ?c" "?T \<le> h + sp_capacity s" "h \<le> vw_head (sp_pview s)"
    by (auto simp: prod_inv_def Let_def)
  have "ring_distance (sp_capacity s) head (fst (sp_tails s ! k)) = ?T - h"
    using h inv(12) unfolding h(2) val by (intro ring_distance_abs) auto
  then have "\<not> full \<Longrightarrow> ?T < h + sp_capacity s" using assms(5) h(3) by auto
  then have "prod_inv (s \<lparr> sp_prod := (if full then PIdle else PCopy x (fst (sp_tails s ! k))), sp_pview := ?v \<rparr>)"
    using val see(6) h(1,4) by (auto simp: prod_inv_def Let_def)
  then show ?thesis
    using assms(2) see(3,5,6,7) inv(5) by (intro push_local_inv [OF assms(1)]) (auto simp: p_stored_def)
qed

lemma pop_load_head_inv:
  assumes "spsc_inv ord s" "sp_cons s = CHead" "vw_head (sp_cview s) \<le> k" "k < length (sp_heads s)"
  shows "spsc_inv ord (s \<lparr> sp_cons := CTail (fst (sp_heads s ! k)), sp_cview := see_head (o_pop_head ord) k s (sp_cview s) \<rparr>)"
proof -
  note inv = spsc_invD [OF assms(1)]
  note see = see_head_ok [where o' = "o_pop_head ord", OF inv(1,4) assms(3,4) disjI2 [OF inv(9)]]
  have "k = length (sp_popped s)" using see(1) assms(3) inv(9) by simp
  then have "cons_inv (s \<lparr> sp_cons := CTail (fst (sp_heads s ! k)), sp_cview := see_head (o_pop_head ord) k s (sp_cview s) \<rparr>)"
    using see(2) by (simp add: cons_inv_def Let_def)
  then show ?thesis
    using assms(2) see(3,5,6,8) inv(6) by (intro pop_local_inv [OF assms(1)]) (auto simp: c_stored_def)
qed

lemma pop_load_tail_inv:
  assumes "spsc_inv ord s" "sp_cons s = CTail head" "vw_tail (sp_cview s) \<le> k" "k < length (sp_tails s)"
    and "none \<longleftrightarrow> ring_distance (sp_capacity s) head (fst (sp_tails s ! k)) = 0"
  shows "spsc_inv ord (s \<lparr> sp_cons := (if none then CIdle else CCopy head), sp_cview := see_tail (o_pop_tail ord) k s (sp_cview s) \<rparr>)"
proof -
  let ?H = "length (sp_popped s)" and ?v = "see_tail (o_pop_tail ord) k s (sp_cview s)"
  note inv = spsc_invD [OF assms(1)]
  note see = see_tail_ok [OF inv(2,4) assms(3,4) disjI1 [OF refl]]
  have head: "head = ?H mod Suc (sp_capacity s)" using inv(19) assms(2) by (simp add: cons_inv_def Let_def)
  have "ring_distance (sp_capacity s) head (fst (sp_tails s ! k)) = k - ?H"
    using inv(10,13) assms(3) see(1) unfolding head see(2) by (intro ring_distance_abs) auto
  then have "\<not> none \<Longrightarrow> ?H < k" using assms(5) by auto
  then have "cons_inv (s \<lparr> sp_cons := (if none then CIdle else CCopy head), sp_cview := ?v \<rparr>)"
    using see(1,4) head by (auto simp: cons_inv_def Let_def)
  then show ?thesis
    using assms(2) see(3,5,6,8) inv(6) by (intro pop_local_inv [OF assms(1)]) (auto simp: c_stored_def)
qed

text \<open>The copies: with acquires on both sides no race, and the slot is free, or full.\<close>

lemma view_ok_weaken:
  assumes "spsc_inv ord s" "writes_done s \<le> W" "reads_done s \<le> R"
  shows "view_ok ord W R (sp_pview s)" "view_ok ord W R (sp_cview s)"
    "index_ok (view_ok ord W R) vw_head (Suc (sp_capacity s)) (sp_heads s) (length (sp_popped s))"
    "index_ok (view_ok ord W R) vw_tail (Suc (sp_capacity s)) (sp_tails s) (length (sp_pushed s))"
  using spsc_invD(1-4) [OF assms(1)] assms(2,3) by (auto intro: view_ok_mono index_ok_mono)

lemma push_no_race:
  assumes "spsc_inv ord s" "sp_prod s = PCopy x tail" "o_push_head ord = Acquire" "o_pop_tail ord = Acquire"
  shows "sp_read s ! tail \<le> vw_reads (sp_pview s)"
proof -
  let ?T = "length (sp_pushed s)"
  note inv = spsc_invD [OF assms(1)]
  have p: "tail = ?T mod Suc (sp_capacity s)" "?T < vw_head (sp_pview s) + sp_capacity s"
    using inv(18) assms(2) by (simp_all add: prod_inv_def Let_def)
  have "reads_done s \<le> ?T" using inv(12,19) by (auto simp: reads_done_def cons_inv_def Let_def split: consumer.splits)
  from stamps_ok_back [OF inv(16) _ this] have "sp_read s ! tail \<le> vw_head (sp_pview s)" using p by auto
  also have "\<dots> \<le> vw_reads (sp_pview s)" using inv(3) assms(3,4) by (simp add: view_ok_def)
  finally show ?thesis .
qed

lemma pop_no_race:
  assumes "spsc_inv ord s" "sp_cons s = CCopy head" "o_push_head ord = Acquire" "o_pop_tail ord = Acquire"
  shows "sp_written s ! head \<le> vw_writes (sp_cview s)"
proof -
  let ?H = "length (sp_popped s)"
  note inv = spsc_invD [OF assms(1)]
  have p: "head = ?H mod Suc (sp_capacity s)" "?H < vw_tail (sp_cview s)"
    using inv(19) assms(2) by (simp_all add: cons_inv_def Let_def)
  have "writes_done s \<le> ?H + Suc (sp_capacity s)"
    using inv(13) by (auto simp: writes_done_def split: producer.splits)
  from stamps_ok_le [OF inv(15) _ this] have "sp_written s ! head \<le> vw_tail (sp_cview s)" using p by auto
  also have "\<dots> \<le> vw_writes (sp_cview s)" using inv(4) assms(3,4) by (simp add: view_ok_def)
  finally show ?thesis .
qed

lemma push_copy_inv:
  assumes "spsc_inv ord s" "sp_prod s = PCopy x tail"
  shows "spsc_inv ord (s \<lparr> sp_data := (sp_data s)[tail := x], sp_written := (sp_written s)[tail := vw_writes (sp_pview s) + 1],
    sp_pview := (sp_pview s) \<lparr> vw_writes := vw_writes (sp_pview s) + 1 \<rparr>, sp_prod := PStore x tail \<rparr>)" (is "spsc_inv ord ?s")
proof -
  let ?T = "length (sp_pushed s)" and ?H = "length (sp_popped s)" and ?c = "Suc (sp_capacity s)"
  note inv = spsc_invD [OF assms(1)]
  have p: "tail = ?T mod ?c" "?T < ?H + sp_capacity s" "?T < vw_head (sp_pview s) + sp_capacity s"
    using inv(18) assms(2) by (simp_all add: prod_inv_def Let_def)
  have d: "writes_done s = ?T" "writes_done ?s = Suc ?T" "reads_done ?s = reads_done s"
    using assms(2) by (simp_all add: writes_done_def reads_done_def)
  note weak = view_ok_weaken [OF assms(1), of "Suc ?T" "reads_done s"]
  have other: "tail \<noteq> i mod ?c" if "?H \<le> i" "i < ?T" for i
  proof -
    have "?T - i < ?c" using that p(2) by linarith
    then show ?thesis using ring_slot_inj [of i ?c ?T] that p(1) by auto
  qed
  have "ring_inv ?s"
    unfolding ring_inv_def d
    using inv(11-17) stamps_ok_next [OF inv(15)] inv(5) other p(1) by (simp add: Let_def d nth_list_update_neq)
  moreover have "views_inv ord ?s"
    unfolding views_inv_def d
    using weak inv(5-10) by (simp add: Let_def d view_ok_def)
  moreover have "prod_inv ?s" using p inv(11) by (simp add: prod_inv_def Let_def)
  moreover have "cons_inv ?s" using inv(19) by (simp add: cons_inv_def cong: consumer.case_cong)
  ultimately show ?thesis using inv(20) by (simp add: spsc_inv_def)
qed

lemma pop_copy_inv:
  assumes "spsc_inv ord s" "sp_cons s = CCopy head"
  shows "spsc_inv ord (s \<lparr> sp_read := (sp_read s)[head := vw_reads (sp_cview s) + 1],
    sp_cview := (sp_cview s) \<lparr> vw_reads := vw_reads (sp_cview s) + 1 \<rparr>, sp_cons := CStore head (sp_data s ! head) \<rparr>)"
    (is "spsc_inv ord ?s")
proof -
  let ?T = "length (sp_pushed s)" and ?H = "length (sp_popped s)" and ?c = "Suc (sp_capacity s)"
  note inv = spsc_invD [OF assms(1)]
  have p: "head = ?H mod ?c" "?H < ?T" "?H < vw_tail (sp_cview s)"
    using inv(19) assms(2) by (simp_all add: cons_inv_def Let_def)
  have d: "reads_done s = ?H" "reads_done ?s = Suc ?H" "writes_done ?s = writes_done s"
    using assms(2) by (simp_all add: writes_done_def reads_done_def)
  note weak = view_ok_weaken [OF assms(1), of "writes_done s" "Suc ?H"]
  have "ring_inv ?s"
    unfolding ring_inv_def d
    using inv(11-17) stamps_ok_next [OF inv(16)] inv(6) p(1) by (simp add: Let_def d)
  moreover have "views_inv ord ?s"
    unfolding views_inv_def d
    using weak inv(5-10) by (simp add: Let_def d view_ok_def)
  moreover have "cons_inv ?s" using p inv(17) by (simp add: cons_inv_def Let_def)
  moreover have "prod_inv ?s" using inv(18) by (simp add: prod_inv_def cong: producer.case_cong)
  ultimately show ?thesis using inv(20) by (simp add: spsc_inv_def)
qed

text \<open>The stores publish the item.\<close>

lemma push_store_inv:
  assumes "spsc_inv ord s" "sp_prod s = PStore x tail" "v = (sp_pview s) \<lparr> vw_tail := length (sp_tails s) \<rparr>"
  shows "spsc_inv ord (s \<lparr> sp_tails := sp_tails s @ [((tail + 1) mod (sp_capacity s + 1), v)], sp_pview := v,
    sp_prod := PIdle, sp_pushed := sp_pushed s @ [x] \<rparr>)" (is "spsc_inv ord ?s")
proof -
  let ?T = "length (sp_pushed s)" and ?H = "length (sp_popped s)" and ?c = "Suc (sp_capacity s)"
  note inv = spsc_invD [OF assms(1)]
  have p: "tail = ?T mod ?c" "?T < ?H + sp_capacity s" "?T < vw_head (sp_pview s) + sp_capacity s" "sp_data s ! tail = x"
    using inv(18) assms(2) by (auto simp: prod_inv_def Let_def)
  have d: "writes_done s = Suc ?T" "writes_done ?s = Suc ?T" "reads_done ?s = reads_done s"
    using assms(2) by (simp_all add: writes_done_def reads_done_def)
  have len: "length (sp_tails s) = Suc ?T" using inv(2) by (simp add: index_ok_def)
  have v: "view_ok ord (Suc ?T) (reads_done s) v" using inv(3,5) by (simp add: assms(3) view_ok_def d len)
  have tails: "index_ok (view_ok ord (Suc ?T) (reads_done s)) vw_tail ?c (sp_tails s @ [((tail + 1) mod (sp_capacity s + 1), v)]) (Suc ?T)"
    using index_ok_snoc [OF inv(2) [unfolded d] v] by (simp add: assms(3) len p(1))
  have "ring_inv ?s"
    unfolding ring_inv_def d using inv(11-17) p by (auto simp: Let_def d nth_append less_Suc_eq)
  moreover have "views_inv ord ?s"
    unfolding views_inv_def d using inv(1,3-10) p(3) v tails by (simp add: Let_def d assms(3) len)
  moreover have "cons_inv ?s" using inv(19) by (auto simp: cons_inv_def Let_def nth_append split: consumer.splits)
  moreover have "prod_inv ?s" by (simp add: prod_inv_def)
  ultimately show ?thesis using inv(20) by (simp add: spsc_inv_def)
qed

lemma pop_store_inv:
  assumes "spsc_inv ord s" "sp_cons s = CStore head x" "v = (sp_cview s) \<lparr> vw_head := length (sp_heads s) \<rparr>"
  shows "spsc_inv ord (s \<lparr> sp_heads := sp_heads s @ [((head + 1) mod (sp_capacity s + 1), v)], sp_cview := v,
    sp_cons := CIdle, sp_popped := sp_popped s @ [x] \<rparr>)" (is "spsc_inv ord ?s")
proof -
  let ?T = "length (sp_pushed s)" and ?H = "length (sp_popped s)" and ?c = "Suc (sp_capacity s)"
  note inv = spsc_invD [OF assms(1)]
  have p: "head = ?H mod ?c" "?H < ?T" "?H < vw_tail (sp_cview s)" "x = sp_pushed s ! ?H"
    using inv(19) assms(2) by (simp_all add: cons_inv_def Let_def)
  have d: "reads_done s = Suc ?H" "reads_done ?s = Suc ?H" "writes_done ?s = writes_done s"
    using assms(2) by (simp_all add: writes_done_def reads_done_def)
  have len: "length (sp_heads s) = Suc ?H" using inv(1) by (simp add: index_ok_def)
  have v: "view_ok ord (writes_done s) (Suc ?H) v" using inv(4,6) by (simp add: assms(3) view_ok_def d len)
  have heads: "index_ok (view_ok ord (writes_done s) (Suc ?H)) vw_head ?c (sp_heads s @ [((head + 1) mod (sp_capacity s + 1), v)]) (Suc ?H)"
    using index_ok_snoc [OF inv(1) [unfolded d] v] by (simp add: assms(3) len p(1))
  have "sp_popped s @ [x] = take (Suc ?H) (sp_pushed s)"
    using inv(14) p(2,4) by (simp add: take_Suc_conv_app_nth)
  then have "ring_inv ?s"
    unfolding ring_inv_def d using inv(11-17) p by (simp add: Let_def d)
  moreover have "views_inv ord ?s"
    unfolding views_inv_def d using inv(2-10) p(3) v heads by (simp add: Let_def d assms(3) len)
  moreover have "prod_inv ?s" using inv(18) by (auto simp: prod_inv_def Let_def split: producer.splits intro: le_SucI)
  moreover have "cons_inv ?s" by (simp add: cons_inv_def)
  ultimately show ?thesis using inv(20) by (simp add: spsc_inv_def)
qed

lemma push_step_inv:
  assumes "push_step ord s s'" "spsc_inv ord s"
  shows "spsc_inv ord s'"
  using assms
proof (induction rule: push_step.induct)
  case (load_tail_full s x head k)
  then show ?case using push_load_tail_inv [of ord s x head k True] by simp
next
  case (load_tail s x head k)
  then show ?case using push_load_tail_inv [of ord s x head k False] by simp
next
  case (copy_race s x tail)
  then have "\<not> (o_push_head ord = Acquire \<and> o_pop_tail ord = Acquire)" using push_no_race [of ord s x tail] by auto
  with copy_race(3) show ?case
    by (auto simp: spsc_inv_def ring_inv_def views_inv_def prod_inv_def cons_inv_def writes_done_def reads_done_def
        cong: producer.case_cong consumer.case_cong)
next
  case (call s x sz)
  note inv = spsc_invD [OF call(2)]
  show ?case using push_local_inv [OF call(2) inv(3,5) order_refl order_refl, of "PCall x sz"] call(1)
    by (simp add: p_stored_def prod_inv_def)
next
  case (wrong_size s x sz)
  note inv = spsc_invD [OF wrong_size(3)]
  show ?case using push_local_inv [OF wrong_size(3) inv(3,5) order_refl order_refl, of PIdle] wrong_size(1)
    by (simp add: p_stored_def prod_inv_def)
next
  case (right_size s x sz)
  note inv = spsc_invD [OF right_size(3)]
  show ?case using push_local_inv [OF right_size(3) inv(3,5) order_refl order_refl, of "PHead x"] right_size(1)
    by (simp add: p_stored_def prod_inv_def)
qed (blast intro: push_load_head_inv push_copy_inv push_store_inv)+

lemma pop_step_inv:
  assumes "pop_step ord s s'" "spsc_inv ord s"
  shows "spsc_inv ord s'"
  using assms
proof (induction rule: pop_step.induct)
  case (load_tail_empty s head k)
  then show ?case using pop_load_tail_inv [of ord s head k True] by simp
next
  case (load_tail s head k)
  then show ?case using pop_load_tail_inv [of ord s head k False] by simp
next
  case (copy_race s head)
  then have "\<not> (o_push_head ord = Acquire \<and> o_pop_tail ord = Acquire)" using pop_no_race [of ord s head] by auto
  with copy_race(3) show ?case
    by (auto simp: spsc_inv_def ring_inv_def views_inv_def prod_inv_def cons_inv_def writes_done_def reads_done_def
        cong: producer.case_cong consumer.case_cong)
next
  case (call s sz)
  note inv = spsc_invD [OF call(2)]
  show ?case using pop_local_inv [OF call(2) inv(4,6) order_refl order_refl, of "CCall sz"] call(1)
    by (simp add: c_stored_def cons_inv_def)
next
  case (wrong_size s sz)
  note inv = spsc_invD [OF wrong_size(3)]
  show ?case using pop_local_inv [OF wrong_size(3) inv(4,6) order_refl order_refl, of CIdle] wrong_size(1)
    by (simp add: c_stored_def cons_inv_def)
next
  case (right_size s sz)
  note inv = spsc_invD [OF right_size(3)]
  show ?case using pop_local_inv [OF right_size(3) inv(4,6) order_refl order_refl, of CHead] right_size(1)
    by (simp add: c_stored_def cons_inv_def)
qed (blast intro: pop_load_head_inv pop_copy_inv pop_store_inv)+

lemma step_frame: "spsc_step ord s s' \<Longrightarrow> sp_capacity s' = sp_capacity s \<and> sp_item_size s' = sp_item_size s"
  by (auto simp: spsc_step_def elim!: push_stepE pop_stepE)

lemma spsc_init_inv: "array \<noteq> [] \<Longrightarrow> spsc_inv ord (spsc_init (mdv_queue_clear array item_size))"
  by (simp add: spsc_inv_defs spsc_init_def mdv_queue_clear_def index_ok_def stamps_ok_def view_ok_def view_zero_def)

lemma spsc_reach_inv:
  assumes "spsc_reach ord array item_size s" "array \<noteq> []"
  shows "spsc_inv ord s \<and> sp_capacity s = length array - 1"
  using assms(1) unfolding spsc_reach_def
proof (induction rule: rtranclp_induct)
  case base
  then show ?case using spsc_init_inv [OF assms(2)] by (simp add: spsc_init_def mdv_queue_clear_def)
next
  case (step s s')
  then show ?case using push_step_inv pop_step_inv step_frame by (metis spsc_step_def)
qed

lemma spsc_inv_items:
  assumes "spsc_inv ord s"
  shows "sp_pushed s = sp_popped s @ queue_items (spsc_queue s)"
proof -
  let ?H = "length (sp_popped s)" and ?T = "length (sp_pushed s)" and ?q = "spsc_queue s"
  note inv = spsc_invD [OF assms]
  have "mdv_queue_size ?q = ring_distance (sp_capacity s) (q_head ?q) (q_tail ?q)"
    by (simp add: mdv_queue_size_def ring_distance_def Let_def spsc_queue_def)
  also have "\<dots> = ?T - ?H"
    using inv(12,13) index_ok_last [OF inv(1)] index_ok_last [OF inv(2)] by (simp add: spsc_queue_def ring_distance_abs)
  finally have size: "mdv_queue_size ?q = ?T - ?H" .
  have "queue_items ?q = drop ?H (sp_pushed s)"
    using size inv(11,17) index_ok_last [OF inv(1)]
    by (intro nth_equalityI) (auto simp: queue_items_def spsc_queue_def mod_simps)
  then show ?thesis using inv(14) append_take_drop_id [of ?H "sp_pushed s"] by simp
qed

lemma reach_push: "push_step ord s s' \<Longrightarrow> \<not> sp_race s \<Longrightarrow> spsc_reach ord array item_size s \<Longrightarrow> spsc_reach ord array item_size s'"
  by (auto simp: spsc_step_def spsc_reach_def intro: rtranclp.rtrancl_into_rtrancl)

lemma reach_pop: "pop_step ord s s' \<Longrightarrow> \<not> sp_race s \<Longrightarrow> spsc_reach ord array item_size s \<Longrightarrow> spsc_reach ord array item_size s'"
  by (auto simp: spsc_step_def spsc_reach_def intro: rtranclp.rtrancl_into_rtrancl)

text \<open>A run: one item is pushed.\<close>

lemma view_zero_simps [simp]:
  "vw_writes view_zero = 0" "vw_reads view_zero = 0" "vw_head view_zero = 0" "vw_tail view_zero = 0"
  "load_view o' view_zero v = v" "view_zero \<lparr> vw_head := 0 \<rparr> = view_zero" "view_zero \<lparr> vw_tail := 0 \<rparr> = view_zero"
  by (simp_all add: load_view_def view_join_def view_zero_def)

definition pushed_one :: "'a list \<Rightarrow> nat \<Rightarrow> 'a \<Rightarrow> 'a spsc" where
  "pushed_one array item_size x = (let v = view_zero \<lparr> vw_writes := 1, vw_tail := 1 \<rparr>; n = length array in
     (spsc_init (mdv_queue_clear array item_size)) \<lparr> sp_tails := [(0, view_zero), (1, v)], sp_data := array[0 := x],
       sp_written := (replicate n 0)[0 := 1], sp_pview := v, sp_pushed := [x] \<rparr>)"

lemma pushed_one_reach:
  assumes "2 \<le> length array"
  shows "spsc_reach ord array item_size (pushed_one array item_size x)"
proof -
  let ?i = "spsc_init (mdv_queue_clear array item_size)" and ?n = "length array"
  let ?s = "\<lambda>p. ?i \<lparr> sp_prod := p \<rparr>"
  let ?v = "view_zero \<lparr> vw_writes := 1 \<rparr>"
  let ?t = "?i \<lparr> sp_data := array[0 := x], sp_written := (replicate ?n 0)[0 := 1], sp_pview := ?v, sp_prod := PStore x 0 \<rparr>"
  note init = spsc_init_def mdv_queue_clear_def
  have slot: "0 < length array" using assms by linarith
  have r0: "spsc_reach ord array item_size (?s PIdle)" by (simp add: spsc_reach_def spsc_init_def)
  have r1: "spsc_reach ord array item_size (?s (PCall x item_size))"
    using push_step.call [of "?s PIdle" ord x item_size] by (intro reach_push [OF _ _ r0]) (simp_all add: init)
  have r2: "spsc_reach ord array item_size (?s (PHead x))"
    using push_step.right_size [of "?s (PCall x item_size)" x item_size ord] by (intro reach_push [OF _ _ r1]) (simp_all add: init)
  have r3: "spsc_reach ord array item_size (?s (PTail x 0))"
    using push_step.load_head [of "?s (PHead x)" x 0 ord]
    by (intro reach_push [OF _ _ r2]) (simp_all add: init see_head_def)
  have r4: "spsc_reach ord array item_size (?s (PCopy x 0))"
    using push_step.load_tail [of "?s (PTail x 0)" x 0 0 ord] assms
    by (intro reach_push [OF _ _ r3]) (simp_all add: init see_tail_def ring_distance_def)
  have r5: "spsc_reach ord array item_size ?t"
    using push_step.copy [of "?s (PCopy x 0)" x 0 ord] slot
    by (intro reach_push [OF _ _ r4]) (simp_all add: init)
  have "1 mod ?n = 1" using assms by simp
  then have "push_step ord ?t (pushed_one array item_size x)"
    using push_step.store [of ?t x 0 "?v \<lparr> vw_tail := 1 \<rparr>" ord] assms
    by (simp add: init pushed_one_def Let_def)
  then show ?thesis by (rule reach_push [OF _ _ r5]) (simp add: init)
qed

text \<open>The run goes on: a consumer that loads the tail without acquiring it races with the write of the item.\<close>

lemma relaxed_tail_races:
  assumes "2 \<le> length array" "o_pop_tail ord = Relaxed"
  shows "\<exists>s. spsc_reach ord array item_size s \<and> sp_race s"
proof -
  let ?s = "\<lambda>c. (pushed_one array item_size (array ! 0)) \<lparr> sp_cons := c \<rparr>" and ?v = "view_zero \<lparr> vw_tail := 1 \<rparr>"
  let ?t = "(?s (CCopy 0)) \<lparr> sp_cview := ?v \<rparr>"
  note init = pushed_one_def spsc_init_def mdv_queue_clear_def Let_def
  have slot: "0 < length array" using assms(1) by linarith
  have r0: "spsc_reach ord array item_size (?s CIdle)" using pushed_one_reach [OF assms(1), of ord item_size "array ! 0"] by (simp add: init)
  have r1: "spsc_reach ord array item_size (?s (CCall item_size))"
    using pop_step.call [of "?s CIdle" ord item_size] by (intro reach_pop [OF _ _ r0]) (simp_all add: init)
  have r2: "spsc_reach ord array item_size (?s CHead)"
    using pop_step.right_size [of "?s (CCall item_size)" item_size ord] by (intro reach_pop [OF _ _ r1]) (simp_all add: init)
  have r3: "spsc_reach ord array item_size (?s (CTail 0))"
    using pop_step.load_head [of "?s CHead" 0 ord]
    by (intro reach_pop [OF _ _ r2]) (simp_all add: init see_head_def)
  have r4: "spsc_reach ord array item_size ?t"
    using pop_step.load_tail [of "?s (CTail 0)" 0 1 ord] assms
    by (intro reach_pop [OF _ _ r3]) (simp_all add: init see_tail_def load_view_def ring_distance_def)
  have "pop_step ord ?t (?t \<lparr> sp_race := True \<rparr>)"
    using slot by (intro pop_step.copy_race [of ?t 0]) (simp_all add: init)
  from reach_pop [OF this _ r4] show ?thesis by (intro exI [of _ "?t \<lparr> sp_race := True \<rparr>"]) (simp add: init)
qed

text \<open>
  C16. One producer and one consumer, in every state they reach by any
  interleaving of their loads, copies and stores, whatever the memory orders of
  the loads: the published pushes are the published pops followed by the items in
  the ring, and there are never more of these than the capacity. So up to the
  first data race no item is lost, doubled, reordered or overwritten. With an
  acquire of the other thread's index on both sides there is no race. The code
  acquires the thread's own index and loads the other one relaxed, and with these
  orders a race is reached.
\<close>

theorem spsc_fifo:
  assumes "spsc_reach ord array item_size s" "2 \<le> length array"
  shows "sp_pushed s = sp_popped s @ queue_items (spsc_queue s) \<and> length (queue_items (spsc_queue s)) \<le> length array - 1 \<and>
    (o_push_head ord = Acquire \<and> o_pop_tail ord = Acquire \<longrightarrow> \<not> sp_race s) \<and>
    (\<exists>s. spsc_reach queue_orders array item_size s \<and> sp_race s)"
proof -
  have inv: "spsc_inv ord s" "sp_capacity s = length array - 1" using spsc_reach_inv [OF assms(1)] assms(2) by force+
  note items = spsc_inv_items [OF inv(1)]
  have "length (queue_items (spsc_queue s)) \<le> length array - 1"
    using spsc_invD(13) [OF inv(1)] inv(2) arg_cong [OF items, of length] by simp
  then show ?thesis
    using items spsc_invD(20) [OF inv(1)] relaxed_tail_races [OF assms(2)] by (simp add: queue_orders_def)
qed

lemma spsc_fifo_witness:
  "\<exists>s. spsc_reach queue_orders [0, 0 :: nat] 8 s \<and> sp_pushed s = [7] \<and> sp_pushed s = sp_popped s @ queue_items (spsc_queue s) \<and>
     (\<exists>s. spsc_reach queue_orders [0, 0 :: nat] 8 s \<and> sp_race s)"
  using spsc_fifo [OF pushed_one_reach [of "[0, 0 :: nat]" queue_orders 8 7]] pushed_one_reach [of "[0, 0 :: nat]" queue_orders 8 7]
  by (intro exI [of _ "pushed_one [0, 0] 8 7"]) (auto simp: pushed_one_def Let_def)

end
