(* ===== verification/Mdv_Rollbacker.thy ===== *)
theory Mdv_Rollbacker
  imports Mdv_Prelude
begin

text \<open>
  The rollback stack of mdv_platform/mdv_rollbacker.c: a fixed array of
  clean-up calls that an error path runs in reverse order. The calls are
  values of a type that each client chooses, and the client says what a call
  does to its state. A null rollbacker (allocation failed) is None.
\<close>

record 'op mdv_rollbacker =
  rb_capacity :: nat
  rb_ops :: "'op list"

definition mdv_rollbacker_push :: "'op mdv_rollbacker option \<Rightarrow> 'op \<Rightarrow> bool \<times> 'op mdv_rollbacker option" where
  "mdv_rollbacker_push rbr op =
     (case rbr of
        None \<Rightarrow> (False, None)
      | Some r \<Rightarrow>
          if length (rb_ops r) \<ge> rb_capacity r then (False, Some r)
          else (True, Some (r \<lparr> rb_ops := rb_ops r @ [op] \<rparr>)))"

text \<open>The allocation outcome and the call that frees the rollbacker itself are arguments.\<close>

definition mdv_rollbacker_create :: "bool \<Rightarrow> 'op \<Rightarrow> nat \<Rightarrow> 'op mdv_rollbacker option" where
  "mdv_rollbacker_create allocated free_op capacity =
     (if allocated
      then snd (mdv_rollbacker_push (Some \<lparr> rb_capacity = capacity + 1, rb_ops = [] \<rparr>) free_op)
      else None)"

text \<open>The loop counts down from the number of stored calls.\<close>

primrec rollback_down :: "('op \<Rightarrow> 's \<Rightarrow> 's) \<Rightarrow> 'op list \<Rightarrow> nat \<Rightarrow> 's \<Rightarrow> 's" where
  "rollback_down exec ops 0 s = s"
| "rollback_down exec ops (Suc n) s = rollback_down exec ops n (exec (ops ! n) s)"

definition mdv_rollback :: "('op \<Rightarrow> 's \<Rightarrow> 's) \<Rightarrow> 'op mdv_rollbacker option \<Rightarrow> 's \<Rightarrow> 's" where
  "mdv_rollback exec rbr s =
     (case rbr of None \<Rightarrow> s | Some r \<Rightarrow> rollback_down exec (rb_ops r) (length (rb_ops r)) s)"

lemma rollback_down_fold:
  "n \<le> length ops \<Longrightarrow> rollback_down exec ops n s = fold exec (rev (take n ops)) s"
  by (induction n arbitrary: s) (simp_all add: take_Suc_conv_app_nth)

lemma mdv_rollback_fold:
  "mdv_rollback exec rbr s = (case rbr of None \<Rightarrow> s | Some r \<Rightarrow> fold exec (rev (rb_ops r)) s)"
  by (simp add: mdv_rollback_def rollback_down_fold split: option.split)

text \<open>A sequence of pushes onto a fresh rollbacker, as a function body makes them.\<close>

definition rollbacker_pushes :: "'op mdv_rollbacker option \<Rightarrow> 'op list \<Rightarrow> 'op mdv_rollbacker option" where
  "rollbacker_pushes rbr ops = fold (\<lambda>op r. snd (mdv_rollbacker_push r op)) ops rbr"

lemma rollbacker_pushes_ops:
  "rollbacker_pushes (Some r) ops =
     Some (r \<lparr> rb_ops := rb_ops r @ take (rb_capacity r - length (rb_ops r)) ops \<rparr>)"
proof (induction ops arbitrary: r)
  case Nil
  then show ?case by (simp add: rollbacker_pushes_def)
next
  case (Cons op ops)
  show ?case
  proof (cases "length (rb_ops r) < rb_capacity r")
    case True
    then have "rb_capacity r - length (rb_ops r) = Suc (rb_capacity r - Suc (length (rb_ops r)))"
      by simp
    then show ?thesis
      using Cons.IH [of "r \<lparr> rb_ops := rb_ops r @ [op] \<rparr>"] True
      by (simp add: rollbacker_pushes_def mdv_rollbacker_push_def)
  next
    case False
    then show ?thesis
      using Cons.IH [of r] by (simp add: rollbacker_pushes_def mdv_rollbacker_push_def)
  qed
qed

text \<open>
  C25. A rollbacker created for n calls and loaded with at most n of them runs, on
  rollback, every call in reverse order of registration and then the release of
  its own memory; calls beyond the capacity are dropped.
\<close>

theorem rollback_reverse_order:
  "mdv_rollback exec (rollbacker_pushes (mdv_rollbacker_create True free_op n) ops) s =
     exec free_op (fold exec (rev (take n ops)) s)"
  by (simp add: mdv_rollbacker_create_def mdv_rollbacker_push_def rollbacker_pushes_ops
      mdv_rollback_fold)

end
