(* ===== verification/Mdv_Lmdb.thy ===== *)
theory Mdv_Lmdb
  imports Mdv_Rollbacker "HOL-Library.State_Monad" "HOL-Library.List_Lexorder"
begin

text \<open>
  The storage wrapper mdv_storage/mdv_lmdb.c over LMDB. LMDB itself is the
  library contract below: an environment of named databases, each an ordered
  list of key/value pairs; a write transaction works on its own copy of the
  databases and publishes it on commit. Every call into LMDB and every
  allocation may fail: the environment carries a tape of outcomes, one per
  call, over which all results are quantified; an exhausted tape means that
  the remaining calls succeed. The environment counts the references taken on
  the storage and the heap blocks that are live.

  A C function with local transaction, map and rollbacker variables is a
  computation over a frame that holds these variables; \<^verbatim>\<open>in_frame\<close> runs it with
  fresh ones.
\<close>

section \<open>LMDB by its contract\<close>

type_synonym kv = "(bytes \<times> bytes) list"

record db =
  db_intkey :: bool
  db_kv :: kv

type_synonym dbs = "string \<Rightarrow> db option"

text \<open>Integer keys compare as little-endian numbers, the others bytewise.\<close>

definition key_less :: "bool \<Rightarrow> bytes \<Rightarrow> bytes \<Rightarrow> bool" where
  "key_less intkey a b = (if intkey then le_value a < le_value b else a < b)"

fun kv_put :: "bool \<Rightarrow> bytes \<Rightarrow> bytes \<Rightarrow> kv \<Rightarrow> kv" where
  "kv_put i k v [] = [(k, v)]"
| "kv_put i k v ((k', v') # r) =
     (if k = k' then (k, v) # r
      else if key_less i k k' then (k, v) # (k', v') # r
      else (k', v') # kv_put i k v r)"

definition kv_del :: "bytes \<Rightarrow> kv \<Rightarrow> kv" where
  "kv_del k m = filter (\<lambda>p. fst p \<noteq> k) m"

text \<open>The position of the first key that is not below the given one.\<close>

definition kv_range :: "bool \<Rightarrow> bytes \<Rightarrow> kv \<Rightarrow> nat" where
  "kv_range i k m = length (takeWhile (\<lambda>p. key_less i (fst p) k) m)"

lemma map_of_kv_put [simp]: "map_of (kv_put i k v m) = (map_of m)(k \<mapsto> v)"
  by (induction i k v m rule: kv_put.induct) auto

lemma map_of_kv_del [simp]: "map_of (kv_del k m) = (map_of m)(k := None)"
  by (induction m) (auto simp: kv_del_def)

text \<open>Keys in strictly ascending order; integer keys all have the same length.\<close>

definition kv_sorted :: "bool \<Rightarrow> kv \<Rightarrow> bool" where
  "kv_sorted i m \<longleftrightarrow> sorted_wrt (\<lambda>p q. key_less i (fst p) (fst q)) m \<and>
     (i \<longrightarrow> (\<exists>n. \<forall>p \<in> set m. length (fst p) = n))"

lemma key_less_trans: "key_less i a b \<Longrightarrow> key_less i b c \<Longrightarrow> key_less i a c"
  by (auto simp: key_less_def split: if_splits)

lemma key_less_irrefl [simp]: "\<not> key_less i a a"
  by (simp add: key_less_def)

lemma key_less_total:
  assumes "i \<longrightarrow> length a = length b" "a \<noteq> b" "\<not> key_less i a b"
  shows "key_less i b a"
  using assms le_value_inj [of a b] by (auto simp: key_less_def not_less order_le_less split: if_splits)

lemma set_kv_put: "set (kv_put i k v m) \<subseteq> insert (k, v) (set m)"
  by (induction i k v m rule: kv_put.induct) auto

lemma sorted_kv_put:
  assumes "sorted_wrt (\<lambda>p q. key_less i (fst p) (fst q)) m"
    and "i \<longrightarrow> (\<forall>p \<in> set m. length (fst p) = length k)"
  shows "sorted_wrt (\<lambda>p q. key_less i (fst p) (fst q)) (kv_put i k v m)"
  using assms
proof (induction i k v m rule: kv_put.induct)
  case (2 i k v k' v' r)
  have "key_less i k' k" if "k \<noteq> k'" "\<not> key_less i k k'"
    using key_less_total that 2 by (metis fst_conv list.set_intros(1))
  then have "\<forall>p \<in> set (kv_put i k v r). key_less i k' (fst p)" if "k \<noteq> k'" "\<not> key_less i k k'"
    using that 2(2) set_kv_put [of i k v r] by auto
  moreover have "\<forall>p \<in> set r. key_less i k (fst p)" if "key_less i k k'"
    using that 2(2) key_less_trans by auto
  ultimately show ?case using 2 by auto
qed simp

lemma sorted_kv_del:
  assumes "kv_sorted i m"
  shows "kv_sorted i (kv_del k m)"
proof -
  have "set (kv_del k m) \<subseteq> set m"
    and "sorted_wrt (\<lambda>p q. key_less i (fst p) (fst q)) (kv_del k m)"
    using assms by (auto simp: kv_sorted_def kv_del_def sorted_wrt_filter)
  with assms show ?thesis unfolding kv_sorted_def by (meson subsetD)
qed

lemma kv_sorted_distinct: "kv_sorted i m \<Longrightarrow> distinct (map fst m)"
  by (induction m) (auto simp: kv_sorted_def)

text \<open>What an ordered key/value store promises to the storage code.\<close>

locale kv_store =
  fixes lookup :: "'m \<Rightarrow> 'k \<Rightarrow> 'v option"
    and put :: "'k \<Rightarrow> 'v \<Rightarrow> 'm \<Rightarrow> 'm"
    and del :: "'k \<Rightarrow> 'm \<Rightarrow> 'm"
  assumes lookup_put: "lookup (put k v m) = (lookup m)(k \<mapsto> v)"
    and lookup_del: "lookup (del k m) = (lookup m)(k := None)"
begin

definition put_new :: "'k \<Rightarrow> 'v \<Rightarrow> 'm \<Rightarrow> 'm" where
  "put_new k v m = (if lookup m k = None then put k v m else m)"

lemma put_commute: "k \<noteq> k' \<Longrightarrow> lookup (put k v (put k' v' m)) = lookup (put k' v' (put k v m))"
  by (auto simp: lookup_put)

lemma put_new_first: "lookup (put_new k v (put_new k w m)) = lookup (put_new k w m)"
  by (simp add: put_new_def lookup_put)

lemma del_put_commute: "k \<noteq> k' \<Longrightarrow> lookup (del k (put k' v m)) = lookup (put k' v (del k m))"
  by (auto simp: lookup_put lookup_del)

end

interpretation kv: kv_store map_of "kv_put i" kv_del
  by unfold_locales simp_all


section \<open>The environment and the frame of a call\<close>

record mdv_lmdb =
  env_dbs :: dbs
  ref_counter :: int
  env_open :: bool
  env_live :: int
  env_faults :: "bool list"

record mdv_map =
  map_pstorage :: bool
  map_dbi :: "string option"

datatype map_var = MapA | MapB

datatype rollback_op =
    Rb_rollbacker_free
  | Rb_transaction_abort
  | Rb_map_close map_var
  | Rb_mutex_unlock
  | Rb_free

record frame =
  f_env :: mdv_lmdb
  f_txn :: "dbs option"
  f_maps :: "map_var \<Rightarrow> mdv_map"
  f_locked :: bool
  f_rbr :: "rollback_op mdv_rollbacker option"

definition null_map :: mdv_map where
  "null_map = \<lparr> map_pstorage = False, map_dbi = None \<rparr>"

definition frame_init :: "mdv_lmdb \<Rightarrow> frame" where
  "frame_init e = \<lparr> f_env = e, f_txn = None, f_maps = (\<lambda>_. null_map),
     f_locked = False, f_rbr = None \<rparr>"

definition gets :: "('s \<Rightarrow> 'a) \<Rightarrow> ('s, 'a) state" where
  "gets f = State (\<lambda>s. (f s, s))"

definition modify :: "('s \<Rightarrow> 's) \<Rightarrow> ('s, unit) state" where
  "modify f = State (\<lambda>s. ((), f s))"

lemma run_gets [simp]: "run_state (gets f) s = (f s, s)"
  by (simp add: gets_def)

lemma run_modify [simp]: "run_state (modify f) s = ((), f s)"
  by (simp add: modify_def)

lemma run_if [simp]: "run_state (if b then m else n) s = (if b then run_state m s else run_state n s)"
  by simp

definition in_frame :: "(frame, 'a) state \<Rightarrow> (mdv_lmdb, 'a) state" where
  "in_frame m = State (\<lambda>e. let (r, s) = run_state m (frame_init e) in (r, f_env s))"

text \<open>The outcome of the next external call.\<close>

definition sys :: "(frame, bool) state" where
  "sys = State (\<lambda>s. case env_faults (f_env s) of
      [] \<Rightarrow> (True, s)
    | b # bs \<Rightarrow> (b, s \<lparr> f_env := f_env s \<lparr> env_faults := bs \<rparr> \<rparr>))"

definition tape_ok :: "bool list \<Rightarrow> bool" where
  "tape_ok fs \<longleftrightarrow> fs = [] \<or> hd fs"

definition sys_adv :: "frame \<Rightarrow> frame" where
  "sys_adv s = s \<lparr> f_env := f_env s \<lparr> env_faults := drop 1 (env_faults (f_env s)) \<rparr> \<rparr>"

lemma run_sys [simp]: "run_state sys s = (tape_ok (env_faults (f_env s)), sys_adv s)"
  by (simp add: sys_def tape_ok_def sys_adv_def split: list.split)

lemma tape_ok_Nil [simp]: "tape_ok []"
  by (simp add: tape_ok_def)

text \<open>The outcomes left after some calls.\<close>

definition consumed :: "bool list \<Rightarrow> bool list \<Rightarrow> bool" where
  "consumed fs fs' \<longleftrightarrow> (\<exists>n. fs' = drop n fs)"

lemma consumed_drop [simp]: "consumed fs (drop n fs)"
  by (auto simp: consumed_def)

lemma consumed_refl [simp]: "consumed fs fs"
  using consumed_drop [of fs 0] by simp

lemma consumed_Nil [simp]: "consumed [] fs \<longleftrightarrow> fs = []"
  by (auto simp: consumed_def)

definition mdv_alloc :: "(frame, bool) state" where
  "mdv_alloc = do {
     ok \<leftarrow> sys;
     if ok then do {
       modify (\<lambda>s. s \<lparr> f_env := f_env s \<lparr> env_live := env_live (f_env s) + 1 \<rparr> \<rparr>);
       State_Monad.return True
     } else State_Monad.return False
   }"

definition mdv_free :: "(frame, unit) state" where
  "mdv_free = modify (\<lambda>s. s \<lparr> f_env := f_env s \<lparr> env_live := env_live (f_env s) - 1 \<rparr> \<rparr>)"

definition mdv_storage_retain :: "mdv_lmdb \<Rightarrow> mdv_lmdb" where
  "mdv_storage_retain e = e \<lparr> ref_counter := ref_counter e + 1 \<rparr>"

definition mdv_storage_release :: "mdv_lmdb \<Rightarrow> mdv_lmdb" where
  "mdv_storage_release e =
     (let rc = ref_counter e - 1; e' = e \<lparr> ref_counter := rc \<rparr>
      in if rc = 0 then e' \<lparr> env_open := False, env_live := env_live e' - 1 \<rparr> else e')"


section \<open>Transactions\<close>

definition mdv_transaction_start :: "(frame, bool) state" where
  "mdv_transaction_start = do {
     ok \<leftarrow> sys;
     if \<not> ok then do {
       modify (\<lambda>s. s \<lparr> f_txn := None \<rparr>);
       State_Monad.return False
     } else do {
       modify (\<lambda>s. s \<lparr> f_txn := Some (env_dbs (f_env s)), f_env := mdv_storage_retain (f_env s) \<rparr>);
       State_Monad.return True
     }
   }"

text \<open>A commit that fails leaves the committed databases as they were.\<close>

definition mdv_transaction_commit :: "(frame, bool) state" where
  "mdv_transaction_commit = do {
     t \<leftarrow> gets f_txn;
     case t of
       None \<Rightarrow> State_Monad.return False
     | Some d \<Rightarrow> do {
         ok \<leftarrow> sys;
         (if ok then modify (\<lambda>s. s \<lparr> f_env := f_env s \<lparr> env_dbs := d \<rparr> \<rparr>) else State_Monad.return ());
         modify (\<lambda>s. s \<lparr> f_env := mdv_storage_release (f_env s), f_txn := None \<rparr>);
         State_Monad.return ok
       }
   }"

definition mdv_transaction_abort :: "(frame, bool) state" where
  "mdv_transaction_abort = do {
     t \<leftarrow> gets f_txn;
     case t of
       None \<Rightarrow> State_Monad.return False
     | Some d \<Rightarrow> do {
         modify (\<lambda>s. s \<lparr> f_env := mdv_storage_release (f_env s), f_txn := None \<rparr>);
         State_Monad.return True
       }
   }"


section \<open>Maps\<close>

definition mdv_map_ok :: "mdv_map \<Rightarrow> bool" where
  "mdv_map_ok m \<longleftrightarrow> map_pstorage m \<and> map_dbi m \<noteq> None"

definition set_map :: "map_var \<Rightarrow> mdv_map \<Rightarrow> (frame, unit) state" where
  "set_map x m = modify (\<lambda>s. s \<lparr> f_maps := (f_maps s)(x := m) \<rparr>)"

definition mdv_map_open :: "map_var \<Rightarrow> string \<Rightarrow> bool \<Rightarrow> bool \<Rightarrow> (frame, bool) state" where
  "mdv_map_open x name create intkey = do {
     ok \<leftarrow> sys;
     t \<leftarrow> gets f_txn;
     case t of
       None \<Rightarrow> do { set_map x null_map; State_Monad.return False }
     | Some d \<Rightarrow>
         if \<not> ok \<or> (d name = None \<and> \<not> create) then do {
           set_map x null_map;
           State_Monad.return False
         } else do {
           (if d name = None
            then modify (\<lambda>s. s \<lparr> f_txn := Some (d(name \<mapsto> \<lparr> db_intkey = intkey, db_kv = [] \<rparr>)) \<rparr>)
            else State_Monad.return ());
           modify (\<lambda>s. s \<lparr> f_env := mdv_storage_retain (f_env s) \<rparr>);
           set_map x \<lparr> map_pstorage = True, map_dbi = Some name \<rparr>;
           State_Monad.return True
         }
   }"

definition mdv_map_close :: "map_var \<Rightarrow> (frame, unit) state" where
  "mdv_map_close x = do {
     m \<leftarrow> gets (\<lambda>s. f_maps s x);
     if mdv_map_ok m then do {
       modify (\<lambda>s. s \<lparr> f_env := mdv_storage_release (f_env s) \<rparr>);
       set_map x (m \<lparr> map_pstorage := False \<rparr>)
     } else State_Monad.return ()
   }"

text \<open>The database a map variable denotes inside the running transaction.\<close>

definition txn_db :: "map_var \<Rightarrow> frame \<Rightarrow> (string \<times> db) option" where
  "txn_db x s =
     (case f_txn s of None \<Rightarrow> None
      | Some d \<Rightarrow> (case map_dbi (f_maps s x) of None \<Rightarrow> None
         | Some name \<Rightarrow> map_option (Pair name) (d name)))"

definition put_db :: "string \<Rightarrow> db \<Rightarrow> (frame, unit) state" where
  "put_db name b = modify (\<lambda>s. s \<lparr> f_txn := map_option (\<lambda>d. d(name \<mapsto> b)) (f_txn s) \<rparr>)"

definition mdv_map_put_impl :: "map_var \<Rightarrow> bytes \<Rightarrow> bytes \<Rightarrow> bool \<Rightarrow> (frame, bool) state" where
  "mdv_map_put_impl x key val nooverwrite = do {
     t \<leftarrow> gets f_txn;
     if t = None then State_Monad.return False
     else do {
       ok \<leftarrow> sys;
       b \<leftarrow> gets (txn_db x);
       case b of
         None \<Rightarrow> State_Monad.return False
       | Some (name, db) \<Rightarrow>
           if \<not> ok \<or> (nooverwrite \<and> map_of (db_kv db) key \<noteq> None) then State_Monad.return False
           else do {
             put_db name (db \<lparr> db_kv := kv_put (db_intkey db) key val (db_kv db) \<rparr>);
             State_Monad.return True
           }
     }
   }"

definition mdv_map_put :: "map_var \<Rightarrow> bytes \<Rightarrow> bytes \<Rightarrow> (frame, bool) state" where
  "mdv_map_put x key val = mdv_map_put_impl x key val False"

definition mdv_map_put_unique :: "map_var \<Rightarrow> bytes \<Rightarrow> bytes \<Rightarrow> (frame, bool) state" where
  "mdv_map_put_unique x key val = mdv_map_put_impl x key val True"

definition mdv_map_get :: "map_var \<Rightarrow> bytes \<Rightarrow> (frame, bytes option) state" where
  "mdv_map_get x key = do {
     t \<leftarrow> gets f_txn;
     if t = None then State_Monad.return None
     else do {
       ok \<leftarrow> sys;
       b \<leftarrow> gets (txn_db x);
       State_Monad.return (if ok then Option.bind b (\<lambda>(name, db). map_of (db_kv db) key) else None)
     }
   }"

definition mdv_map_del :: "map_var \<Rightarrow> bytes \<Rightarrow> (frame, bool) state" where
  "mdv_map_del x key = do {
     t \<leftarrow> gets f_txn;
     if t = None then State_Monad.return False
     else do {
       ok \<leftarrow> sys;
       b \<leftarrow> gets (txn_db x);
       case b of
         None \<Rightarrow> State_Monad.return False
       | Some (name, db) \<Rightarrow>
           if \<not> ok \<or> map_of (db_kv db) key = None then State_Monad.return False
           else do {
             put_db name (db \<lparr> db_kv := kv_del key (db_kv db) \<rparr>);
             State_Monad.return True
           }
     }
   }"



section \<open>The rollbacker of a frame\<close>

definition exec_rollback :: "rollback_op \<Rightarrow> frame \<Rightarrow> frame" where
  "exec_rollback op s =
     (case op of
        Rb_rollbacker_free \<Rightarrow> (snd (run_state mdv_free s)) \<lparr> f_rbr := None \<rparr>
      | Rb_transaction_abort \<Rightarrow> snd (run_state mdv_transaction_abort s)
      | Rb_map_close x \<Rightarrow> snd (run_state (mdv_map_close x) s)
      | Rb_mutex_unlock \<Rightarrow> s \<lparr> f_locked := False \<rparr>
      | Rb_free \<Rightarrow> snd (run_state mdv_free s))"

definition rollbacker_create :: "nat \<Rightarrow> (frame, unit) state" where
  "rollbacker_create capacity = do {
     ok \<leftarrow> mdv_alloc;
     modify (\<lambda>s. s \<lparr> f_rbr := mdv_rollbacker_create ok Rb_rollbacker_free capacity \<rparr>)
   }"

definition rollbacker_push :: "rollback_op \<Rightarrow> (frame, unit) state" where
  "rollbacker_push op = modify (\<lambda>s. s \<lparr> f_rbr := snd (mdv_rollbacker_push (f_rbr s) op) \<rparr>)"

definition rollback :: "(frame, unit) state" where
  "rollback = modify (\<lambda>s. mdv_rollback exec_rollback (f_rbr s) s)"

definition rollbacker_free :: "(frame, unit) state" where
  "rollbacker_free = do {
     r \<leftarrow> gets f_rbr;
     if r = None then State_Monad.return ()
     else do { mdv_free; modify (\<lambda>s. s \<lparr> f_rbr := None \<rparr>) }
   }"


section \<open>Cursors\<close>

datatype mdv_cursor_op =
    MDV_CURSOR_FIRST | MDV_CURSOR_CURRENT | MDV_CURSOR_LAST | MDV_CURSOR_LAST_DUP
  | MDV_CURSOR_NEXT | MDV_CURSOR_NEXT_DUP | MDV_CURSOR_PREV | MDV_CURSOR_SET
  | MDV_CURSOR_SET_RANGE

record mdv_cursor =
  cur_ok :: bool
  cur_intkey :: bool
  cur_kv :: kv
  cur_pos :: "nat option"

definition null_cursor :: mdv_cursor where
  "null_cursor = \<lparr> cur_ok = False, cur_intkey = False, cur_kv = [], cur_pos = None \<rparr>"

text \<open>The slot an LMDB cursor moves to, None for MDB_NOTFOUND and for errors. No map of the
  program has duplicate keys.\<close>

fun cursor_seek :: "mdv_cursor_op \<Rightarrow> bytes \<Rightarrow> mdv_cursor \<Rightarrow> nat option" where
  "cursor_seek MDV_CURSOR_FIRST k c = (if cur_kv c = [] then None else Some 0)"
| "cursor_seek MDV_CURSOR_LAST k c = (if cur_kv c = [] then None else Some (length (cur_kv c) - 1))"
| "cursor_seek MDV_CURSOR_CURRENT k c = cur_pos c"
| "cursor_seek MDV_CURSOR_NEXT k c =
     (let p = (case cur_pos c of None \<Rightarrow> 0 | Some p \<Rightarrow> Suc p)
      in if p < length (cur_kv c) then Some p else None)"
| "cursor_seek MDV_CURSOR_PREV k c =
     (case cur_pos c of
        None \<Rightarrow> if cur_kv c = [] then None else Some (length (cur_kv c) - 1)
      | Some p \<Rightarrow> if p = 0 then None else Some (p - 1))"
| "cursor_seek MDV_CURSOR_SET k c =
     (let p = kv_range (cur_intkey c) k (cur_kv c)
      in if p < length (cur_kv c) \<and> fst (cur_kv c ! p) = k then Some p else None)"
| "cursor_seek MDV_CURSOR_SET_RANGE k c =
     (let p = kv_range (cur_intkey c) k (cur_kv c)
      in if p < length (cur_kv c) then Some p else None)"
| "cursor_seek MDV_CURSOR_LAST_DUP k c = None"
| "cursor_seek MDV_CURSOR_NEXT_DUP k c = None"

definition mdv_cursor_get ::
  "mdv_cursor_op \<Rightarrow> bytes \<Rightarrow> mdv_cursor \<Rightarrow> (frame, (bytes \<times> bytes) option \<times> mdv_cursor) state" where
  "mdv_cursor_get op key c = do {
     ok \<leftarrow> sys;
     State_Monad.return
       (case (if ok then cursor_seek op key c else None) of
          None \<Rightarrow> (None, c)
        | Some p \<Rightarrow> (Some (cur_kv c ! p), c \<lparr> cur_pos := Some p \<rparr>))
   }"

definition mdv_cursor_open :: "map_var \<Rightarrow> (frame, mdv_cursor) state" where
  "mdv_cursor_open x = do {
     ok \<leftarrow> sys;
     b \<leftarrow> gets (txn_db x);
     case b of
       None \<Rightarrow> State_Monad.return null_cursor
     | Some (name, db) \<Rightarrow>
         if \<not> ok then State_Monad.return null_cursor
         else do {
           modify (\<lambda>s. s \<lparr> f_env := mdv_storage_retain (f_env s) \<rparr>);
           State_Monad.return \<lparr> cur_ok = True, cur_intkey = db_intkey db, cur_kv = db_kv db, cur_pos = None \<rparr>
         }
   }"

definition mdv_cursor_close :: "mdv_cursor \<Rightarrow> (frame, mdv_cursor) state" where
  "mdv_cursor_close c = do {
     (if cur_ok c then modify (\<lambda>s. s \<lparr> f_env := mdv_storage_release (f_env s) \<rparr>)
      else State_Monad.return ());
     State_Monad.return null_cursor
   }"

definition mdv_cursor_open_explicit ::
  "map_var \<Rightarrow> bytes \<Rightarrow> mdv_cursor_op \<Rightarrow> (frame, mdv_cursor \<times> (bytes \<times> bytes) option) state" where
  "mdv_cursor_open_explicit x key op = do {
     c \<leftarrow> mdv_cursor_open x;
     if \<not> cur_ok c then State_Monad.return (c, None)
     else do {
       (e, c') \<leftarrow> mdv_cursor_get op key c;
       if e = None \<and> op \<noteq> MDV_CURSOR_FIRST then do {
         c'' \<leftarrow> mdv_cursor_close c';
         State_Monad.return (c'', None)
       } else State_Monad.return (c', e)
     }
   }"

definition mdv_cursor_open_first ::
  "map_var \<Rightarrow> (frame, mdv_cursor \<times> (bytes \<times> bytes) option) state" where
  "mdv_cursor_open_first x = mdv_cursor_open_explicit x [] MDV_CURSOR_FIRST"

text \<open>
  The iteration macro. The body gets the current entry, None when the entry
  variables were not written, and answers whether it leaves the loop; the rest
  list holds the entries a following MDV_CURSOR_NEXT visits.
\<close>

primrec foreach_loop ::
  "((bytes \<times> bytes) option \<Rightarrow> 'c \<Rightarrow> (frame, bool \<times> 'c) state) \<Rightarrow> mdv_cursor \<Rightarrow> kv \<Rightarrow>
   (bytes \<times> bytes) option \<Rightarrow> 'c \<Rightarrow> (frame, 'c) state" where
  "foreach_loop body c [] e acc = do {
     (brk, acc') \<leftarrow> body e acc;
     (if brk then State_Monad.return True else sys);
     mdv_cursor_close c;
     State_Monad.return acc'
   }"
| "foreach_loop body c (n # rest) e acc = do {
     (brk, acc') \<leftarrow> body e acc;
     if brk then do {
       mdv_cursor_close c;
       State_Monad.return acc'
     } else do {
       ok \<leftarrow> sys;
       if ok then foreach_loop body c rest (Some n) acc'
       else do { mdv_cursor_close c; State_Monad.return acc' }
     }
   }"

definition cursor_rest :: "mdv_cursor \<Rightarrow> kv" where
  "cursor_rest c = (case cur_pos c of None \<Rightarrow> cur_kv c | Some p \<Rightarrow> drop (Suc p) (cur_kv c))"

definition mdv_map_foreach_explicit ::
  "map_var \<Rightarrow> bytes \<Rightarrow> mdv_cursor_op \<Rightarrow>
   ((bytes \<times> bytes) option \<Rightarrow> 'c \<Rightarrow> (frame, bool \<times> 'c) state) \<Rightarrow> 'c \<Rightarrow> (frame, 'c) state" where
  "mdv_map_foreach_explicit x key op_first body acc = do {
     (c, e) \<leftarrow> mdv_cursor_open_explicit x key op_first;
     if cur_ok c then foreach_loop body c (cursor_rest c) e acc
     else State_Monad.return acc
   }"

definition mdv_map_foreach ::
  "map_var \<Rightarrow> ((bytes \<times> bytes) option \<Rightarrow> 'c \<Rightarrow> (frame, bool \<times> 'c) state) \<Rightarrow> 'c \<Rightarrow> (frame, 'c) state" where
  "mdv_map_foreach x body acc = mdv_map_foreach_explicit x [] MDV_CURSOR_FIRST body acc"


section \<open>Field descriptors\<close>

record mdv_map_field_desc =
  fd_key :: bytes
  fd_size :: nat
  fd_val :: bytes
  fd_empty :: bool
  fd_changed :: bool

primrec mdv_map_read ::
  "map_var \<Rightarrow> mdv_map_field_desc list \<Rightarrow> (frame, mdv_map_field_desc list) state" where
  "mdv_map_read x [] = State_Monad.return []"
| "mdv_map_read x (fd # fds) = do {
     v \<leftarrow> mdv_map_get x (fd_key fd);
     let fd' = (case v of
         None \<Rightarrow> fd
       | Some val \<Rightarrow>
           if length val \<le> fd_size fd
           then fd \<lparr> fd_size := length val, fd_val := val @ drop (length val) (fd_val fd),
                     fd_empty := False, fd_changed := False \<rparr>
           else fd);
     fds' \<leftarrow> mdv_map_read x fds;
     State_Monad.return (fd' # fds')
   }"

primrec mdv_map_write ::
  "map_var \<Rightarrow> mdv_map_field_desc list \<Rightarrow> (frame, mdv_map_field_desc list) state" where
  "mdv_map_write x [] = State_Monad.return []"
| "mdv_map_write x (fd # fds) = do {
     ok \<leftarrow> (if fd_changed fd then mdv_map_put x (fd_key fd) (take (fd_size fd) (fd_val fd))
            else State_Monad.return False);
     fds' \<leftarrow> mdv_map_write x fds;
     State_Monad.return ((if ok then fd \<lparr> fd_changed := False \<rparr> else fd) # fds')
   }"



section \<open>Evaluation of the storage calls\<close>

lemmas lmdb_eval = in_frame_def frame_init_def sys_adv_def mdv_alloc_def mdv_free_def
  mdv_storage_retain_def mdv_transaction_start_def mdv_transaction_commit_def
  mdv_transaction_abort_def mdv_map_ok_def set_map_def mdv_map_open_def mdv_map_close_def
  txn_db_def put_db_def mdv_map_put_impl_def mdv_map_put_def mdv_map_put_unique_def
  mdv_map_get_def mdv_map_del_def exec_rollback_def rollbacker_create_def rollbacker_push_def
  rollback_def rollbacker_free_def null_map_def mdv_rollbacker_create_def
  mdv_rollbacker_push_def mdv_rollback_fold

text \<open>A release that does not drop the last reference only counts down.\<close>

lemma storage_release_shared [simp]:
  "ref_counter e \<noteq> 1 \<Longrightarrow> mdv_storage_release e = e \<lparr> ref_counter := ref_counter e - 1 \<rparr>"
  by (simp add: mdv_storage_release_def Let_def)

text \<open>The contents of a named database as a finite map.\<close>

definition db_map :: "dbs \<Rightarrow> string \<Rightarrow> bytes \<Rightarrow> bytes option" where
  "db_map d name = (case d name of None \<Rightarrow> Map.empty | Some b \<Rightarrow> map_of (db_kv b))"

definition create_db :: "string \<Rightarrow> bool \<Rightarrow> dbs \<Rightarrow> dbs" where
  "create_db name intkey d =
     (if d name = None then d(name \<mapsto> \<lparr> db_intkey = intkey, db_kv = [] \<rparr>) else d)"

lemma db_map_create [simp]: "db_map (create_db name i d) n = db_map d n"
  by (simp add: db_map_def create_db_def)

definition has_db :: "dbs \<Rightarrow> string \<Rightarrow> bool" where
  "has_db d name \<longleftrightarrow> d name \<noteq> None"

lemma has_db_create [simp]: "has_db (create_db name i d) n \<longleftrightarrow> has_db d n \<or> n = name"
  by (auto simp: create_db_def has_db_def)

definition db_put :: "string \<Rightarrow> bytes \<Rightarrow> bytes \<Rightarrow> dbs \<Rightarrow> dbs" where
  "db_put name k v d =
     (case d name of None \<Rightarrow> d
      | Some b \<Rightarrow> d(name \<mapsto> b \<lparr> db_kv := kv_put (db_intkey b) k v (db_kv b) \<rparr>))"

definition db_del :: "string \<Rightarrow> bytes \<Rightarrow> dbs \<Rightarrow> dbs" where
  "db_del name k d =
     (case d name of None \<Rightarrow> d | Some b \<Rightarrow> d(name \<mapsto> b \<lparr> db_kv := kv_del k (db_kv b) \<rparr>))"

lemma db_map_put [simp]:
  "has_db d name \<Longrightarrow> db_map (db_put name k v d) n = (if n = name then (db_map d n)(k \<mapsto> v) else db_map d n)"
  by (auto simp: db_map_def db_put_def has_db_def)

lemma db_map_del [simp]:
  "db_map (db_del name k d) n = (if n = name then (db_map d n)(k := None) else db_map d n)"
  by (auto simp: db_map_def db_del_def split: option.splits)

lemma has_db_put [simp]: "has_db (db_put name k v d) n \<longleftrightarrow> has_db d n"
  by (auto simp: db_put_def has_db_def split: option.splits)

lemma has_db_del [simp]: "has_db (db_del name k d) n \<longleftrightarrow> has_db d n"
  by (auto simp: db_del_def has_db_def split: option.splits)

end
