(* ===== verification/Mdv_Lmdb_Map.thy ===== *)
theory Mdv_Lmdb_Map
  imports Mdv_Lmdb
begin

text \<open>
  The shape shared by the storage functions that work on a single map: create a
  rollbacker, register an already held mutex if there is one, start a
  transaction, open the map, run a body. Each call of mdv_storage/mdv_lmdb.c
  is evaluated once on the frame such a function has after its opening, with the
  outcomes of the external calls numbered from 0 (rollbacker), 1 (transaction)
  and 2 (map).
\<close>

definition with_map ::
  "bool \<Rightarrow> string \<Rightarrow> bool \<Rightarrow> bool \<Rightarrow> 'r \<Rightarrow> 'r \<Rightarrow> (frame, 'r) state \<Rightarrow> (frame, 'r) state" where
  "with_map mutex name create intkey failed_txn failed_map body = do {
     rollbacker_create (if mutex then 3 else 2);
     (if mutex then rollbacker_push Rb_mutex_unlock else State_Monad.return ());
     ok \<leftarrow> mdv_transaction_start;
     if \<not> ok then do { rollback; State_Monad.return failed_txn }
     else do {
       rollbacker_push Rb_transaction_abort;
       ok \<leftarrow> mdv_map_open MapA name create intkey;
       if \<not> ok then do { rollback; State_Monad.return failed_map }
       else do {
         rollbacker_push (Rb_map_close MapA);
         body
       }
     }
   }"

definition start_frame :: "bool \<Rightarrow> mdv_lmdb \<Rightarrow> frame" where
  "start_frame mutex e = (frame_init e) \<lparr> f_locked := mutex \<rparr>"

text \<open>The environment stays open, outcomes are only consumed, references are never given back
  twice, and an environment whose rollbacker was allocated gets all its references and blocks
  back.\<close>

definition balanced :: "mdv_lmdb \<Rightarrow> mdv_lmdb \<Rightarrow> bool" where
  "balanced e e' \<longleftrightarrow> env_open e' = env_open e \<and> consumed (env_faults e) (env_faults e') \<and>
     ref_counter e \<le> ref_counter e' \<and>
     (tape_ok (env_faults e) \<longrightarrow> ref_counter e' = ref_counter e \<and> env_live e' = env_live e)"

lemma balanced_dbs [simp]: "balanced (e \<lparr> env_dbs := d \<rparr>) e' = balanced e e'"
  by (simp add: balanced_def)

definition txn_opens :: "mdv_lmdb \<Rightarrow> bool" where
  "txn_opens e \<longleftrightarrow> tape_ok (drop 1 (env_faults e))"

definition map_opens :: "bool \<Rightarrow> string \<Rightarrow> mdv_lmdb \<Rightarrow> bool" where
  "map_opens create name e \<longleftrightarrow> txn_opens e \<and> tape_ok (drop 2 (env_faults e)) \<and>
     (create \<or> has_db (env_dbs e) name)"

text \<open>The frame with the map open, t as its transaction and n outcomes consumed.\<close>

definition opened_map :: "bool \<Rightarrow> string \<Rightarrow> mdv_lmdb \<Rightarrow> dbs option \<Rightarrow> nat \<Rightarrow> frame" where
  "opened_map mutex name e t n = \<lparr>
     f_env = e \<lparr> ref_counter := (if t = None then 1 else 2) + ref_counter e,
       env_live := env_live e + (if tape_ok (env_faults e) then 1 else 0),
       env_faults := drop n (env_faults e) \<rparr>,
     f_txn = t,
     f_maps = (\<lambda>_. null_map)(MapA := \<lparr> map_pstorage = True, map_dbi = Some name \<rparr>),
     f_locked = mutex,
     f_rbr = (if tape_ok (env_faults e)
       then Some (if mutex
         then \<lparr> rb_capacity = 4, rb_ops = [Rb_rollbacker_free, Rb_mutex_unlock, Rb_transaction_abort, Rb_map_close MapA] \<rparr>
         else \<lparr> rb_capacity = 3, rb_ops = [Rb_rollbacker_free, Rb_transaction_abort, Rb_map_close MapA] \<rparr>)
       else None) \<rparr>"

lemma run_with_map_ok:
  assumes "map_opens create name e"
  shows "run_state (with_map mutex name create i ft fm body) (start_frame mutex e) =
    run_state body (opened_map mutex name e (Some (create_db name i (env_dbs e))) 3)"
  using assms
  by (cases e; cases "env_dbs e name"; cases "tape_ok (env_faults e)"; cases mutex)
    (simp_all add: map_opens_def txn_opens_def has_db_def with_map_def start_frame_def lmdb_eval
      opened_map_def create_db_def numeral_eq_Suc)

lemma run_with_map_fail:
  assumes "\<not> map_opens create name e" "1 \<le> ref_counter e"
  shows "\<exists>s. run_state (with_map mutex name create i ft fm body) (start_frame mutex e) =
      (if txn_opens e then fm else ft, s) \<and>
    env_dbs (f_env s) = env_dbs e \<and> balanced e (f_env s) \<and> (tape_ok (env_faults e) \<longrightarrow> \<not> f_locked s)"
proof (cases "txn_opens e")
  case True
  with assms show ?thesis
    by (cases "tape_ok (env_faults e)"; cases mutex)
      (auto simp: map_opens_def txn_opens_def has_db_def with_map_def start_frame_def lmdb_eval
        balanced_def numeral_eq_Suc)
next
  case False
  with assms show ?thesis
    by (cases "tape_ok (env_faults e)"; cases mutex)
      (simp_all add: txn_opens_def with_map_def start_frame_def lmdb_eval balanced_def numeral_eq_Suc)
qed

lemma with_map_fails:
  assumes "\<not> map_opens create name e" "1 \<le> ref_counter e"
  shows "fst (run_state (with_map mutex name create i ft fm body) (start_frame mutex e)) =
      (if txn_opens e then fm else ft)"
    and "env_dbs (f_env (snd (run_state (with_map mutex name create i ft fm body) (start_frame mutex e)))) =
      env_dbs e"
    and "balanced e (f_env (snd (run_state (with_map mutex name create i ft fm body) (start_frame mutex e))))"
    and "tape_ok (env_faults e) \<Longrightarrow>
      \<not> f_locked (snd (run_state (with_map mutex name create i ft fm body) (start_frame mutex e)))"
  using run_with_map_fail [OF assms, of mutex i ft fm body] by auto

lemma abort_opened_map:
  assumes "1 \<le> ref_counter e"
  shows "run_state mdv_transaction_abort (opened_map mx name e (Some d) n) = (True, opened_map mx name e None n)"
    "run_state mdv_transaction_abort (opened_map mx name e None n) = (False, opened_map mx name e None n)"
  using assms by (cases e; simp add: lmdb_eval opened_map_def)+

lemma commit_opened_map:
  assumes "1 \<le> ref_counter e"
  shows "run_state mdv_transaction_commit (opened_map mx name e (Some d) n) =
    (let ok = tape_ok (drop n (env_faults e))
     in (ok, opened_map mx name (if ok then e \<lparr> env_dbs := d \<rparr> else e) None (Suc n)))"
  using assms by (cases e) (auto simp: lmdb_eval opened_map_def Let_def)

lemma get_opened_map:
  "run_state (mdv_map_get MapA k) (opened_map mx name e (Some d) n) =
     ((if tape_ok (drop n (env_faults e)) then db_map d name k else None), opened_map mx name e (Some d) (Suc n))"
  by (cases e) (auto simp: lmdb_eval opened_map_def db_map_def split: option.splits)

lemma put_opened_map:
  assumes "has_db d name"
  shows "run_state (mdv_map_put_impl MapA k v u) (opened_map mx name e (Some d) n) =
    (let ok = tape_ok (drop n (env_faults e)) \<and> (u \<longrightarrow> db_map d name k = None)
     in (ok, opened_map mx name e (Some (if ok then db_put name k v d else d)) (Suc n)))"
  using assms
  by (cases e) (auto simp: lmdb_eval opened_map_def db_map_def db_put_def has_db_def Let_def)

text \<open>Leaving: the rollback of an error path, and the closing calls of a normal end.\<close>

definition close_map :: "(frame, unit) state" where
  "close_map = do { mdv_map_close MapA; rollbacker_free; modify (\<lambda>s. s \<lparr> f_locked := False \<rparr>) }"

lemma rollback_opened_map:
  assumes "1 \<le> ref_counter e"
  shows "env_dbs (f_env (snd (run_state rollback (opened_map mx name e t n)))) = env_dbs e"
    and "balanced e (f_env (snd (run_state rollback (opened_map mx name e t n))))"
    and "tape_ok (env_faults e) \<Longrightarrow> \<not> f_locked (snd (run_state rollback (opened_map mx name e t n)))"
  using assms
  by (cases t; cases mx; cases "tape_ok (env_faults e)"; simp add: lmdb_eval opened_map_def balanced_def)+

lemma close_opened_map:
  assumes "1 \<le> ref_counter e"
  shows "env_dbs (f_env (snd (run_state close_map (opened_map mx name e None n)))) = env_dbs e"
    and "balanced e (f_env (snd (run_state close_map (opened_map mx name e None n))))"
    and "\<not> f_locked (snd (run_state close_map (opened_map mx name e None n)))"
  using assms
  by (cases "tape_ok (env_faults e)"; simp add: lmdb_eval close_map_def opened_map_def balanced_def)+

lemma close_committed_map:
  assumes "1 \<le> ref_counter e"
  shows "balanced e (f_env (snd (run_state close_map (opened_map mx name (e \<lparr> env_dbs := d \<rparr>) None n))))"
  using close_opened_map(2) [of "e \<lparr> env_dbs := d \<rparr>"] assms by simp

lemmas opened_map_calls = get_opened_map put_opened_map abort_opened_map commit_opened_map
  mdv_map_put_def mdv_map_put_unique_def Let_def
lemmas leave_opened_map = rollback_opened_map close_opened_map close_committed_map



section \<open>Cursors over the open map\<close>

lemma sys_opened_map:
  "sys_adv (opened_map mx name e t n) = opened_map mx name e t (Suc n)"
  "env_faults (f_env (opened_map mx name e t n)) = drop n (env_faults e)"
  by (simp_all add: sys_adv_def opened_map_def)

lemma alloc_opened_map:
  "run_state mdv_alloc (opened_map mx name e t n) =
     (tape_ok (drop n (env_faults e)),
      opened_map mx name (if tape_ok (drop n (env_faults e)) then e \<lparr> env_live := env_live e + 1 \<rparr> else e) t (Suc n))"
  by (cases e) (simp add: mdv_alloc_def sys_adv_def opened_map_def)

lemma cursor_open_opened_map:
  assumes "has_db d name"
  shows "run_state (mdv_cursor_open MapA) (opened_map mx name e (Some d) n) =
     (if tape_ok (drop n (env_faults e))
      then (\<lparr> cur_ok = True, cur_intkey = db_intkey (the (d name)), cur_kv = db_kv (the (d name)), cur_pos = None \<rparr>,
            opened_map mx name (e \<lparr> ref_counter := ref_counter e + 1 \<rparr>) (Some d) (Suc n))
      else (null_cursor, opened_map mx name e (Some d) (Suc n)))"
  using assms by (cases e) (auto simp: mdv_cursor_open_def lmdb_eval opened_map_def has_db_def)

lemma cursor_close_opened_map:
  assumes "1 \<le> ref_counter e"
  shows "run_state (mdv_cursor_close c) (opened_map mx name (e \<lparr> ref_counter := ref_counter e + 1 \<rparr>) (Some d) n) =
     (null_cursor, if cur_ok c then opened_map mx name e (Some d) n
                   else opened_map mx name (e \<lparr> ref_counter := ref_counter e + 1 \<rparr>) (Some d) n)"
  using assms by (cases e) (simp add: mdv_cursor_close_def lmdb_eval opened_map_def)

text \<open>
  A loop body that copies entries into a list: it leaves the loop at an entry
  that meets stop, when an allocation fails, and when the list is full.
\<close>

definition collect_body ::
  "(bytes \<times> bytes \<Rightarrow> 'r) \<Rightarrow> (bytes \<times> bytes \<Rightarrow> bool) \<Rightarrow> (nat \<Rightarrow> bool) \<Rightarrow>
   (bytes \<times> bytes) option \<Rightarrow> 'r list \<Rightarrow> (frame, bool \<times> 'r list) state" where
  "collect_body conv stop full entry acc =
     (case entry of
        None \<Rightarrow> State_Monad.return (True, acc)
      | Some p \<Rightarrow>
          if stop p then State_Monad.return (True, acc)
          else do {
            ok \<leftarrow> mdv_alloc;
            if \<not> ok then State_Monad.return (True, acc)
            else State_Monad.return (full (length acc + 1), acc @ [conv p])
          })"

fun collect :: "(bytes \<times> bytes \<Rightarrow> 'r) \<Rightarrow> (bytes \<times> bytes \<Rightarrow> bool) \<Rightarrow> (nat \<Rightarrow> bool) \<Rightarrow> kv \<Rightarrow> 'r list \<Rightarrow> 'r list" where
  "collect conv stop full [] acc = acc"
| "collect conv stop full (p # ps) acc =
     (if stop p then acc
      else if full (length acc + 1) then acc @ [conv p]
      else collect conv stop full ps (acc @ [conv p]))"

lemma collect_extends: "\<exists>xs. collect conv stop full ps acc = acc @ xs"
  by (induction conv stop full ps acc rule: collect.induct) auto

lemma take_collect: "take (length acc) (collect conv stop full ps acc) = acc"
  using collect_extends [of conv stop full ps acc] by auto

lemma collect_length: "length acc \<le> length (collect conv stop full ps acc)"
  using collect_extends [of conv stop full ps acc] by auto

lemma collect_body_step:
  "run_state (collect_body conv stop full (Some p) acc)
      (opened_map mx name (e \<lparr> ref_counter := r \<rparr>) t n) =
     (if stop p then ((True, acc), opened_map mx name (e \<lparr> ref_counter := r \<rparr>) t n)
      else if tape_ok (drop n (env_faults e))
      then ((full (length acc + 1), acc @ [conv p]),
            opened_map mx name ((e \<lparr> env_live := env_live e + 1 \<rparr>) \<lparr> ref_counter := r \<rparr>) t (Suc n))
      else ((True, acc), opened_map mx name (e \<lparr> ref_counter := r \<rparr>) t (Suc n)))"
  by (cases e) (simp add: collect_body_def alloc_opened_map)

text \<open>Whatever fails, the loop yields a beginning of what it yields without failures; each
  copied entry is one allocated block.\<close>

lemma collect_loop:
  assumes "1 \<le> ref_counter e" "cur_ok c"
  shows "\<exists>m n'. run_state (foreach_loop (collect_body conv stop full) c rest (Some p) acc)
      (opened_map mx name (e \<lparr> ref_counter := ref_counter e + 1 \<rparr>) (Some d) n) =
     (take m (collect conv stop full (p # rest) acc),
      opened_map mx name (e \<lparr> env_live := env_live e + int (m - length acc) \<rparr>) (Some d) n') \<and>
     length acc \<le> m \<and> m \<le> length (collect conv stop full (p # rest) acc) \<and>
     (env_faults e = [] \<longrightarrow> m = length (collect conv stop full (p # rest) acc))"
  using assms(1)
proof (induction rest arbitrary: p acc e n)
  case Nil
  let ?e1 = "e \<lparr> env_live := env_live e + 1 \<rparr>"
  note close = cursor_close_opened_map [OF Nil, where c = c]
    cursor_close_opened_map [of ?e1 c, simplified, OF Nil]
  show ?case
    using assms(2) Nil
    by - (rule exI [of _ "if stop p \<or> \<not> tape_ok (drop n (env_faults e)) then length acc else Suc (length acc)"],
      auto simp: collect_body_step close sys_opened_map take_collect split_beta)
next
  case (Cons q rest)
  let ?e1 = "e \<lparr> env_live := env_live e + 1 \<rparr>"
  note close = cursor_close_opened_map [OF Cons.prems, where c = c]
    cursor_close_opened_map [of ?e1 c, simplified, OF Cons.prems]
  consider (leave) "stop p \<or> \<not> tape_ok (drop n (env_faults e))"
    | (once) "\<not> stop p" "tape_ok (drop n (env_faults e))"
        "full (length acc + 1) \<or> \<not> tape_ok (drop (Suc n) (env_faults e))"
    | (again) "\<not> stop p" "tape_ok (drop n (env_faults e))" "\<not> full (length acc + 1)"
        "tape_ok (drop (Suc n) (env_faults e))"
    by blast
  then show ?case
  proof cases
    case leave
    have "stop p \<Longrightarrow> collect conv stop full (p # q # rest) acc = acc" by simp
    with leave show ?thesis
      using assms(2) collect_length [of acc conv stop full "p # q # rest"]
      by - (rule exI [of _ "length acc"],
        auto simp: collect_body_step close split_beta take_collect sys_opened_map simp del: collect.simps(2))
  next
    case once
    then show ?thesis
      using assms(2) take_collect [of "acc @ [conv p]" conv stop full "q # rest"]
        collect_length [of "acc @ [conv p, conv q]" conv stop full rest]
      by - (rule exI [of _ "Suc (length acc)"],
        auto simp: collect_body_step close sys_opened_map split_beta)
  next
    case again
    let ?acc = "acc @ [conv p]"
    have rc: "1 \<le> ref_counter ?e1" using Cons.prems by simp
    obtain m n' where ih: "run_state (foreach_loop (collect_body conv stop full) c rest (Some q) ?acc)
        (opened_map mx name (?e1 \<lparr> ref_counter := ref_counter ?e1 + 1 \<rparr>) (Some d) (Suc (Suc n))) =
       (take m (collect conv stop full (q # rest) ?acc),
        opened_map mx name (?e1 \<lparr> env_live := env_live ?e1 + int (m - length ?acc) \<rparr>) (Some d) n')"
      "length ?acc \<le> m" "m \<le> length (collect conv stop full (q # rest) ?acc)"
      "env_faults ?e1 = [] \<longrightarrow> m = length (collect conv stop full (q # rest) ?acc)"
      using Cons.IH [OF rc, where p = q and acc = ?acc and n = "Suc (Suc n)"] by blast
    have "collect conv stop full (p # q # rest) acc = collect conv stop full (q # rest) ?acc"
      using again by simp
    then show ?thesis
      using again ih by (intro exI [of _ m] exI [of _ n'])
        (simp add: collect_body_step sys_opened_map of_nat_diff del: collect.simps(2))
  qed
qed


lemma foreach_range_run:
  assumes "1 \<le> ref_counter e" "has_db d name"
    and C_def: "C = collect conv stop full
      (drop (kv_range (db_intkey (the (d name))) key (db_kv (the (d name)))) (db_kv (the (d name)))) []"
  shows "\<exists>m n'. run_state (mdv_map_foreach_explicit MapA key MDV_CURSOR_SET_RANGE (collect_body conv stop full) [])
      (opened_map mx name e (Some d) n) =
     (take m C, opened_map mx name (e \<lparr> env_live := env_live e + int m \<rparr>) (Some d) n') \<and>
     m \<le> length C \<and> (env_faults e = [] \<longrightarrow> m = length C)"
proof -
  let ?kv = "db_kv (the (d name))" and ?r = "kv_range (db_intkey (the (d name))) key (db_kv (the (d name)))"
  let ?c = "\<lparr> cur_ok = True, cur_intkey = db_intkey (the (d name)), cur_kv = ?kv, cur_pos = Some ?r \<rparr>"
  note open_calls = mdv_map_foreach_explicit_def mdv_cursor_open_explicit_def mdv_cursor_get_def
    cursor_open_opened_map [OF assms(2)] sys_opened_map null_cursor_def Let_def
  note close = cursor_close_opened_map [OF assms(1)]
  consider (fails) "\<not> (tape_ok (drop n (env_faults e)) \<and> tape_ok (drop (Suc n) (env_faults e)))"
    | (none) "tape_ok (drop n (env_faults e))" "tape_ok (drop (Suc n) (env_faults e))" "length ?kv \<le> ?r"
    | (some) "tape_ok (drop n (env_faults e))" "tape_ok (drop (Suc n) (env_faults e))" "?r < length ?kv"
    by linarith
  then show ?thesis
  proof cases
    case fails
    then show ?thesis
      by - (rule exI [of _ 0], auto simp: open_calls close)
  next
    case none
    then show ?thesis
      by - (rule exI [of _ 0], auto simp: open_calls close C_def)
  next
    case some
    have split: "drop ?r ?kv = ?kv ! ?r # drop (Suc ?r) ?kv" using some by (simp add: Cons_nth_drop_Suc)
    have "\<exists>m n'. run_state (foreach_loop (collect_body conv stop full) ?c (drop (Suc ?r) ?kv) (Some (?kv ! ?r)) [])
        (opened_map mx name (e \<lparr> ref_counter := ref_counter e + 1 \<rparr>) (Some d) (Suc (Suc n))) =
      (take m C, opened_map mx name (e \<lparr> env_live := env_live e + int m \<rparr>) (Some d) n') \<and>
       m \<le> length C \<and> (env_faults e = [] \<longrightarrow> m = length C)"
      unfolding C_def split
      using collect_loop [OF assms(1), where c = ?c and acc = "[]" and conv = conv and stop = stop
          and full = full and rest = "drop (Suc ?r) ?kv" and p = "?kv ! ?r" and d = d
          and n = "Suc (Suc n)" and mx = mx and name = name]
      by (simp del: collect.simps(2))
    with some show ?thesis by (simp add: open_calls cursor_rest_def)
  qed
qed

text \<open>The closing calls of a function that only reads.\<close>

definition end_read :: "(frame, unit) state" where
  "end_read = do { mdv_map_close MapA; mdv_transaction_abort; rollbacker_free }"

lemma end_read_opened_map:
  assumes "1 \<le> ref_counter e"
  shows "env_dbs (f_env (snd (run_state end_read (opened_map mx name e (Some d) n)))) = env_dbs e"
    and "balanced e (f_env (snd (run_state end_read (opened_map mx name e (Some d) n))))"
  using assms
  by (cases "tape_ok (env_faults e)"; simp add: lmdb_eval end_read_def opened_map_def balanced_def)+

end
