(* ===== verification/Mdv_2pset.thy ===== *)
theory Mdv_2pset
  imports Mdv_Lmdb_Map
begin

text \<open>
  The two-phase set of mdv_storage/mdv_2pset.c: live objects in the map
  OBJECTS, tombstones in the map REMOVED, the identifier generator in the map
  IDGEN, all in one storage.
\<close>

definition MDV_MAP_OBJECTS :: string where "MDV_MAP_OBJECTS = ''OBJECTS''"
definition MDV_MAP_REMOVED :: string where "MDV_MAP_REMOVED = ''REMOVED''"
definition MDV_MAP_IDGEN :: string where "MDV_MAP_IDGEN = ''IDGEN''"

lemma map_names [simp]:
  "MDV_MAP_OBJECTS \<noteq> MDV_MAP_REMOVED" "MDV_MAP_REMOVED \<noteq> MDV_MAP_OBJECTS"
  "MDV_MAP_OBJECTS \<noteq> MDV_MAP_IDGEN" "MDV_MAP_IDGEN \<noteq> MDV_MAP_OBJECTS"
  "MDV_MAP_REMOVED \<noteq> MDV_MAP_IDGEN" "MDV_MAP_IDGEN \<noteq> MDV_MAP_REMOVED"
  by (simp_all add: MDV_MAP_OBJECTS_def MDV_MAP_REMOVED_def MDV_MAP_IDGEN_def)

text \<open>The common opening of the set operations: transaction, objects map, tombstone map.\<close>

definition with_objects :: "bool \<Rightarrow> 'r \<Rightarrow> (frame, 'r) state \<Rightarrow> (frame, 'r) state" where
  "with_objects create_rem failed body = do {
     rollbacker_create 3;
     ok \<leftarrow> mdv_transaction_start;
     if \<not> ok then do { rollback; State_Monad.return failed }
     else do {
       rollbacker_push Rb_transaction_abort;
       ok \<leftarrow> mdv_map_open MapA MDV_MAP_OBJECTS True False;
       if \<not> ok then do { rollback; State_Monad.return failed }
       else do {
         rollbacker_push (Rb_map_close MapA);
         ok \<leftarrow> mdv_map_open MapB MDV_MAP_REMOVED create_rem False;
         if \<not> ok then do { rollback; State_Monad.return failed }
         else do {
           rollbacker_push (Rb_map_close MapB);
           body
         }
       }
     }
   }"

definition mdv_objects_is_deleted :: "bytes \<Rightarrow> (frame, bool) state" where
  "mdv_objects_is_deleted key = do {
     v \<leftarrow> mdv_map_get MapB key;
     State_Monad.return (v \<noteq> None)
   }"

definition close_objects :: "(frame, unit) state" where
  "close_objects = do { mdv_map_close MapA; mdv_map_close MapB; rollbacker_free }"

definition mdv_2pset_add :: "bytes \<Rightarrow> bytes \<Rightarrow> (mdv_lmdb, mdv_errno) state" where
  "mdv_2pset_add oid obj = in_frame (with_objects True MDV_FAILED (do {
     deleted \<leftarrow> mdv_objects_is_deleted oid;
     if \<not> deleted then do {
       mdv_map_put_unique MapA oid obj;
       ok \<leftarrow> mdv_transaction_commit;
       if \<not> ok then do { rollback; State_Monad.return MDV_FAILED }
       else do { close_objects; State_Monad.return MDV_OK }
     } else do {
       mdv_transaction_abort;
       close_objects;
       State_Monad.return MDV_OK
     }
   }))"

primrec add_batch_loop :: "(bytes \<times> bytes) list \<Rightarrow> bool \<Rightarrow> (frame, bool) state" where
  "add_batch_loop [] commit = State_Monad.return commit"
| "add_batch_loop (p # ps) commit = do {
     deleted \<leftarrow> mdv_objects_is_deleted (fst p);
     if \<not> deleted then do {
       ok \<leftarrow> mdv_map_put_unique MapA (fst p) (snd p);
       add_batch_loop ps (commit \<or> ok)
     } else do {
       mdv_transaction_abort;
       add_batch_loop ps commit
     }
   }"

definition mdv_2pset_add_batch :: "(bytes \<times> bytes) list \<Rightarrow> (mdv_lmdb, mdv_errno) state" where
  "mdv_2pset_add_batch objs = in_frame (with_objects True MDV_FAILED (do {
     commit \<leftarrow> add_batch_loop objs False;
     if commit then do {
       ok \<leftarrow> mdv_transaction_commit;
       if \<not> ok then do { rollback; State_Monad.return MDV_FAILED }
       else do { close_objects; State_Monad.return MDV_OK }
     } else do {
       mdv_transaction_abort;
       close_objects;
       State_Monad.return MDV_OK
     }
   }))"

definition mdv_2pset_delete :: "bytes \<Rightarrow> (mdv_lmdb, mdv_errno) state" where
  "mdv_2pset_delete oid = in_frame (with_objects True MDV_FAILED (do {
     v \<leftarrow> mdv_map_get MapA oid;
     if v = None then do { rollback; State_Monad.return MDV_NOT_FOUND }
     else do {
       ok \<leftarrow> mdv_map_put MapB oid [];
       if \<not> ok then do { rollback; State_Monad.return MDV_FAILED }
       else do {
         ok \<leftarrow> mdv_map_del MapA oid;
         if \<not> ok then do { rollback; State_Monad.return MDV_FAILED }
         else do {
           ok \<leftarrow> mdv_transaction_commit;
           if \<not> ok then do { rollback; State_Monad.return MDV_FAILED }
           else do { close_objects; State_Monad.return MDV_OK }
         }
       }
     }
   }))"

definition mdv_2pset_get :: "(bytes \<Rightarrow> 'o option) \<Rightarrow> bytes \<Rightarrow> (mdv_lmdb, 'o option) state" where
  "mdv_2pset_get restore oid = in_frame (with_objects False None (do {
     deleted \<leftarrow> mdv_objects_is_deleted oid;
     if deleted then do { rollback; State_Monad.return None }
     else do {
       v \<leftarrow> mdv_map_get MapA oid;
       case v of
         None \<Rightarrow> do { rollback; State_Monad.return None }
       | Some val \<Rightarrow> do {
           mdv_transaction_abort;
           close_objects;
           State_Monad.return (restore val)
         }
     }
   }))"



section \<open>The opening sequence\<close>

definition opens :: "bool \<Rightarrow> mdv_lmdb \<Rightarrow> bool" where
  "opens create_rem e \<longleftrightarrow> tape_ok (drop 1 (env_faults e)) \<and> tape_ok (drop 2 (env_faults e)) \<and>
     tape_ok (drop 3 (env_faults e)) \<and> (create_rem \<or> env_dbs e MDV_MAP_REMOVED \<noteq> None)"

definition opened_dbs :: "dbs \<Rightarrow> dbs" where
  "opened_dbs d = create_db MDV_MAP_REMOVED False (create_db MDV_MAP_OBJECTS False d)"

text \<open>The frame after the opening, with t as its transaction and n outcomes consumed.\<close>

definition opened :: "mdv_lmdb \<Rightarrow> dbs option \<Rightarrow> nat \<Rightarrow> frame" where
  "opened e t n = \<lparr>
     f_env = e \<lparr> ref_counter := (if t = None then 2 else 3) + ref_counter e,
       env_live := env_live e + (if tape_ok (env_faults e) then 1 else 0),
       env_faults := drop n (env_faults e) \<rparr>,
     f_txn = t,
     f_maps = (\<lambda>_. null_map)
       (MapA := \<lparr> map_pstorage = True, map_dbi = Some MDV_MAP_OBJECTS \<rparr>,
        MapB := \<lparr> map_pstorage = True, map_dbi = Some MDV_MAP_REMOVED \<rparr>),
     f_locked = False,
     f_rbr = (if tape_ok (env_faults e)
       then Some \<lparr> rb_capacity = 4, rb_ops = [Rb_rollbacker_free, Rb_transaction_abort,
              Rb_map_close MapA, Rb_map_close MapB] \<rparr>
       else None) \<rparr>"

lemma run_with_objects_ok:
  assumes "opens c e"
  shows "run_state (with_objects c failed body) (frame_init e) =
    run_state body (opened e (Some (opened_dbs (env_dbs e))) 4)"
proof (cases "tape_ok (env_faults e)")
  case True
  with assms show ?thesis
    by (cases e, cases "env_dbs e MDV_MAP_OBJECTS"; cases "env_dbs e MDV_MAP_REMOVED")
      (simp_all add: opens_def with_objects_def lmdb_eval opened_def opened_dbs_def create_db_def
        numeral_eq_Suc)
next
  case False
  with assms show ?thesis
    by (cases e, cases "env_dbs e MDV_MAP_OBJECTS"; cases "env_dbs e MDV_MAP_REMOVED")
      (simp_all add: opens_def with_objects_def lmdb_eval opened_def opened_dbs_def create_db_def
        numeral_eq_Suc)
qed

lemma run_with_objects_fail:
  assumes "\<not> opens c e" "1 \<le> ref_counter e"
  shows "\<exists>s. run_state (with_objects c failed body) (frame_init e) = (failed, s) \<and>
     env_dbs (f_env s) = env_dbs e \<and> balanced e (f_env s)"
proof (cases "tape_ok (env_faults e)")
  case True
  then show ?thesis
    using assms by (auto simp: opens_def with_objects_def lmdb_eval numeral_eq_Suc balanced_def)
next
  case False
  then show ?thesis
    using assms by (auto simp: opens_def with_objects_def lmdb_eval numeral_eq_Suc balanced_def)
qed

text \<open>The two ways to leave an operation.\<close>

lemma rollback_opened:
  assumes "1 \<le> ref_counter e"
  shows "env_dbs (f_env (snd (run_state rollback (opened e t n)))) = env_dbs e"
    and "balanced e (f_env (snd (run_state rollback (opened e t n))))"
  using assms
  by (cases t; cases "tape_ok (env_faults e)"; simp add: lmdb_eval opened_def balanced_def)+

lemma close_opened:
  assumes "1 \<le> ref_counter e"
  shows "env_dbs (f_env (snd (run_state close_objects (opened e None n)))) = env_dbs e"
    and "balanced e (f_env (snd (run_state close_objects (opened e None n))))"
  using assms
  by (cases "tape_ok (env_faults e)"; simp add: lmdb_eval close_objects_def opened_def balanced_def)+

lemma abort_opened:
  assumes "1 \<le> ref_counter e"
  shows "run_state mdv_transaction_abort (opened e (Some d) n) = (True, opened e None n)"
  using assms by (cases e) (simp add: lmdb_eval opened_def)

lemma commit_opened:
  assumes "1 \<le> ref_counter e"
  shows "run_state mdv_transaction_commit (opened e (Some d) n) =
    (let ok = tape_ok (drop n (env_faults e))
     in (ok, opened (if ok then e \<lparr> env_dbs := d \<rparr> else e) None (Suc n)))"
  using assms by (cases e) (auto simp: lmdb_eval opened_def Let_def)


section \<open>The calls on an opened frame\<close>

definition map_name :: "map_var \<Rightarrow> string" where
  "map_name x = (case x of MapA \<Rightarrow> MDV_MAP_OBJECTS | MapB \<Rightarrow> MDV_MAP_REMOVED)"

lemma get_opened:
  "run_state (mdv_map_get x k) (opened e (Some d) n) =
     ((if tape_ok (drop n (env_faults e)) then db_map d (map_name x) k else None), opened e (Some d) (Suc n))"
  by (cases e; cases x) (auto simp: lmdb_eval opened_def db_map_def map_name_def split: option.splits)

lemma get_opened_null: "run_state (mdv_map_get x k) (opened e None n) = (None, opened e None n)"
  by (simp add: lmdb_eval opened_def)

lemma put_opened:
  assumes "has_db d (map_name x)"
  shows "run_state (mdv_map_put_impl x k v u) (opened e (Some d) n) =
    (let ok = tape_ok (drop n (env_faults e)) \<and> (u \<longrightarrow> db_map d (map_name x) k = None)
     in (ok, opened e (Some (if ok then db_put (map_name x) k v d else d)) (Suc n)))"
  using assms
  by (cases e; cases x)
    (auto simp: lmdb_eval opened_def db_map_def db_put_def has_db_def map_name_def Let_def)

lemma put_opened_null:
  "run_state (mdv_map_put_impl x k v u) (opened e None n) = (False, opened e None n)"
  by (simp add: lmdb_eval opened_def)

lemma del_opened:
  assumes "has_db d (map_name x)"
  shows "run_state (mdv_map_del x k) (opened e (Some d) n) =
    (let ok = tape_ok (drop n (env_faults e)) \<and> db_map d (map_name x) k \<noteq> None
     in (ok, opened e (Some (if ok then db_del (map_name x) k d else d)) (Suc n)))"
  using assms
  by (cases e; cases x)
    (auto simp: lmdb_eval opened_def db_map_def db_del_def has_db_def map_name_def Let_def)

lemma opened_dbs_maps [simp]:
  "db_map (opened_dbs d) name = db_map d name"
  "has_db (opened_dbs d) MDV_MAP_OBJECTS" "has_db (opened_dbs d) MDV_MAP_REMOVED"
  by (simp_all add: opened_dbs_def)

lemmas opened_calls = get_opened get_opened_null put_opened put_opened_null del_opened
  abort_opened commit_opened mdv_objects_is_deleted_def mdv_map_put_def mdv_map_put_unique_def
  map_name_def Let_def


section \<open>The two-phase set\<close>

type_synonym tp_set = "(bytes \<Rightarrow> bytes option) \<times> bytes set"

definition tp_abs :: "dbs \<Rightarrow> tp_set" where
  "tp_abs d = (db_map d MDV_MAP_OBJECTS, dom (db_map d MDV_MAP_REMOVED))"

fun tp_add :: "bytes \<Rightarrow> bytes \<Rightarrow> tp_set \<Rightarrow> tp_set" where
  "tp_add oid obj (live, removed) =
     (if oid \<in> removed \<or> live oid \<noteq> None then (live, removed) else (live(oid \<mapsto> obj), removed))"

fun tp_delete :: "bytes \<Rightarrow> tp_set \<Rightarrow> tp_set" where
  "tp_delete oid (live, removed) =
     (if live oid = None then (live, removed) else (live(oid := None), insert oid removed))"

fun tp_get :: "bytes \<Rightarrow> tp_set \<Rightarrow> bytes option" where
  "tp_get oid (live, removed) = (if oid \<in> removed then None else live oid)"

fun tp_wf :: "tp_set \<Rightarrow> bool" where
  "tp_wf (live, removed) \<longleftrightarrow> dom live \<inter> removed = {}"

text \<open>
  The result and the committed databases of an addition as a function of the
  outcomes of its external calls: the tombstone lookup is call 4, the insertion
  call 5, the commit call 6.
\<close>

definition add_outcome :: "bytes \<Rightarrow> bytes \<Rightarrow> mdv_lmdb \<Rightarrow> mdv_errno \<times> dbs" where
  "add_outcome oid obj e = (let fs = env_faults e; d = env_dbs e in
     if \<not> opens True e then (MDV_FAILED, d)
     else if tape_ok (drop 4 fs) \<and> db_map d MDV_MAP_REMOVED oid \<noteq> None then (MDV_OK, d)
     else if \<not> tape_ok (drop 6 fs) then (MDV_FAILED, d)
     else (MDV_OK, if tape_ok (drop 5 fs) \<and> db_map d MDV_MAP_OBJECTS oid = None
                   then db_put MDV_MAP_OBJECTS oid obj (opened_dbs d) else opened_dbs d))"

lemma close_committed:
  assumes "1 \<le> ref_counter e"
  shows "balanced e (f_env (snd (run_state close_objects (opened (e \<lparr> env_dbs := d \<rparr>) None n))))"
  using close_opened(2) [of "e \<lparr> env_dbs := d \<rparr>"] assms by simp

lemmas leave_opened = close_opened close_committed rollback_opened

lemma not_opened:
  assumes "\<not> opens c e" "1 \<le> ref_counter e"
  shows "\<exists>e'. run_state (in_frame (with_objects c failed body)) e = (failed, e') \<and>
     env_dbs e' = env_dbs e \<and> balanced e e'"
  using run_with_objects_fail [OF assms, of failed body] by (auto simp: in_frame_def)

lemma add_run:
  assumes "1 \<le> ref_counter e"
  shows "\<exists>e'. run_state (mdv_2pset_add oid obj) e = (fst (add_outcome oid obj e), e') \<and>
    env_dbs e' = snd (add_outcome oid obj e) \<and> balanced e e'"
proof (cases "opens True e")
  case False
  show ?thesis
    using not_opened [OF False assms] False by (simp add: mdv_2pset_add_def add_outcome_def)
next
  case True
  show ?thesis
    unfolding mdv_2pset_add_def in_frame_def
    by (auto simp: run_with_objects_ok [OF True] opened_calls assms add_outcome_def True
        leave_opened split_beta)
qed


text \<open>Deletion: lookup 4, tombstone 5, removal 6, commit 7.\<close>

definition delete_outcome :: "bytes \<Rightarrow> mdv_lmdb \<Rightarrow> mdv_errno \<times> dbs" where
  "delete_outcome oid e = (let fs = env_faults e; d = env_dbs e in
     if \<not> opens True e then (MDV_FAILED, d)
     else if \<not> tape_ok (drop 4 fs) \<or> db_map d MDV_MAP_OBJECTS oid = None then (MDV_NOT_FOUND, d)
     else if \<not> (tape_ok (drop 5 fs) \<and> tape_ok (drop 6 fs) \<and> tape_ok (drop 7 fs)) then (MDV_FAILED, d)
     else (MDV_OK, db_del MDV_MAP_OBJECTS oid (db_put MDV_MAP_REMOVED oid [] (opened_dbs d))))"

lemma delete_run:
  assumes "1 \<le> ref_counter e"
  shows "\<exists>e'. run_state (mdv_2pset_delete oid) e = (fst (delete_outcome oid e), e') \<and>
    env_dbs e' = snd (delete_outcome oid e) \<and> balanced e e'"
proof (cases "opens True e")
  case False
  show ?thesis
    using not_opened [OF False assms] False by (simp add: mdv_2pset_delete_def delete_outcome_def)
next
  case True
  show ?thesis
    unfolding mdv_2pset_delete_def in_frame_def
    by (auto simp: run_with_objects_ok [OF True] opened_calls assms delete_outcome_def True
        leave_opened split_beta)
qed

text \<open>Lookup: the tombstone lookup is call 4, the object lookup call 5.\<close>

definition get_outcome :: "(bytes \<Rightarrow> 'o option) \<Rightarrow> bytes \<Rightarrow> mdv_lmdb \<Rightarrow> 'o option" where
  "get_outcome restore oid e = (let fs = env_faults e; d = env_dbs e in
     if \<not> opens False e \<or> (tape_ok (drop 4 fs) \<and> db_map d MDV_MAP_REMOVED oid \<noteq> None) \<or>
        \<not> tape_ok (drop 5 fs) then None
     else Option.bind (db_map d MDV_MAP_OBJECTS oid) restore)"

lemma get_run:
  assumes "1 \<le> ref_counter e"
  shows "\<exists>e'. run_state (mdv_2pset_get restore oid) e = (get_outcome restore oid e, e') \<and>
    env_dbs e' = env_dbs e \<and> balanced e e'"
proof (cases "opens False e")
  case False
  show ?thesis
    using not_opened [OF False assms] False by (simp add: mdv_2pset_get_def get_outcome_def)
next
  case True
  show ?thesis
    unfolding mdv_2pset_get_def in_frame_def
    by (cases "db_map (env_dbs e) MDV_MAP_OBJECTS oid")
      (auto simp: run_with_objects_ok [OF True] opened_calls assms get_outcome_def True
        leave_opened split_beta)
qed


subsection \<open>Batches\<close>

lemma batch_loop_null: "run_state (add_batch_loop ps c) (opened e None n) = (c, opened e None n)"
  by (induction ps) (simp_all add: opened_calls)

lemma batch_loop_frame:
  assumes "1 \<le> ref_counter e" "has_db d MDV_MAP_OBJECTS"
  shows "\<exists>c' t n'. run_state (add_batch_loop ps c) (opened e (Some d) n) = (c', opened e t n')"
  using assms(2)
proof (induction ps arbitrary: c d n)
  case (Cons p ps)
  show ?case
    using Cons assms(1) by (auto simp: opened_calls batch_loop_null split: if_splits)
qed auto

definition put_new :: "bytes \<times> bytes \<Rightarrow> dbs \<Rightarrow> dbs" where
  "put_new p d = (if db_map d MDV_MAP_OBJECTS (fst p) = None
     then db_put MDV_MAP_OBJECTS (fst p) (snd p) d else d)"

lemma put_new_maps [simp]:
  "has_db d MDV_MAP_OBJECTS \<Longrightarrow> has_db (put_new p d) MDV_MAP_OBJECTS"
  "has_db d MDV_MAP_OBJECTS \<Longrightarrow> db_map (put_new p d) MDV_MAP_REMOVED = db_map d MDV_MAP_REMOVED"
  by (simp_all add: put_new_def)

lemma put_new_add:
  "has_db d MDV_MAP_OBJECTS \<Longrightarrow> db_map d MDV_MAP_REMOVED (fst p) = None \<Longrightarrow>
   tp_abs (put_new p d) = tp_add (fst p) (snd p) (tp_abs d)"
  by (auto simp: put_new_def tp_abs_def)

lemma fold_put_new_add:
  assumes "has_db d MDV_MAP_OBJECTS" "\<forall>p \<in> set ps. db_map d MDV_MAP_REMOVED (fst p) = None"
  shows "tp_abs (fold put_new ps d) = fold (\<lambda>p. tp_add (fst p) (snd p)) ps (tp_abs d)"
  using assms by (induction ps arbitrary: d) (simp_all add: put_new_add)

text \<open>Without tombstoned identifiers the loop inserts every new object and remembers whether
  there was one.\<close>

lemma batch_loop_clean:
  assumes "env_faults e = []" "has_db d MDV_MAP_OBJECTS"
    "\<forall>p \<in> set ps. db_map d MDV_MAP_REMOVED (fst p) = None"
  shows "\<exists>n'. run_state (add_batch_loop ps c) (opened e (Some d) n) =
     (c \<or> (\<exists>p \<in> set ps. db_map d MDV_MAP_OBJECTS (fst p) = None), opened e (Some (fold put_new ps d)) n')"
  using assms(2,3)
proof (induction ps arbitrary: c d n)
  case (Cons p ps)
  from Cons.prems have step: "run_state (add_batch_loop (p # ps) c) (opened e (Some d) n) =
      run_state (add_batch_loop ps (c \<or> db_map d MDV_MAP_OBJECTS (fst p) = None))
        (opened e (Some (put_new p d)) (Suc (Suc n)))"
    by (simp add: opened_calls assms(1) put_new_def)
  from Cons.IH [of "put_new p d" "c \<or> db_map d MDV_MAP_OBJECTS (fst p) = None" "Suc (Suc n)"] Cons.prems
  show ?case
    unfolding step by (auto simp: put_new_def split: if_splits)
qed auto

text \<open>A tombstoned identifier aborts the transaction; nothing after it reaches the storage.\<close>

lemma batch_loop_tombstone:
  assumes "env_faults e = []" "1 \<le> ref_counter e" "has_db d MDV_MAP_OBJECTS"
    "\<forall>p \<in> set ps. db_map d MDV_MAP_REMOVED (fst p) = None" "db_map d MDV_MAP_REMOVED (fst q) \<noteq> None"
  shows "\<exists>n'. run_state (add_batch_loop (ps @ q # rest) c) (opened e (Some d) n) =
     (c \<or> (\<exists>p \<in> set ps. db_map d MDV_MAP_OBJECTS (fst p) = None), opened e None n')"
  using assms(3-)
proof (induction ps arbitrary: c d n)
  case Nil
  then show ?case using assms(1,2) by (auto simp: opened_calls batch_loop_null)
next
  case (Cons p ps)
  from Cons.prems have step: "run_state (add_batch_loop ((p # ps) @ q # rest) c) (opened e (Some d) n) =
      run_state (add_batch_loop (ps @ q # rest) (c \<or> db_map d MDV_MAP_OBJECTS (fst p) = None))
        (opened e (Some (put_new p d)) (Suc (Suc n)))"
    by (simp add: opened_calls assms(1) put_new_def)
  from Cons.IH [of "put_new p d" "c \<or> db_map d MDV_MAP_OBJECTS (fst p) = None" "Suc (Suc n)"] Cons.prems
  show ?case
    unfolding step by (auto simp: put_new_def split: if_splits)
qed


lemma add_batch_balanced:
  assumes "1 \<le> ref_counter e"
  shows "balanced e (snd (run_state (mdv_2pset_add_batch ps) e))"
    and "fst (run_state (mdv_2pset_add_batch ps) e) \<noteq> MDV_OK \<Longrightarrow>
      env_dbs (snd (run_state (mdv_2pset_add_batch ps) e)) = env_dbs e"
proof -
  have "balanced e (snd (run_state (mdv_2pset_add_batch ps) e)) \<and>
    (fst (run_state (mdv_2pset_add_batch ps) e) \<noteq> MDV_OK \<longrightarrow>
      env_dbs (snd (run_state (mdv_2pset_add_batch ps) e)) = env_dbs e)"
  proof (cases "opens True e")
    case False
    then show ?thesis
      using not_opened [OF False assms] unfolding mdv_2pset_add_batch_def by (metis fst_conv snd_conv)
  next
    case True
    have "has_db (opened_dbs (env_dbs e)) MDV_MAP_OBJECTS" by simp
    from batch_loop_frame [OF assms this, of ps False 4]
    obtain c t n where loop: "run_state (add_batch_loop ps False)
        (opened e (Some (opened_dbs (env_dbs e))) 4) = (c, opened e t n)" by blast
    have null: "run_state mdv_transaction_commit (opened e None n) = (False, opened e None n)"
      "run_state mdv_transaction_abort (opened e None n) = (False, opened e None n)"
      by (simp_all add: lmdb_eval opened_def)
    show ?thesis
      unfolding mdv_2pset_add_batch_def in_frame_def
      by (cases t) (auto simp: run_with_objects_ok [OF True] loop opened_calls null assms
          leave_opened split_beta)
  qed
  then show "balanced e (snd (run_state (mdv_2pset_add_batch ps) e))"
    and "fst (run_state (mdv_2pset_add_batch ps) e) \<noteq> MDV_OK \<Longrightarrow>
      env_dbs (snd (run_state (mdv_2pset_add_batch ps) e)) = env_dbs e"
    by simp_all
qed

lemma opens_no_faults [simp]: "env_faults e = [] \<Longrightarrow> opens True e"
  by (simp add: opens_def)

lemma add_batch_clean:
  assumes "1 \<le> ref_counter e" "env_faults e = []"
    and "\<forall>p \<in> set ps. db_map (env_dbs e) MDV_MAP_REMOVED (fst p) = None"
  shows "\<exists>e'. run_state (mdv_2pset_add_batch ps) e = (MDV_OK, e') \<and>
    tp_abs (env_dbs e') = fold (\<lambda>p. tp_add (fst p) (snd p)) ps (tp_abs (env_dbs e))"
proof -
  let ?d = "opened_dbs (env_dbs e)"
  have tp: "tp_abs (fold put_new ps ?d) = fold (\<lambda>p. tp_add (fst p) (snd p)) ps (tp_abs (env_dbs e))"
    using fold_put_new_add [of ?d ps] assms(3) by (simp add: tp_abs_def)
  have same: "fold put_new ps ?d = ?d" if "\<forall>p \<in> set ps. db_map (env_dbs e) MDV_MAP_OBJECTS (fst p) \<noteq> None"
    using that by (induction ps) (auto simp: put_new_def)
  obtain n where loop: "run_state (add_batch_loop ps False) (opened e (Some ?d) 4) =
     ((\<exists>p \<in> set ps. db_map (env_dbs e) MDV_MAP_OBJECTS (fst p) = None), opened e (Some (fold put_new ps ?d)) n)"
    using batch_loop_clean [OF assms(2), of ?d ps False 4] assms(3) by auto
  show ?thesis
    using tp same assms(1,2) unfolding mdv_2pset_add_batch_def in_frame_def
    by (auto simp: run_with_objects_ok loop opened_calls leave_opened split_beta tp_abs_def)
qed

lemma add_batch_tombstone:
  assumes "1 \<le> ref_counter e" "env_faults e = []"
    and "\<forall>p \<in> set ps. db_map (env_dbs e) MDV_MAP_REMOVED (fst p) = None"
    and "db_map (env_dbs e) MDV_MAP_REMOVED (fst q) \<noteq> None"
  shows "\<exists>e'. run_state (mdv_2pset_add_batch (ps @ q # rest)) e =
     (if \<exists>p \<in> set ps. db_map (env_dbs e) MDV_MAP_OBJECTS (fst p) = None then MDV_FAILED else MDV_OK, e') \<and>
    env_dbs e' = env_dbs e"
proof -
  let ?d = "opened_dbs (env_dbs e)"
  obtain n where loop: "run_state (add_batch_loop (ps @ q # rest) False) (opened e (Some ?d) 4) =
     ((\<exists>p \<in> set ps. db_map (env_dbs e) MDV_MAP_OBJECTS (fst p) = None), opened e None n)"
    using batch_loop_tombstone [OF assms(2,1), of ?d ps q rest False 4] assms(3,4) by auto
  have null: "run_state mdv_transaction_commit (opened e None n) = (False, opened e None n)"
    "run_state mdv_transaction_abort (opened e None n) = (False, opened e None n)"
    by (simp_all add: lmdb_eval opened_def)
  show ?thesis
    using assms(1,2) unfolding mdv_2pset_add_batch_def in_frame_def
    by (auto simp: run_with_objects_ok loop null leave_opened split_beta)
qed

end
