(* ===== verification/Mdv_2pset_Spec.thy ===== *)
theory Mdv_2pset_Spec
  imports Mdv_2pset
begin

text \<open>
  What the two-phase set promises: each operation refines the abstract set, an
  operation that reports an error leaves the committed data alone whatever call
  failed, references and memory are returned on every path, a tombstoned
  identifier never becomes visible again, and replicas that execute the same
  operations in any order that adds before it deletes hold the same set.
\<close>

datatype tp_op = Add bytes bytes | Delete bytes

primrec tp_step :: "tp_op \<Rightarrow> tp_set \<Rightarrow> tp_set" where
  "tp_step (Add oid obj) = tp_add oid obj"
| "tp_step (Delete oid) = tp_delete oid"

primrec exec_2pset :: "tp_op \<Rightarrow> mdv_lmdb \<Rightarrow> mdv_errno \<times> mdv_lmdb" where
  "exec_2pset (Add oid obj) e = run_state (mdv_2pset_add oid obj) e"
| "exec_2pset (Delete oid) e = run_state (mdv_2pset_delete oid) e"

definition run_2pset :: "tp_op list \<Rightarrow> mdv_lmdb \<Rightarrow> mdv_lmdb" where
  "run_2pset ops e = fold (\<lambda>op e. snd (exec_2pset op e)) ops e"

text \<open>A storage in use on which no external call fails.\<close>

definition healthy :: "mdv_lmdb \<Rightarrow> bool" where
  "healthy e \<longleftrightarrow> 1 \<le> ref_counter e \<and> env_faults e = []"

lemma add_tp:
  assumes "healthy e"
  shows "tp_abs (snd (add_outcome oid obj e)) = tp_add oid obj (tp_abs (env_dbs e)) \<and>
    fst (add_outcome oid obj e) = MDV_OK"
  using assms by (auto simp: healthy_def add_outcome_def tp_abs_def Let_def domIff)

lemma delete_tp:
  assumes "healthy e"
  shows "tp_abs (snd (delete_outcome oid e)) = tp_delete oid (tp_abs (env_dbs e)) \<and>
    fst (delete_outcome oid e) =
      (if db_map (env_dbs e) MDV_MAP_OBJECTS oid = None then MDV_NOT_FOUND else MDV_OK)"
  using assms by (auto simp: healthy_def delete_outcome_def tp_abs_def Let_def)

lemma exec_outcome:
  assumes "1 \<le> ref_counter e"
  shows "balanced e (snd (exec_2pset op e)) \<and>
    (fst (exec_2pset op e), env_dbs (snd (exec_2pset op e))) =
      (case op of Add oid obj \<Rightarrow> add_outcome oid obj e | Delete oid \<Rightarrow> delete_outcome oid e)"
  using add_run [OF assms] delete_run [OF assms] by (cases op) (metis exec_2pset.simps fst_conv
      snd_conv tp_op.simps(5,6) prod.collapse)+

lemma exec_tp:
  assumes "healthy e"
  shows "healthy (snd (exec_2pset op e)) \<and>
    tp_abs (env_dbs (snd (exec_2pset op e))) = tp_step op (tp_abs (env_dbs e))"
proof -
  have rc: "1 \<le> ref_counter e" using assms by (simp add: healthy_def)
  note out = exec_outcome [OF rc, of op]
  have "healthy (snd (exec_2pset op e))"
    using out assms by (auto simp: healthy_def balanced_def)
  moreover have "tp_abs (env_dbs (snd (exec_2pset op e))) = tp_step op (tp_abs (env_dbs e))"
    using out add_tp [OF assms] delete_tp [OF assms] by (cases op) (auto simp: prod_eq_iff)
  ultimately show ?thesis ..
qed

lemma run_tp:
  assumes "healthy e"
  shows "healthy (run_2pset ops e) \<and>
    tp_abs (env_dbs (run_2pset ops e)) = fold tp_step ops (tp_abs (env_dbs e))"
  using assms
proof (induction ops arbitrary: e)
  case (Cons op ops)
  then show ?case using exec_tp [OF Cons.prems, of op] by (simp add: run_2pset_def)
qed (simp add: run_2pset_def)


section \<open>Properties\<close>

text \<open>
  C1. Refinement: on a storage where no call fails, any sequence of additions and
  deletions changes the stored set exactly as the abstract two-phase set does,
  where an addition of a tombstoned or already present identifier and a deletion
  of an absent one change nothing.
\<close>

theorem two_phase_set_refines:
  assumes "healthy e"
  shows "tp_abs (env_dbs (run_2pset ops e)) = fold tp_step ops (tp_abs (env_dbs e))"
  using run_tp [OF assms] by simp

definition empty_storage :: mdv_lmdb where
  "empty_storage = \<lparr> env_dbs = (\<lambda>_. None), ref_counter = 1, env_open = True, env_live = 1, env_faults = [] \<rparr>"

lemma tp_abs_empty [simp]: "tp_abs (\<lambda>_. None) = (Map.empty, {})"
  by (simp add: tp_abs_def db_map_def)

lemma two_phase_set_refines_witness:
  "tp_abs (env_dbs (run_2pset [Add [1] [7], Add [2] [8], Delete [1], Add [1] [9]] empty_storage)) =
     ([[2] \<mapsto> [8]], {[1]})"
proof -
  have "healthy empty_storage" by (simp add: healthy_def empty_storage_def)
  from two_phase_set_refines [OF this, of "[Add [1] [7], Add [2] [8], Delete [1], Add [1] [9]]"]
  show ?thesis by (auto simp: empty_storage_def)
qed

text \<open>
  C3. Failure atomicity: whatever subset of the allocations, transactions, map
  openings, reads, writes and the commit fails, an addition, deletion or batch
  addition that does not report success leaves the committed databases
  unchanged.
\<close>

theorem two_phase_set_atomic:
  assumes "1 \<le> ref_counter e"
  shows "(fst (run_state (mdv_2pset_add oid obj) e) \<noteq> MDV_OK \<longrightarrow>
            env_dbs (snd (run_state (mdv_2pset_add oid obj) e)) = env_dbs e) \<and>
         (fst (run_state (mdv_2pset_delete oid) e) \<noteq> MDV_OK \<longrightarrow>
            env_dbs (snd (run_state (mdv_2pset_delete oid) e)) = env_dbs e) \<and>
         (fst (run_state (mdv_2pset_add_batch ps) e) \<noteq> MDV_OK \<longrightarrow>
            env_dbs (snd (run_state (mdv_2pset_add_batch ps) e)) = env_dbs e)"
  using add_run [OF assms, of oid obj] delete_run [OF assms, of oid]
    add_batch_balanced(2) [OF assms, of ps]
  by (auto simp: add_outcome_def delete_outcome_def Let_def)

lemma two_phase_set_atomic_witness:
  "env_dbs (snd (run_state (mdv_2pset_delete [1])
     (empty_storage \<lparr> env_faults := [True, True, False] \<rparr>))) = env_dbs empty_storage"
proof -
  let ?e = "empty_storage \<lparr> env_faults := [True, True, False] \<rparr>"
  have rc: "1 \<le> ref_counter ?e" by (simp add: empty_storage_def)
  have "fst (run_state (mdv_2pset_delete [1]) ?e) \<noteq> MDV_OK"
    by (simp add: mdv_2pset_delete_def with_objects_def lmdb_eval empty_storage_def tape_ok_def)
  with two_phase_set_atomic [OF rc, of "[1]" "[]" "[]"] show ?thesis by simp
qed


text \<open>
  C4. No leaks: if the rollbacker could be allocated, then on every path of an
  addition, deletion, lookup or batch addition, error paths included, the
  reference counter of the storage and the number of live heap blocks end where
  they started and the environment stays open.
\<close>

theorem two_phase_set_no_leak:
  assumes "1 \<le> ref_counter e" "tape_ok (env_faults e)"
    and "e' \<in> {snd (run_state (mdv_2pset_add oid obj) e), snd (run_state (mdv_2pset_delete oid) e),
               snd (run_state (mdv_2pset_get restore oid) e), snd (run_state (mdv_2pset_add_batch ps) e)}"
  shows "ref_counter e' = ref_counter e \<and> env_live e' = env_live e \<and> env_open e' = env_open e"
proof -
  have "balanced e e'"
    using assms(3) add_run [OF assms(1), of oid obj] delete_run [OF assms(1), of oid]
      get_run [OF assms(1), of restore oid] add_batch_balanced(1) [OF assms(1), of ps]
    by auto
  with assms(2) show ?thesis by (simp add: balanced_def)
qed

lemma two_phase_set_no_leak_witness:
  "ref_counter (snd (run_state (mdv_2pset_delete [1]) (empty_storage \<lparr> env_faults := [True, True, True, False] \<rparr>))) = 1"
proof -
  let ?e = "empty_storage \<lparr> env_faults := [True, True, True, False] \<rparr>"
  have "1 \<le> ref_counter ?e" "tape_ok (env_faults ?e)" by (simp_all add: empty_storage_def tape_ok_def)
  from two_phase_set_no_leak [OF this, of "snd (run_state (mdv_2pset_delete [1]) ?e)" "[1]" "[]" Some "[]"]
  show ?thesis by (simp add: empty_storage_def)
qed

text \<open>
  C19. Deletion is final: as long as the tombstone lookup itself does not fail, no
  addition or deletion, whatever else fails, makes a tombstoned identifier live
  again, and tombstones are never dropped.
\<close>

theorem tombstones_final:
  assumes "1 \<le> ref_counter e" "tape_ok (drop 4 (env_faults e))" "tp_wf (tp_abs (env_dbs e))"
  shows "tp_wf (tp_abs (env_dbs (snd (exec_2pset op e)))) \<and>
    snd (tp_abs (env_dbs e)) \<subseteq> snd (tp_abs (env_dbs (snd (exec_2pset op e))))"
  using exec_outcome [OF assms(1), of op] assms(2,3)
  by (cases op)
    (auto simp: add_outcome_def delete_outcome_def tp_abs_def Let_def domIff disjoint_iff
      split: if_splits)

lemma tombstones_final_witness:
  "[1] \<in> snd (tp_abs (env_dbs (snd (exec_2pset (Add [1] [9])
     (run_2pset [Add [1] [7], Delete [1]] empty_storage)))))"
proof -
  let ?e = "run_2pset [Add [1] [7], Delete [1]] empty_storage"
  have h: "healthy empty_storage" by (simp add: healthy_def empty_storage_def)
  have tp: "tp_abs (env_dbs ?e) = (Map.empty, {[1]})" and "healthy ?e"
    using run_tp [OF h, of "[Add [1] [7], Delete [1]]"] by (auto simp: empty_storage_def)
  then have "1 \<le> ref_counter ?e" "tape_ok (drop 4 (env_faults ?e))" "tp_wf (tp_abs (env_dbs ?e))"
    by (simp_all add: healthy_def)
  from tombstones_final [OF this, of "Add [1] [9]"] tp show ?thesis by auto
qed


section \<open>Convergence of replicas\<close>

text \<open>A replicated data type whose state depends only on the set of operations executed.\<close>

locale op_replica =
  fixes step :: "'op \<Rightarrow> 's \<Rightarrow> 's"
    and start :: 's
    and ordered :: "'op list \<Rightarrow> bool"
    and denote :: "'op set \<Rightarrow> 's"
  assumes denotes: "ordered xs \<Longrightarrow> fold step xs start = denote (set xs)"
begin

lemma converges:
  "ordered xs \<Longrightarrow> ordered ys \<Longrightarrow> set xs = set ys \<Longrightarrow> fold step xs start = fold step ys start"
  by (simp add: denotes)

lemma absorbs: "ordered xs \<Longrightarrow> ordered (xs @ ys) \<Longrightarrow> set ys \<subseteq> set xs \<Longrightarrow>
    fold step (xs @ ys) start = fold step xs start"
  by (simp only: denotes set_append Un_absorb2)

end

text \<open>Every object has the contents f, and a deletion follows an addition of its identifier.\<close>

fun tp_causal :: "(bytes \<Rightarrow> bytes) \<Rightarrow> bytes set \<Rightarrow> tp_op list \<Rightarrow> bool" where
  "tp_causal f known [] \<longleftrightarrow> True"
| "tp_causal f known (Add oid obj # ops) \<longleftrightarrow> obj = f oid \<and> tp_causal f (insert oid known) ops"
| "tp_causal f known (Delete oid # ops) \<longleftrightarrow> oid \<in> known \<and> tp_causal f known ops"

definition tp_denote :: "(bytes \<Rightarrow> bytes) \<Rightarrow> tp_op set \<Rightarrow> tp_set" where
  "tp_denote f S = (\<lambda>oid. if Add oid (f oid) \<in> S \<and> Delete oid \<notin> S then Some (f oid) else None,
     {oid. Delete oid \<in> S})"

lemma fold_tp_causal:
  assumes "tp_causal f known ops" "removed \<subseteq> known"
  shows "fold tp_step ops (\<lambda>oid. if oid \<in> known - removed then Some (f oid) else None, removed) =
    (\<lambda>oid. if (oid \<in> known \<or> Add oid (f oid) \<in> set ops) \<and> oid \<notin> removed \<and> Delete oid \<notin> set ops
           then Some (f oid) else None, removed \<union> {oid. Delete oid \<in> set ops})"
  using assms
proof (induction f known ops arbitrary: removed rule: tp_causal.induct)
  case (2 f known oid obj ops)
  have "tp_add oid (f oid) (\<lambda>i. if i \<in> known - removed then Some (f i) else None, removed) =
      (\<lambda>i. if i \<in> insert oid known - removed then Some (f i) else None, removed)"
    using 2(3) by auto
  moreover have "removed \<subseteq> insert oid known" using 2(3) by auto
  ultimately show ?case
    using 2(2) 2(1) [of removed] by (auto simp: fun_eq_iff simp del: tp_add.simps Diff_iff)
next
  case (3 f known oid ops)
  have "tp_delete oid (\<lambda>i. if i \<in> known - removed then Some (f i) else None, removed) =
      (\<lambda>i. if i \<in> known - insert oid removed then Some (f i) else None, insert oid removed)"
    using 3(2) by (auto simp: insert_absorb fun_eq_iff)
  moreover have "insert oid removed \<subseteq> known" using 3(2,3) by auto
  ultimately show ?case
    using 3(2) 3(1) [of "insert oid removed"]
    by (auto simp: fun_eq_iff simp del: tp_delete.simps Diff_iff)
qed auto

interpretation tp: op_replica tp_step "(Map.empty, {})" "tp_causal f {}" "tp_denote f" for f
proof
  show "fold tp_step xs (Map.empty, {}) = tp_denote f (set xs)" if "tp_causal f {} xs" for xs
    using fold_tp_causal [OF that, of "{}"] by (simp add: tp_denote_def fun_eq_iff)
qed

text \<open>
  The same in terms of the operations alone: a deletion follows an addition of its
  identifier, and no two additions of an identifier differ in contents.
\<close>

fun adds_first :: "bytes set \<Rightarrow> tp_op list \<Rightarrow> bool" where
  "adds_first known [] \<longleftrightarrow> True"
| "adds_first known (Add oid obj # ops) \<longleftrightarrow> adds_first (insert oid known) ops"
| "adds_first known (Delete oid # ops) \<longleftrightarrow> oid \<in> known \<and> adds_first known ops"

definition same_contents :: "tp_op set \<Rightarrow> bool" where
  "same_contents S \<longleftrightarrow> (\<forall>oid x y. Add oid x \<in> S \<and> Add oid y \<in> S \<longrightarrow> x = y)"

lemma causal_contents:
  assumes "same_contents S"
  obtains f where "\<And>ops. set ops \<subseteq> S \<Longrightarrow> adds_first {} ops \<Longrightarrow> tp_causal f {} ops"
proof -
  let ?f = "\<lambda>oid. SOME x. Add oid x \<in> S"
  have f: "x = ?f oid" if "Add oid x \<in> S" for oid x
    using assms that someI [of "\<lambda>x. Add oid x \<in> S" x] unfolding same_contents_def by blast
  have "tp_causal ?f known ops" if "set ops \<subseteq> S" "adds_first known ops" for known ops
    using that by (induction known ops rule: adds_first.induct) (auto dest: f)
  then show thesis using that by blast
qed

text \<open>
  C13. Convergence: two replicas that start empty, on storages where no call
  fails, and execute the same operations, each in an order in which deletions
  follow an addition of the same identifier, hold the same objects and the same
  tombstones, in whatever order and however often the operations arrive,
  provided that all additions of an identifier carry the same contents, as those
  of a row do. The proviso is needed: of two additions with different contents the
  first wins, so replicas that see them in different orders differ.
\<close>

theorem replicas_converge:
  assumes "healthy a" "healthy b" "tp_abs (env_dbs a) = (Map.empty, {})" "tp_abs (env_dbs b) = (Map.empty, {})"
    and "adds_first {} xs" "adds_first {} ys" "set xs = set ys" "same_contents (set xs)"
  shows "tp_abs (env_dbs (run_2pset xs a)) = tp_abs (env_dbs (run_2pset ys b)) \<and>
    (x \<noteq> y \<longrightarrow> tp_abs (env_dbs (run_2pset [Add oid x, Add oid y] a)) \<noteq> tp_abs (env_dbs (run_2pset [Add oid y, Add oid x] b)))"
proof -
  obtain f where "tp_causal f {} xs" "tp_causal f {} ys"
    using causal_contents [OF assms(8)] assms(5-7) by (metis order_refl)
  from tp.converges [OF this assms(7)] show ?thesis
    using run_tp [OF assms(1)] run_tp [OF assms(2)] assms(3,4) by (simp add: fun_eq_iff)
qed

lemma replicas_converge_witness:
  "tp_abs (env_dbs (run_2pset [Add [1] [7], Delete [1], Add [2] [8]] empty_storage)) =
   tp_abs (env_dbs (run_2pset [Add [2] [8], Add [1] [7], Add [2] [8], Delete [1], Delete [1]] empty_storage))"
proof -
  have h: "healthy empty_storage" "tp_abs (env_dbs empty_storage) = (Map.empty, {})"
    by (simp_all add: healthy_def empty_storage_def)
  have "adds_first {} [Add [1] [7], Delete [1], Add [2] [8]]"
    "adds_first {} [Add [2] [8], Add [1] [7], Add [2] [8], Delete [1], Delete [1]]"
    "set [Add [1] [7], Delete [1], Add [2] [8]] = set [Add [2] [8], Add [1] [7], Add [2] [8], Delete [1], Delete [1]]"
    "same_contents (set [Add [1] [7], Delete [1], Add [2] [8]])"
    by (auto simp: same_contents_def)
  from replicas_converge [OF h(1,1) h(2,2) this] show ?thesis by blast
qed


section \<open>Batches\<close>

text \<open>
  C22. On a storage where no call fails, a batch none of whose identifiers is
  tombstoned adds its objects as single additions in the same order would, and
  reports success.
\<close>

theorem add_batch_refines:
  assumes "healthy e" "\<forall>p \<in> set ps. fst p \<notin> snd (tp_abs (env_dbs e))"
  shows "fst (run_state (mdv_2pset_add_batch ps) e) = MDV_OK \<and>
    tp_abs (env_dbs (snd (run_state (mdv_2pset_add_batch ps) e))) =
      fold (\<lambda>p. tp_step (Add (fst p) (snd p))) ps (tp_abs (env_dbs e))"
proof -
  have "\<forall>p \<in> set ps. db_map (env_dbs e) MDV_MAP_REMOVED (fst p) = None"
    using assms(2) by (auto simp: tp_abs_def domIff)
  with add_batch_clean [of e ps] assms(1) show ?thesis by (auto simp: healthy_def)
qed

lemma add_batch_refines_witness:
  "tp_abs (env_dbs (snd (run_state (mdv_2pset_add_batch [([1], [7]), ([2], [8]), ([1], [9])]) empty_storage))) =
     ([[1] \<mapsto> [7], [2] \<mapsto> [8]], {})"
proof -
  have "healthy empty_storage" by (simp add: healthy_def empty_storage_def)
  moreover have "\<forall>p \<in> set [([1 :: u8], [7 :: u8]), ([2], [8]), ([1], [9])].
      fst p \<notin> snd (tp_abs (env_dbs empty_storage))"
    by (simp add: empty_storage_def)
  ultimately show ?thesis
    using add_batch_refines by (auto simp: empty_storage_def)
qed

text \<open>
  C23. On a storage where no call fails, a batch with a tombstoned identifier
  stores nothing at all, not even the objects whose identifiers are fresh: the
  first tombstoned identifier aborts the shared transaction. The call still reports success when no object before it
  was new, and an error otherwise.
\<close>

theorem add_batch_tombstone_drops_all:
  assumes "healthy e" "\<forall>p \<in> set ps. fst p \<notin> snd (tp_abs (env_dbs e))"
    and "fst q \<in> snd (tp_abs (env_dbs e))"
  shows "fst (run_state (mdv_2pset_add_batch (ps @ q # rest)) e) =
      (if \<exists>p \<in> set ps. fst (tp_abs (env_dbs e)) (fst p) = None then MDV_FAILED else MDV_OK) \<and>
    env_dbs (snd (run_state (mdv_2pset_add_batch (ps @ q # rest)) e)) = env_dbs e"
proof -
  have "\<forall>p \<in> set ps. db_map (env_dbs e) MDV_MAP_REMOVED (fst p) = None"
    "db_map (env_dbs e) MDV_MAP_REMOVED (fst q) \<noteq> None"
    using assms(2,3) by (auto simp: tp_abs_def domIff)
  with add_batch_tombstone [of e ps q rest] assms(1) obtain e' where
    "run_state (mdv_2pset_add_batch (ps @ q # rest)) e =
      (if \<exists>p \<in> set ps. db_map (env_dbs e) MDV_MAP_OBJECTS (fst p) = None then MDV_FAILED else MDV_OK, e')"
    "env_dbs e' = env_dbs e"
    unfolding healthy_def by blast
  then show ?thesis by (simp add: tp_abs_def)
qed

lemma add_batch_tombstone_drops_all_witness:
  "let e = run_2pset [Add [1] [7], Delete [1]] empty_storage;
       (r, e') = run_state (mdv_2pset_add_batch [([1], [7]), ([2], [8])]) e
   in r = MDV_OK \<and> env_dbs e' = env_dbs e"
proof -
  let ?e = "run_2pset [Add [1] [7], Delete [1]] empty_storage"
  have h: "healthy empty_storage" by (simp add: healthy_def empty_storage_def)
  have "tp_abs (env_dbs ?e) = (Map.empty, {[1]})" and "healthy ?e"
    using run_tp [OF h, of "[Add [1] [7], Delete [1]]"] by (auto simp: empty_storage_def)
  with add_batch_tombstone_drops_all [of ?e "[]" "([1], [7])" "[([2], [8])]"]
  show ?thesis by (simp add: Let_def split_beta)
qed

end
