(* ===== verification/Mdv_2pset_Idgen.thy ===== *)
theory Mdv_2pset_Idgen
  imports Mdv_2pset_Spec
begin

text \<open>
  Opening of a two-phase set and its identifier generator (the first part of
  mdv_storage/mdv_2pset.c). The set object holds its storage, the mutex state
  and the next free identifier; the same number is kept in the map IDGEN so
  that it survives a restart.
\<close>

record mdv_2pset =
  s_storage :: mdv_lmdb
  s_locked :: bool
  s_idgen :: u64

definition MDV_OBJECTS_IDGEN :: u16 where
  "MDV_OBJECTS_IDGEN = 0"

definition idgen_key :: bytes where
  "idgen_key = le_bytes 2 MDV_OBJECTS_IDGEN"

text \<open>The value read from the storage, and whether a transaction could be started.\<close>

definition idgen_read :: "(frame, bool \<times> u64) state" where
  "idgen_read = with_map False MDV_MAP_IDGEN False True (False, 0) (True, 0) (do {
     v \<leftarrow> mdv_map_get MapA idgen_key;
     case v of
       None \<Rightarrow> do { rollback; State_Monad.return (True, 0) }
     | Some val \<Rightarrow> do {
         mdv_transaction_abort;
         close_map;
         State_Monad.return (True, le_word val)
       }
   })"

definition mdv_objects_idgen_init :: "mdv_2pset \<Rightarrow> bool \<times> mdv_2pset" where
  "mdv_objects_idgen_init objs =
     (let ((ok, v), s) = run_state idgen_read (start_frame False (s_storage objs))
      in (ok, objs \<lparr> s_storage := f_env s, s_idgen := v \<rparr>))"

text \<open>The outcome of mdv_mutex_lock is an argument.\<close>

definition reserve_ids_frame :: "u64 \<Rightarrow> (frame, mdv_errno) state" where
  "reserve_ids_frame new_id = with_map True MDV_MAP_IDGEN True True MDV_FAILED MDV_FAILED (do {
     ok \<leftarrow> mdv_map_put MapA idgen_key (le_bytes 8 new_id);
     if \<not> ok then do { rollback; State_Monad.return MDV_FAILED }
     else do {
       ok \<leftarrow> mdv_transaction_commit;
       if \<not> ok then do { rollback; State_Monad.return MDV_FAILED }
       else do { close_map; State_Monad.return MDV_OK }
     }
   })"

definition mdv_2pset_reserve_ids_range ::
  "mdv_errno \<Rightarrow> u32 \<Rightarrow> mdv_2pset \<Rightarrow> (mdv_errno \<times> u64 option) \<times> mdv_2pset" where
  "mdv_2pset_reserve_ids_range lock_result count objs =
     (if lock_result \<noteq> MDV_OK then ((lock_result, None), objs)
      else
        let new_id = s_idgen objs + ucast count;
            (r, s) = run_state (reserve_ids_frame new_id) (start_frame True (s_storage objs));
            objs' = objs \<lparr> s_storage := f_env s, s_locked := f_locked s \<rparr>
        in if r = MDV_OK then ((MDV_OK, Some (s_idgen objs)), objs' \<lparr> s_idgen := new_id \<rparr>)
           else ((r, None), objs'))"

definition mdv_2pset_retain :: "mdv_2pset \<Rightarrow> mdv_2pset" where
  "mdv_2pset_retain objs = objs \<lparr> s_storage := mdv_storage_retain (s_storage objs) \<rparr>"

definition mdv_2pset_release :: "mdv_2pset \<Rightarrow> mdv_2pset option" where
  "mdv_2pset_release objs =
     (let e = mdv_storage_release (s_storage objs)
      in if ref_counter e = 0 then None else Some (objs \<lparr> s_storage := e \<rparr>))"


section \<open>The stored generator\<close>

definition stored_idgen :: "dbs \<Rightarrow> u64" where
  "stored_idgen d = (case db_map d MDV_MAP_IDGEN idgen_key of None \<Rightarrow> 0 | Some v \<Rightarrow> le_word v)"

lemma idgen_read_run:
  assumes "healthy e"
  shows "\<exists>s. run_state idgen_read (start_frame False e) = ((True, stored_idgen (env_dbs e)), s) \<and>
    env_dbs (f_env s) = env_dbs e \<and> balanced e (f_env s)"
proof -
  have e: "1 \<le> ref_counter e" "env_faults e = []" "txn_opens e"
    using assms by (simp_all add: healthy_def txn_opens_def)
  show ?thesis
  proof (cases "map_opens False MDV_MAP_IDGEN e")
    case True
    then show ?thesis
      using e(1,2) by (cases "db_map (env_dbs e) MDV_MAP_IDGEN idgen_key")
        (simp_all add: idgen_read_def run_with_map_ok opened_map_calls split_beta leave_opened_map
          stored_idgen_def)
  next
    case False
    then have "stored_idgen (env_dbs e) = 0"
      using e(2,3) by (simp add: map_opens_def stored_idgen_def db_map_def has_db_def)
    with run_with_map_fail [OF False e(1)] e(3) show ?thesis
      unfolding idgen_read_def by fastforce
  qed
qed

lemma idgen_init_run:
  assumes "healthy (s_storage objs)"
  shows "\<exists>e. mdv_objects_idgen_init objs =
      (True, objs \<lparr> s_storage := e, s_idgen := stored_idgen (env_dbs (s_storage objs)) \<rparr>) \<and>
    env_dbs e = env_dbs (s_storage objs) \<and> balanced (s_storage objs) e"
  using idgen_read_run [OF assms] by (auto simp: mdv_objects_idgen_init_def intro: exI [of _ "f_env _"])

text \<open>Every outcome of a reservation: rollbacker 0, transaction 1, map 2, put 3, commit 4.\<close>

definition reserve_ok :: "mdv_lmdb \<Rightarrow> bool" where
  "reserve_ok e \<longleftrightarrow> map_opens True MDV_MAP_IDGEN e \<and>
     tape_ok (drop 3 (env_faults e)) \<and> tape_ok (drop 4 (env_faults e))"

lemma reserve_frame_run:
  assumes "1 \<le> ref_counter e"
  shows "\<exists>s. run_state (reserve_ids_frame new_id) (start_frame True e) =
      ((if reserve_ok e then MDV_OK else MDV_FAILED), s) \<and>
    env_dbs (f_env s) = (if reserve_ok e
      then db_put MDV_MAP_IDGEN idgen_key (le_bytes 8 new_id) (create_db MDV_MAP_IDGEN True (env_dbs e))
      else env_dbs e) \<and>
    balanced e (f_env s) \<and> (tape_ok (env_faults e) \<longrightarrow> \<not> f_locked s)"
proof (cases "map_opens True MDV_MAP_IDGEN e")
  case True
  then show ?thesis
    using assms by (simp add: reserve_ids_frame_def run_with_map_ok opened_map_calls split_beta
        leave_opened_map reserve_ok_def)
next
  case False
  with run_with_map_fail [OF False assms] show ?thesis
    by (cases "txn_opens e") (simp_all add: reserve_ids_frame_def reserve_ok_def)
qed

lemma stored_idgen_put [simp]:
  "stored_idgen (db_put MDV_MAP_IDGEN idgen_key (le_bytes 8 v) (create_db MDV_MAP_IDGEN i d)) = v"
  by (simp add: stored_idgen_def)


definition idgen_wf :: "mdv_2pset \<Rightarrow> bool" where
  "idgen_wf objs \<longleftrightarrow> 1 \<le> ref_counter (s_storage objs) \<and> s_idgen objs = stored_idgen (env_dbs (s_storage objs))"

lemma reserve_run:
  assumes "1 \<le> ref_counter (s_storage objs)"
  shows "\<exists>e l. mdv_2pset_reserve_ids_range MDV_OK count objs =
      (if reserve_ok (s_storage objs)
       then ((MDV_OK, Some (s_idgen objs)),
             objs \<lparr> s_storage := e, s_locked := l, s_idgen := s_idgen objs + ucast count \<rparr>)
       else ((MDV_FAILED, None), objs \<lparr> s_storage := e, s_locked := l \<rparr>)) \<and>
    env_dbs e = (if reserve_ok (s_storage objs)
      then db_put MDV_MAP_IDGEN idgen_key (le_bytes 8 (s_idgen objs + ucast count))
             (create_db MDV_MAP_IDGEN True (env_dbs (s_storage objs)))
      else env_dbs (s_storage objs)) \<and>
    balanced (s_storage objs) e \<and> (tape_ok (env_faults (s_storage objs)) \<longrightarrow> \<not> l)"
proof -
  obtain s where "run_state (reserve_ids_frame (s_idgen objs + ucast count))
        (start_frame True (s_storage objs)) =
      ((if reserve_ok (s_storage objs) then MDV_OK else MDV_FAILED), s)"
    "env_dbs (f_env s) = (if reserve_ok (s_storage objs)
      then db_put MDV_MAP_IDGEN idgen_key (le_bytes 8 (s_idgen objs + ucast count))
             (create_db MDV_MAP_IDGEN True (env_dbs (s_storage objs)))
      else env_dbs (s_storage objs))"
    "balanced (s_storage objs) (f_env s)" "tape_ok (env_faults (s_storage objs)) \<longrightarrow> \<not> f_locked s"
    using reserve_frame_run [OF assms] by blast
  then show ?thesis
    by (intro exI [of _ "f_env s"] exI [of _ "f_locked s"])
      (simp add: mdv_2pset_reserve_ids_range_def)
qed

text \<open>
  C20. Identifier reservation: whatever calls fail, the identifier in memory and
  the identifier in the storage stay equal; a successful reservation returns the
  old identifier and moves both on by the requested count (modulo 2 to the 64),
  a failed one moves neither; and with an allocated rollbacker the mutex is
  released and every reference returned on every path.
\<close>

theorem reserve_ids_range_correct:
  assumes "idgen_wf objs"
  shows "let ((r, first), objs') = mdv_2pset_reserve_ids_range MDV_OK count objs in
    (r = MDV_OK \<longrightarrow> first = Some (s_idgen objs) \<and> s_idgen objs' = s_idgen objs + ucast count) \<and>
    (r \<noteq> MDV_OK \<longrightarrow> first = None \<and> s_idgen objs' = s_idgen objs) \<and>
    s_idgen objs' = stored_idgen (env_dbs (s_storage objs')) \<and>
    (tape_ok (env_faults (s_storage objs)) \<longrightarrow> \<not> s_locked objs' \<and> idgen_wf objs')"
proof -
  have rc: "1 \<le> ref_counter (s_storage objs)" using assms by (simp add: idgen_wf_def)
  from reserve_run [OF rc, of count] assms show ?thesis
    by (cases "reserve_ok (s_storage objs)") (auto simp: idgen_wf_def balanced_def)
qed

lemma reserve_ids_range_correct_witness:
  "let objs = \<lparr> s_storage = empty_storage \<lparr> env_faults := [True, True, True, True, False] \<rparr>,
                s_locked = False, s_idgen = 0 \<rparr>;
       ((r, first), objs') = mdv_2pset_reserve_ids_range MDV_OK 5 objs
   in s_idgen objs' = stored_idgen (env_dbs (s_storage objs')) \<and> \<not> s_locked objs'"
proof -
  let ?objs = "\<lparr> s_storage = empty_storage \<lparr> env_faults := [True, True, True, True, False] \<rparr>,
                 s_locked = False, s_idgen = 0 \<rparr>"
  have "idgen_wf ?objs"
    by (simp add: idgen_wf_def empty_storage_def stored_idgen_def db_map_def)
  from reserve_ids_range_correct [OF this, of 5] show ?thesis
    by (auto simp: tape_ok_def Let_def split: prod.splits)
qed

fun reserve_all :: "u32 list \<Rightarrow> mdv_2pset \<Rightarrow> mdv_2pset" where
  "reserve_all [] objs = objs"
| "reserve_all (n # ns) objs = reserve_all ns (snd (mdv_2pset_reserve_ids_range MDV_OK n objs))"

lemma reserve_all_run:
  assumes "healthy (s_storage objs)" "idgen_wf objs"
  shows "healthy (s_storage (reserve_all ns objs)) \<and> idgen_wf (reserve_all ns objs) \<and>
    s_idgen (reserve_all ns objs) = s_idgen objs + sum_list (map ucast ns)"
  using assms
proof (induction ns arbitrary: objs)
  case (Cons n ns)
  let ?o = "snd (mdv_2pset_reserve_ids_range MDV_OK n objs)"
  have rc: "1 \<le> ref_counter (s_storage objs)" "reserve_ok (s_storage objs)"
    using Cons.prems by (simp_all add: healthy_def reserve_ok_def map_opens_def txn_opens_def)
  have "healthy (s_storage ?o)" "idgen_wf ?o" "s_idgen ?o = s_idgen objs + ucast n"
    using reserve_run [OF rc(1), of n] rc(2) Cons.prems
    by (auto simp: healthy_def idgen_wf_def balanced_def)
  with Cons.IH [of ?o] show ?case by (simp add: add.assoc)
qed simp

text \<open>
  C21. Restart: on a healthy storage, reopening the set after any number of
  successful reservations continues with the identifier after the last reserved
  one, so ranges handed out before and after a restart do not overlap.
\<close>

theorem idgen_survives_restart:
  assumes "healthy (s_storage objs)" "idgen_wf objs"
  shows "let (ok, objs') = mdv_objects_idgen_init (reserve_all counts objs)
         in ok \<and> s_idgen objs' = s_idgen objs + sum_list (map ucast counts)"
  using reserve_all_run [OF assms, of counts] idgen_init_run [of "reserve_all counts objs"]
  by (auto simp: idgen_wf_def)

lemma idgen_survives_restart_witness:
  "let (ok, objs') = mdv_objects_idgen_init
         (reserve_all [3, 4] \<lparr> s_storage = empty_storage, s_locked = False, s_idgen = 0 \<rparr>)
   in ok \<and> s_idgen objs' = 7"
proof -
  let ?objs = "\<lparr> s_storage = empty_storage, s_locked = False, s_idgen = 0 \<rparr>"
  have "healthy (s_storage ?objs)" "idgen_wf ?objs"
    by (simp_all add: healthy_def idgen_wf_def empty_storage_def stored_idgen_def db_map_def)
  from idgen_survives_restart [OF this, of "[3, 4]"] show ?thesis by simp
qed

end
