(* ===== verification/Mdv_2pset_Enum.thy ===== *)
theory Mdv_2pset_Enum
  imports Mdv_2pset_Idgen
begin

text \<open>
  The enumerator over a two-phase set (mdv_storage/mdv_2pset.c). It keeps a
  transaction, the OBJECTS map and a cursor of its own from its creation to its
  release; its calls run in a frame made of them. The transaction is a write
  transaction, of which LMDB admits one at a time: until the release every
  other writer waits, so the entries under the cursor do not change.
\<close>

record mdv_objects_enumerator_impl =
  en_rc :: int
  en_map :: mdv_map
  en_transaction :: "dbs option"
  en_cursor :: mdv_cursor
  en_current :: "bytes \<times> bytes"

definition enum_frame :: "mdv_objects_enumerator_impl \<Rightarrow> mdv_lmdb \<Rightarrow> frame" where
  "enum_frame en e = (frame_init e) \<lparr> f_txn := en_transaction en, f_maps := (\<lambda>_. null_map)(MapA := en_map en) \<rparr>"

text \<open>The object takes its transaction and map from the frame of the creating call.\<close>

definition enum_finish ::
  "bytes \<times> bytes \<Rightarrow> mdv_cursor \<times> (bytes \<times> bytes) option \<Rightarrow> (frame, mdv_objects_enumerator_impl option) state" where
  "enum_finish current ce = do {
     modify (\<lambda>s. s \<lparr> f_env := mdv_storage_retain (f_env s) \<rparr>);
     rollbacker_free;
     s \<leftarrow> gets (\<lambda>s. s);
     State_Monad.return (Some \<lparr> en_rc = 1, en_map = f_maps s MapA, en_transaction = f_txn s, en_cursor = fst ce,
       en_current = (case snd ce of None \<Rightarrow> current | Some kv \<Rightarrow> kv) \<rparr>)
   }"

definition mdv_objects_enumerator_impl_create ::
  "bytes option \<Rightarrow> mdv_cursor_op \<Rightarrow> (mdv_lmdb, mdv_objects_enumerator_impl option) state" where
  "mdv_objects_enumerator_impl_create key op = in_frame (do {
     rollbacker_create 3;
     ok \<leftarrow> mdv_alloc;
     if \<not> ok then State_Monad.return None
     else do {
       let current = (case key of None \<Rightarrow> [] | Some k \<Rightarrow> k, []);
       rollbacker_push Rb_free;
       ok \<leftarrow> mdv_transaction_start;
       if \<not> ok then do { rollback; State_Monad.return None }
       else do {
         rollbacker_push Rb_transaction_abort;
         ok \<leftarrow> mdv_map_open MapA MDV_MAP_OBJECTS True False;
         ok \<leftarrow> (if ok then State_Monad.return True else mdv_map_open MapA MDV_MAP_OBJECTS True False);
         if \<not> ok then do { rollback; State_Monad.return None }
         else do {
           rollbacker_push (Rb_map_close MapA);
           ce \<leftarrow> mdv_cursor_open_explicit MapA (fst current) op;
           if cur_ok (fst ce) then enum_finish current ce
           else do {
             mdv_map_close MapA;
             ok \<leftarrow> mdv_map_open MapA MDV_MAP_OBJECTS True False;
             if \<not> ok then do { rollback; State_Monad.return None }
             else do {
               ce \<leftarrow> mdv_cursor_open_explicit MapA (fst current) op;
               if cur_ok (fst ce) then enum_finish current ce
               else do { rollback; State_Monad.return None }
             }
           }
         }
       }
     }
   })"

definition mdv_2pset_enumerator :: "(mdv_lmdb, mdv_objects_enumerator_impl option) state" where
  "mdv_2pset_enumerator = mdv_objects_enumerator_impl_create None MDV_CURSOR_FIRST"

definition mdv_2pset_enumerator_from :: "bytes \<Rightarrow> (mdv_lmdb, mdv_objects_enumerator_impl option) state" where
  "mdv_2pset_enumerator_from oid = mdv_objects_enumerator_impl_create (Some oid) MDV_CURSOR_SET_RANGE"

definition mdv_objects_enumerator_impl_retain :: "mdv_objects_enumerator_impl \<Rightarrow> mdv_objects_enumerator_impl" where
  "mdv_objects_enumerator_impl_retain en = en \<lparr> en_rc := en_rc en + 1 \<rparr>"

text \<open>Moving the cursor; the current entry changes only when the move succeeds.\<close>

definition enum_move ::
  "mdv_cursor_op \<Rightarrow> mdv_objects_enumerator_impl \<times> mdv_lmdb \<Rightarrow> mdv_errno \<times> mdv_objects_enumerator_impl \<times> mdv_lmdb" where
  "enum_move op = (\<lambda>(en, e).
     let ((entry, c), s) = run_state (mdv_cursor_get op (fst (en_current en)) (en_cursor en)) (enum_frame en e) in
     case entry of
       None \<Rightarrow> (MDV_FAILED, en \<lparr> en_cursor := c \<rparr>, f_env s)
     | Some kv \<Rightarrow> (MDV_OK, en \<lparr> en_cursor := c, en_current := kv \<rparr>, f_env s))"

definition mdv_objects_enumerator_impl_reset ::
  "mdv_objects_enumerator_impl \<times> mdv_lmdb \<Rightarrow> mdv_errno \<times> mdv_objects_enumerator_impl \<times> mdv_lmdb" where
  "mdv_objects_enumerator_impl_reset = enum_move MDV_CURSOR_FIRST"

definition mdv_objects_enumerator_impl_next ::
  "mdv_objects_enumerator_impl \<times> mdv_lmdb \<Rightarrow> mdv_errno \<times> mdv_objects_enumerator_impl \<times> mdv_lmdb" where
  "mdv_objects_enumerator_impl_next = enum_move MDV_CURSOR_NEXT"

definition mdv_objects_enumerator_impl_current :: "mdv_objects_enumerator_impl \<Rightarrow> bytes \<times> bytes" where
  "mdv_objects_enumerator_impl_current en = en_current en"

text \<open>The last release closes the cursor, ends the transaction, closes the map and gives back the
  reference on the set and the object itself.\<close>

definition mdv_objects_enumerator_impl_release ::
  "mdv_objects_enumerator_impl \<times> mdv_lmdb \<Rightarrow> int \<times> mdv_objects_enumerator_impl option \<times> mdv_lmdb" where
  "mdv_objects_enumerator_impl_release = (\<lambda>(en, e).
     let rc = en_rc en - 1 in
     if rc \<noteq> 0 then (rc, Some (en \<lparr> en_rc := rc \<rparr>), e)
     else
       let s = snd (run_state (do {
           mdv_cursor_close (en_cursor en);
           mdv_transaction_abort;
           mdv_map_close MapA;
           modify (\<lambda>s. s \<lparr> f_env := mdv_storage_release (f_env s) \<rparr>);
           mdv_free
         }) (enum_frame en e))
       in (rc, None, f_env s))"


section \<open>Walking through a set\<close>

text \<open>The loop a caller runs: reset, then read the current entry until next fails.\<close>

primrec enum_rest ::
  "nat \<Rightarrow> mdv_objects_enumerator_impl \<times> mdv_lmdb \<Rightarrow> ((bytes \<times> bytes) list \<times> mdv_objects_enumerator_impl \<times> mdv_lmdb) option" where
  "enum_rest 0 s = None"
| "enum_rest (Suc n) s =
     (case mdv_objects_enumerator_impl_next s of
        (MDV_OK, s') \<Rightarrow> map_option (\<lambda>(xs, t). (mdv_objects_enumerator_impl_current (fst s) # xs, t)) (enum_rest n s')
      | (_, s') \<Rightarrow> Some ([mdv_objects_enumerator_impl_current (fst s)], s'))"

definition enum_all ::
  "nat \<Rightarrow> mdv_objects_enumerator_impl \<times> mdv_lmdb \<Rightarrow> ((bytes \<times> bytes) list \<times> mdv_objects_enumerator_impl \<times> mdv_lmdb) option" where
  "enum_all n s =
     (case mdv_objects_enumerator_impl_reset s of
        (MDV_OK, s') \<Rightarrow> enum_rest n s'
      | (_, s') \<Rightarrow> Some ([], s'))"

definition objects_kv :: "dbs \<Rightarrow> kv" where
  "objects_kv d = (case d MDV_MAP_OBJECTS of None \<Rightarrow> [] | Some b \<Rightarrow> db_kv b)"

text \<open>An enumerator whose cursor stands at position p, the current entry being the one there.\<close>

definition enum_at :: "kv \<Rightarrow> nat option \<Rightarrow> mdv_objects_enumerator_impl \<Rightarrow> bool" where
  "enum_at kvs p en \<longleftrightarrow> cur_ok (en_cursor en) \<and> cur_kv (en_cursor en) = kvs \<and> cur_pos (en_cursor en) = p \<and>
     (\<forall>i. p = Some i \<longrightarrow> i < length kvs \<and> en_current en = kvs ! i)"

text \<open>What the moves leave alone.\<close>

definition same_base :: "mdv_objects_enumerator_impl \<Rightarrow> mdv_objects_enumerator_impl \<Rightarrow> bool" where
  "same_base en en' \<longleftrightarrow> en_rc en' = en_rc en \<and> en_map en' = en_map en \<and> en_transaction en' = en_transaction en \<and>
     cur_ok (en_cursor en') = cur_ok (en_cursor en)"

lemma enum_reset_run:
  assumes "env_faults e = []" "enum_at kvs p en"
  shows "if kvs = [] then mdv_objects_enumerator_impl_reset (en, e) = (MDV_FAILED, en, e)
    else \<exists>en'. mdv_objects_enumerator_impl_reset (en, e) = (MDV_OK, en', e) \<and> enum_at kvs (Some 0) en' \<and> same_base en en'"
  using assms
  by (cases e) (simp add: mdv_objects_enumerator_impl_reset_def enum_move_def mdv_cursor_get_def enum_at_def enum_frame_def
      frame_init_def same_base_def sys_adv_def)

lemma enum_next_run:
  assumes "env_faults e = []" "enum_at kvs (Some i) en"
  shows "if Suc i < length kvs
    then \<exists>en'. mdv_objects_enumerator_impl_next (en, e) = (MDV_OK, en', e) \<and> enum_at kvs (Some (Suc i)) en' \<and> same_base en en'
    else mdv_objects_enumerator_impl_next (en, e) = (MDV_FAILED, en, e)"
  using assms
  by (cases e) (simp add: mdv_objects_enumerator_impl_next_def enum_move_def mdv_cursor_get_def enum_at_def enum_frame_def
      frame_init_def same_base_def sys_adv_def)

lemma same_base_trans: "same_base a b \<Longrightarrow> same_base b c \<Longrightarrow> same_base a c"
  by (simp add: same_base_def)

lemma enum_rest_run:
  assumes "env_faults e = []" "enum_at kvs (Some i) en" "length kvs - i \<le> n"
  shows "\<exists>en'. enum_rest n (en, e) = Some (drop i kvs, en', e) \<and> same_base en en'"
  using assms(2,3)
proof (induction n arbitrary: i en)
  case 0
  then show ?case by (simp add: enum_at_def)
next
  case (Suc n)
  have cur: "i < length kvs" "en_current en = kvs ! i" using Suc.prems by (simp_all add: enum_at_def)
  show ?case
  proof (cases "Suc i < length kvs")
    case True
    with enum_next_run [OF assms(1) Suc.prems(1)] obtain en1 where en1: "mdv_objects_enumerator_impl_next (en, e) = (MDV_OK, en1, e)"
      "enum_at kvs (Some (Suc i)) en1" "same_base en en1" by auto
    have "length kvs - Suc i \<le> n" using Suc.prems(2) by simp
    from Suc.IH [OF en1(2) this] obtain en' where "enum_rest n (en1, e) = Some (drop (Suc i) kvs, en', e)" "same_base en1 en'"
      by blast
    with en1 cur show ?thesis
      by (auto simp: mdv_objects_enumerator_impl_current_def Cons_nth_drop_Suc intro: same_base_trans)
  next
    case False
    with cur have "drop i kvs = [kvs ! i]" by (simp add: Cons_nth_drop_Suc [symmetric])
    with enum_next_run [OF assms(1) Suc.prems(1)] False cur show ?thesis
      by (simp add: mdv_objects_enumerator_impl_current_def same_base_def)
  qed
qed

text \<open>More steps than entries change nothing.\<close>

lemma enum_rest_mono: "enum_rest n s = Some r \<Longrightarrow> n \<le> k \<Longrightarrow> enum_rest k s = Some r"
proof (induction n arbitrary: k s r)
  case (Suc n)
  then obtain k' where k: "k = Suc k'" "n \<le> k'" by (cases k) auto
  obtain err t where step: "mdv_objects_enumerator_impl_next s = (err, t)" by (rule prod.exhaust)
  show ?case using Suc.prems(1) Suc.IH [OF _ k(2), of t] by (cases err; cases t) (auto simp: k(1) step)
qed simp

lemma enum_rest_run':
  assumes "env_faults e = []" "enum_at kvs (Some i) en"
  shows "\<exists>en'. (\<forall>n \<ge> length (drop i kvs). enum_rest n (en, e) = Some (drop i kvs, en', e)) \<and> same_base en en'"
  using enum_rest_run [OF assms order_refl] enum_rest_mono by (metis length_drop)

lemma enum_all_run':
  assumes "env_faults e = []" "enum_at kvs p en"
  shows "\<exists>en'. (\<forall>n \<ge> length kvs. enum_all n (en, e) = Some (kvs, en', e)) \<and> same_base en en'"
proof (cases "kvs = []")
  case True
  with enum_reset_run [OF assms] show ?thesis by (simp add: enum_all_def same_base_def)
next
  case False
  with enum_reset_run [OF assms] obtain en1 where en1: "mdv_objects_enumerator_impl_reset (en, e) = (MDV_OK, en1, e)"
    "enum_at kvs (Some 0) en1" "same_base en en1" by auto
  from enum_rest_run' [OF assms(1) en1(2)] en1 show ?thesis
    by (auto simp: enum_all_def intro: same_base_trans)
qed


section \<open>Creation and release\<close>

definition enum_holds :: "mdv_lmdb \<Rightarrow> mdv_lmdb" where
  "enum_holds e = e \<lparr> ref_counter := ref_counter e + 4, env_live := env_live e + 1 \<rparr>"

definition enum_base :: "mdv_objects_enumerator_impl \<Rightarrow> bool" where
  "enum_base en \<longleftrightarrow> en_rc en = 1 \<and> en_transaction en \<noteq> None \<and> mdv_map_ok (en_map en) \<and> cur_ok (en_cursor en)"

lemma enum_base_same: "same_base en en' \<Longrightarrow> enum_base en' = enum_base en"
  by (simp add: same_base_def enum_base_def)

lemma release_run:
  assumes "enum_base en" "0 < ref_counter e"
  shows "mdv_objects_enumerator_impl_release (en, enum_holds e) = (0, None, e)"
  using assms
  by (cases e) (auto simp: mdv_objects_enumerator_impl_release_def enum_base_def enum_holds_def enum_frame_def
      mdv_cursor_close_def lmdb_eval)

lemma create_first_run:
  assumes "env_faults e = []" "0 < ref_counter e"
  shows "\<exists>en p. run_state mdv_2pset_enumerator e = (Some en, enum_holds e) \<and> enum_base en \<and> enum_at (objects_kv (env_dbs e)) p en"
  using assms
  by (cases e)
    (simp add: mdv_2pset_enumerator_def mdv_objects_enumerator_impl_create_def lmdb_eval mdv_cursor_open_explicit_def
      mdv_cursor_open_def mdv_cursor_get_def enum_finish_def enum_holds_def enum_base_def enum_at_def objects_kv_def Let_def split: option.split)

definition first_from :: "bytes \<Rightarrow> dbs \<Rightarrow> nat" where
  "first_from oid d = kv_range (case d MDV_MAP_OBJECTS of None \<Rightarrow> False | Some b \<Rightarrow> db_intkey b) oid (objects_kv d)"

lemma create_from_run:
  assumes "env_faults e = []" "0 < ref_counter e"
  shows "if first_from oid (env_dbs e) < length (objects_kv (env_dbs e))
    then \<exists>en. run_state (mdv_2pset_enumerator_from oid) e = (Some en, enum_holds e) \<and> enum_base en \<and>
      enum_at (objects_kv (env_dbs e)) (Some (first_from oid (env_dbs e))) en
    else run_state (mdv_2pset_enumerator_from oid) e = (None, e)"
  using assms
  by (cases e)
    (auto simp: mdv_2pset_enumerator_from_def mdv_objects_enumerator_impl_create_def lmdb_eval mdv_cursor_open_explicit_def
      mdv_cursor_open_def mdv_cursor_get_def mdv_cursor_close_def null_cursor_def enum_finish_def enum_holds_def enum_base_def
      enum_at_def objects_kv_def first_from_def Let_def split: option.split)

section \<open>Ordered objects\<close>

text \<open>The OBJECTS map is ordered by the identifiers, and the operations keep it so.\<close>

definition objects_ordered :: "dbs \<Rightarrow> bool" where
  "objects_ordered d \<longleftrightarrow> (\<forall>b. d MDV_MAP_OBJECTS = Some b \<longrightarrow> \<not> db_intkey b \<and> sorted_wrt (\<lambda>p q. fst p < fst q) (db_kv b))"

lemma key_less_bytes: "key_less False = (<)"
  by (simp add: key_less_def fun_eq_iff)

lemma ordered_opened [simp]: "objects_ordered (opened_dbs d) = objects_ordered d"
  by (auto simp: objects_ordered_def opened_dbs_def create_db_def MDV_MAP_OBJECTS_def MDV_MAP_REMOVED_def)

lemma ordered_put: "objects_ordered d \<Longrightarrow> objects_ordered (db_put name k v d)"
  using sorted_kv_put [of False _ k v] by (fastforce simp: objects_ordered_def db_put_def key_less_bytes split: option.splits)

lemma ordered_del: "objects_ordered d \<Longrightarrow> objects_ordered (db_del name k d)"
  by (auto simp: objects_ordered_def db_del_def kv_del_def sorted_wrt_filter split: option.splits)

lemma exec_ordered:
  assumes "1 \<le> ref_counter e" "objects_ordered (env_dbs e)"
  shows "objects_ordered (env_dbs (snd (exec_2pset op e)))"
proof -
  from exec_outcome [OF assms(1), of op] have
    "env_dbs (snd (exec_2pset op e)) = snd (case op of Add oid obj \<Rightarrow> add_outcome oid obj e | Delete oid \<Rightarrow> delete_outcome oid e)"
    by (metis snd_conv)
  then show ?thesis
    using assms(2) by (cases op) (auto simp: add_outcome_def delete_outcome_def Let_def ordered_put ordered_del)
qed

lemma run_ordered:
  assumes "healthy e" "objects_ordered (env_dbs e)"
  shows "objects_ordered (env_dbs (run_2pset ops e))"
  using assms
proof (induction ops arbitrary: e)
  case (Cons op ops)
  have "healthy (snd (exec_2pset op e))" using run_tp [OF Cons.prems(1), of "[op]"] by (simp add: run_2pset_def)
  moreover have "objects_ordered (env_dbs (snd (exec_2pset op e)))" using Cons.prems by (intro exec_ordered) (simp_all add: healthy_def)
  ultimately show ?case using Cons.IH by (simp add: run_2pset_def)
qed (simp add: run_2pset_def)

text \<open>The entries from a key on are those whose keys are not below it.\<close>

lemma sorted_from:
  "sorted_wrt (\<lambda>p q. fst p < fst q) (kvs :: kv) \<Longrightarrow> drop (kv_range False k kvs) kvs = filter (\<lambda>p. \<not> fst p < k) kvs"
proof (induction kvs)
  case (Cons p kvs)
  then show ?case
    by (cases "fst p < k") (auto simp: kv_range_def key_less_bytes intro!: filter_True [symmetric] dest: less_trans)
qed (simp add: kv_range_def)

lemma map_of_from: "map_of (filter (\<lambda>p. \<not> fst p < k) kvs) = map_of kvs |` {i. \<not> i < k}"
  by (induction kvs) (auto simp: restrict_map_def fun_eq_iff)

lemma ordered_kv:
  assumes "objects_ordered d"
  shows "sorted_wrt (\<lambda>p q. fst p < fst q) (objects_kv d)" "map_of (objects_kv d) = fst (tp_abs d)"
    "drop (first_from oid d) (objects_kv d) = filter (\<lambda>p. \<not> fst p < oid) (objects_kv d)"
proof -
  show sorted: "sorted_wrt (\<lambda>p q. fst p < fst q) (objects_kv d)"
    using assms by (auto simp: objects_ordered_def objects_kv_def split: option.split)
  show "map_of (objects_kv d) = fst (tp_abs d)" by (simp add: objects_kv_def tp_abs_def db_map_def split: option.split)
  show "drop (first_from oid d) (objects_kv d) = filter (\<lambda>p. \<not> fst p < oid) (objects_kv d)"
    using sorted_from [OF sorted] assms by (auto simp: first_from_def objects_ordered_def objects_kv_def split: option.split)
qed

text \<open>
  C24. Enumeration: after any additions and deletions on a storage where no call
  fails and whose objects are ordered, as in an empty one, an enumerator lists
  exactly the live objects with their contents, in strictly ascending order of
  the identifiers. An enumerator from an identifier lists those not below it,
  and does not exist if there are none. Its release gives back every reference
  and block it held and leaves the storage as it was.
\<close>

theorem enumerator_lists_objects:
  fixes oid :: bytes and ops :: "tp_op list"
  assumes "healthy e0" "objects_ordered (env_dbs e0)"
  defines "e \<equiv> run_2pset ops e0" and "live \<equiv> fst (fold tp_step ops (tp_abs (env_dbs e0)))"
  shows "(\<exists>en e' xs en'. run_state mdv_2pset_enumerator e = (Some en, e') \<and>
      (\<forall>n \<ge> length xs. enum_all n (en, e') = Some (xs, en', e')) \<and>
      sorted_wrt (\<lambda>p q. fst p < fst q) xs \<and> map_of xs = live \<and>
      mdv_objects_enumerator_impl_release (en', e') = (0, None, e)) \<and>
    (if \<forall>i \<in> dom live. i < oid then run_state (mdv_2pset_enumerator_from oid) e = (None, e)
     else \<exists>en e' xs en'. run_state (mdv_2pset_enumerator_from oid) e = (Some en, e') \<and>
      (\<forall>n \<ge> length xs. enum_rest n (en, e') = Some (xs, en', e')) \<and>
      sorted_wrt (\<lambda>p q. fst p < fst q) xs \<and> map_of xs = live |` {i. \<not> i < oid} \<and>
      mdv_objects_enumerator_impl_release (en', e') = (0, None, e))"
proof -
  let ?kvs = "objects_kv (env_dbs e)" and ?p = "first_from oid (env_dbs e)"
  have e: "env_faults e = []" "0 < ref_counter e" "objects_ordered (env_dbs e)" "tp_abs (env_dbs e) = fold tp_step ops (tp_abs (env_dbs e0))"
    using run_tp [OF assms(1), of ops] run_ordered [OF assms(1,2), of ops] by (simp_all add: e_def healthy_def)
  note kv = ordered_kv [OF e(3)]
  have live: "map_of ?kvs = live" using kv(2) e(4) by (simp add: live_def)
  have h: "env_faults (enum_holds e) = []" using e(1) by (simp add: enum_holds_def)
  have rel: "mdv_objects_enumerator_impl_release (en', enum_holds e) = (0, None, e)" if "enum_base en" "same_base en en'" for en en'
    using that e(2) by (intro release_run) (simp_all add: enum_base_same)
  show ?thesis
  proof (rule conjI, goal_cases)
    case 1
    obtain en q where en: "run_state mdv_2pset_enumerator e = (Some en, enum_holds e)" "enum_base en" "enum_at ?kvs q en"
      using create_first_run [OF e(1,2)] by auto
    from enum_all_run' [OF h en(3)] obtain en' where
      "\<forall>n \<ge> length ?kvs. enum_all n (en, enum_holds e) = Some (?kvs, en', enum_holds e)" "same_base en en'" by blast
    with en(1) rel [OF en(2)] kv(1) live show ?case by blast
  next
    case 2
    show ?case
    proof (cases "?p < length ?kvs")
      case True
      then have "drop ?p ?kvs \<noteq> []" by simp
      then have some: "\<not> (\<forall>i \<in> dom live. i < oid)" unfolding kv(3) filter_empty_conv live [symmetric] dom_map_of_conv_image_fst by auto
      from True create_from_run [OF e(1,2), of oid] obtain en where
        en: "run_state (mdv_2pset_enumerator_from oid) e = (Some en, enum_holds e)" "enum_base en" "enum_at ?kvs (Some ?p) en"
        by auto
      from enum_rest_run' [OF h en(3)] obtain en' where
        "\<forall>n \<ge> length (drop ?p ?kvs). enum_rest n (en, enum_holds e) = Some (drop ?p ?kvs, en', enum_holds e)" "same_base en en'" by blast
      moreover have "sorted_wrt (\<lambda>p q. fst p < fst q) (drop ?p ?kvs)" using kv(1) by (rule sorted_wrt_drop)
      moreover have "map_of (drop ?p ?kvs) = live |` {i. \<not> i < oid}" unfolding kv(3) map_of_from live ..
      ultimately show ?thesis using some en(1) rel [OF en(2)] unfolding if_not_P [OF some] by blast
    next
      case False
      then have "drop ?p ?kvs = []" by simp
      then have none: "\<forall>i \<in> dom live. i < oid" unfolding kv(3) filter_empty_conv live [symmetric] dom_map_of_conv_image_fst by auto
      from False create_from_run [OF e(1,2), of oid] none show ?thesis by simp
    qed
  qed
qed

lemma enumerator_lists_objects_witness:
  "\<exists>en e' xs en'. run_state mdv_2pset_enumerator (run_2pset [Add [2] [8], Add [1] [7], Add [3] [9], Delete [2]] empty_storage) = (Some en, e') \<and>
    enum_all (length xs) (en, e') = Some (xs, en', e') \<and> sorted_wrt (\<lambda>p q. fst p < fst q) xs \<and> map_of xs = [[1] \<mapsto> [7], [3] \<mapsto> [9]]"
proof -
  have h: "healthy empty_storage" "objects_ordered (env_dbs empty_storage)"
    by (simp_all add: healthy_def empty_storage_def objects_ordered_def)
  have "fst (fold tp_step [Add [2] [8], Add [1] [7], Add [3] [9], Delete [2]] (tp_abs (env_dbs empty_storage))) = [[1] \<mapsto> [7], [3] \<mapsto> [9]]"
    by (auto simp: empty_storage_def)
  with enumerator_lists_objects [OF h, of "[Add [2] [8], Add [1] [7], Add [3] [9], Delete [2]]", THEN conjunct1]
  show ?thesis by (metis order_refl)
qed

end
