(* ===== verification/Mdv_List.thy ===== *)
theory Mdv_List
  imports Mdv_Prelude "HOL-Library.Monad_Syntax"
begin

text \<open>
  The doubly linked list of \<^verbatim>\<open>mdv_platform/generic/mdv_list.c\<close> over an explicit
  store of entries. Every operation reads and writes the links in the order of
  the source; reading an address that holds no entry (a null or freed pointer)
  gives None. The operations are then related to the list of entries, address
  and data, that the links spell out.
\<close>

type_synonym addr = nat

record 'a mdv_list_entry =
  e_next :: "addr option"
  e_prev :: "addr option"
  e_data :: 'a

record mdv_list =
  l_next :: "addr option"
  l_last :: "addr option"

type_synonym 'a store = "addr \<Rightarrow> 'a mdv_list_entry option"

definition null_list :: mdv_list where
  "null_list = \<lparr> l_next = None, l_last = None \<rparr>"

definition set_next :: "addr \<Rightarrow> addr option \<Rightarrow> 'a store \<Rightarrow> 'a store option" where
  "set_next a n h = map_option (\<lambda>c. h(a \<mapsto> c \<lparr> e_next := n \<rparr>)) (h a)"

definition set_prev :: "addr \<Rightarrow> addr option \<Rightarrow> 'a store \<Rightarrow> 'a store option" where
  "set_prev a p h = map_option (\<lambda>c. h(a \<mapsto> c \<lparr> e_prev := p \<rparr>)) (h a)"


section \<open>Operations\<close>

definition mdv_list_emplace_back :: "addr \<Rightarrow> mdv_list \<times> 'a store \<Rightarrow> (mdv_list \<times> 'a store) option" where
  "mdv_list_emplace_back e lh = (case lh of (l, h) \<Rightarrow>
     (case l_next l of
        None \<Rightarrow> do {
          h \<leftarrow> set_prev e None h;
          h \<leftarrow> set_next e None h;
          Some (\<lparr> l_next = Some e, l_last = Some e \<rparr>, h)
        }
      | Some _ \<Rightarrow> do {
          h \<leftarrow> set_prev e (l_last l) h;
          h \<leftarrow> set_next e None h;
          z \<leftarrow> l_last l;
          h \<leftarrow> set_next z (Some e) h;
          Some (l \<lparr> l_last := Some e \<rparr>, h)
        }))"

text \<open>The allocation yields a free address or nothing.\<close>

definition mdv_list_push_back_data ::
  "'a \<Rightarrow> addr option \<Rightarrow> mdv_list \<times> 'a store \<Rightarrow> (addr option \<times> mdv_list \<times> 'a store) option" where
  "mdv_list_push_back_data v new lh = (case lh of (l, h) \<Rightarrow>
     (case new of
        None \<Rightarrow> Some (None, l, h)
      | Some e \<Rightarrow> do {
          (l, h) \<leftarrow> mdv_list_emplace_back e (l, h(e \<mapsto> \<lparr> e_next = None, e_prev = None, e_data = v \<rparr>));
          Some (Some e, l, h)
        }))"

definition mdv_list_exclude :: "addr \<Rightarrow> mdv_list \<times> 'a store \<Rightarrow> (mdv_list \<times> 'a store) option" where
  "mdv_list_exclude e lh = (case lh of (l, h) \<Rightarrow> do {
     c \<leftarrow> h e;
     (l, h) \<leftarrow> (case e_prev c of
         Some p \<Rightarrow> do { h \<leftarrow> set_next p (e_next c) h; Some (l, h) }
       | None \<Rightarrow> Some (l \<lparr> l_next := e_next c \<rparr>, h));
     c \<leftarrow> h e;
     (case e_next c of
         Some n \<Rightarrow> do { h \<leftarrow> set_prev n (e_prev c) h; Some (l, h) }
       | None \<Rightarrow> Some (l \<lparr> l_last := e_prev c \<rparr>, h))
   })"

definition mdv_list_remove :: "addr \<Rightarrow> mdv_list \<times> 'a store \<Rightarrow> (mdv_list \<times> 'a store) option" where
  "mdv_list_remove e lh = do {
     (l, h) \<leftarrow> mdv_list_exclude e lh;
     Some (l, h(e := None))
   }"

definition mdv_list_pop_back :: "mdv_list \<times> 'a store \<Rightarrow> (mdv_list \<times> 'a store) option" where
  "mdv_list_pop_back lh = do { e \<leftarrow> l_last (fst lh); mdv_list_remove e lh }"

partial_function (option) clear_loop :: "addr option \<Rightarrow> 'a store \<Rightarrow> 'a store option" where
  "clear_loop e h = (case e of
     None \<Rightarrow> Some h
   | Some a \<Rightarrow> do { c \<leftarrow> h a; clear_loop (e_next c) (h(a := None)) })"

definition mdv_list_clear :: "mdv_list \<times> 'a store \<Rightarrow> (mdv_list \<times> 'a store) option" where
  "mdv_list_clear lh = do { h \<leftarrow> clear_loop (l_next (fst lh)) (snd lh); Some (null_list, h) }"

definition mdv_list_move :: "mdv_list \<Rightarrow> mdv_list \<times> mdv_list" where
  "mdv_list_move l = (\<lparr> l_next = l_next l, l_last = l_last l \<rparr>, null_list)"

definition mdv_list_empty :: "mdv_list \<Rightarrow> bool" where
  "mdv_list_empty l \<longleftrightarrow> l_next l = None"

text \<open>The iteration of \<^verbatim>\<open>mdv_list_foreach\<close>: the data of the entries, in link order.\<close>

partial_function (option) mdv_list_foreach :: "addr option \<Rightarrow> 'a store \<Rightarrow> 'a list option" where
  "mdv_list_foreach e h = (case e of
     None \<Rightarrow> Some []
   | Some a \<Rightarrow> do { c \<leftarrow> h a; ds \<leftarrow> mdv_list_foreach (e_next c) h; Some (e_data c # ds) })"


section \<open>The entries a list links\<close>

definition first_of :: "(addr \<times> 'a) list \<Rightarrow> addr option \<Rightarrow> addr option" where
  "first_of xs n = (case xs of [] \<Rightarrow> n | x # _ \<Rightarrow> Some (fst x))"

definition last_of :: "addr option \<Rightarrow> (addr \<times> 'a) list \<Rightarrow> addr option" where
  "last_of p xs = (if xs = [] then p else Some (fst (last xs)))"

text \<open>The entries xs lie between the addresses p and n.\<close>

fun linked :: "'a store \<Rightarrow> addr option \<Rightarrow> (addr \<times> 'a) list \<Rightarrow> addr option \<Rightarrow> bool" where
  "linked h p [] n \<longleftrightarrow> True"
| "linked h p ((a, d) # xs) n \<longleftrightarrow>
     h a = Some \<lparr> e_next = first_of xs n, e_prev = p, e_data = d \<rparr> \<and> linked h (Some a) xs n"

definition entries :: "mdv_list \<times> 'a store \<Rightarrow> (addr \<times> 'a) list \<Rightarrow> bool" where
  "entries lh xs \<longleftrightarrow> distinct (map fst xs) \<and> l_next (fst lh) = first_of xs None \<and>
     l_last (fst lh) = last_of None xs \<and> linked (snd lh) None xs None"

lemma first_of_simps [simp]:
  "first_of [] n = n" "first_of (x # xs) n = Some (fst x)"
  "first_of (xs @ ys) n = first_of xs (first_of ys n)"
  by (auto simp: first_of_def split: list.splits)

lemma last_of_simps [simp]:
  "last_of p [] = p" "last_of p (xs @ [x]) = Some (fst x)" "last_of p (x # xs) = last_of (Some (fst x)) xs"
  "last_of p (xs @ ys) = last_of (last_of p xs) ys"
  by (simp_all add: last_of_def)

lemma linked_append [simp]:
  "linked h p (xs @ ys) n \<longleftrightarrow> linked h p xs (first_of ys n) \<and> linked h (last_of p xs) ys n"
proof (induction xs arbitrary: p)
  case (Cons x xs)
  then show ?case by (cases x) simp
qed simp

lemma linked_cong:
  "(\<And>a. a \<in> fst ` set xs \<Longrightarrow> h' a = h a) \<Longrightarrow> linked h' p xs n = linked h p xs n"
proof (induction xs arbitrary: p)
  case (Cons x xs)
  then show ?case by (cases x) simp
qed simp

lemma linked_upd [simp]: "a \<notin> fst ` set xs \<Longrightarrow> linked (h(a := c)) p xs n = linked h p xs n"
  by (rule linked_cong) auto

lemma linked_live: "linked h p xs n \<Longrightarrow> x \<in> set xs \<Longrightarrow> \<exists>c. h (fst x) = Some c \<and> e_data c = snd x"
  by (induction h p xs n rule: linked.induct) auto

lemma distinct_split:
  "distinct (map fst (xs @ (a, d) # ys)) \<longleftrightarrow> a \<notin> fst ` set xs \<and> a \<notin> fst ` set ys \<and>
     distinct (map fst xs) \<and> distinct (map fst ys) \<and> fst ` set xs \<inter> fst ` set ys = {}"
  by auto


section \<open>What the operations do to the entries\<close>

text \<open>Appending an entry that is not linked yet.\<close>

lemma emplace_back_entries:
  assumes "entries (l, h) xs" "h e = Some c" "e \<notin> fst ` set xs"
  shows "\<exists>l' h'. mdv_list_emplace_back e (l, h) = Some (l', h') \<and> entries (l', h') (xs @ [(e, e_data c)]) \<and>
    (\<forall>a. a \<noteq> e \<longrightarrow> a \<notin> fst ` set xs \<longrightarrow> h' a = h a)"
proof (cases xs rule: rev_cases)
  case Nil
  with assms show ?thesis
    by (simp add: entries_def mdv_list_emplace_back_def set_prev_def set_next_def)
next
  case (snoc ys z)
  obtain b d where z: "z = (b, d)" by (cases z)
  have "linked h None ys (Some b)" "b \<notin> fst ` set ys" "e \<noteq> b" "e \<notin> fst ` set ys"
    "h b = Some \<lparr> e_next = None, e_prev = last_of None ys, e_data = d \<rparr>" "distinct (map fst ys)"
    "l_next l = first_of ys (Some b)" "l_last l = Some b"
    using assms unfolding snoc z entries_def by (simp_all add: distinct_split)
  moreover obtain q where "first_of ys (Some b) = Some q" by (cases ys) simp_all
  ultimately show ?thesis
    using assms(2) by (simp add: entries_def mdv_list_emplace_back_def set_prev_def set_next_def snoc z distinct_split)
qed

text \<open>Unlinking an entry; it keeps its data and its own links.\<close>

lemma exclude_entries:
  assumes "entries (l, h) (xs @ (e, d) # ys)"
  shows "\<exists>l' h'. mdv_list_exclude e (l, h) = Some (l', h') \<and> entries (l', h') (xs @ ys) \<and>
    h' e = h e \<and> (\<forall>a. a \<notin> fst ` set (xs @ ys) \<longrightarrow> h' a = h a)"
proof -
  have dist: "distinct (map fst (xs @ (e, d) # ys))" and lk: "linked h None (xs @ (e, d) # ys) None"
    and ends: "l_next l = first_of (xs @ (e, d) # ys) None" "l_last l = last_of None (xs @ (e, d) # ys)"
    using assms by (simp_all add: entries_def)
  show ?thesis
  proof (cases xs rule: rev_cases)
    case Nil
    then show ?thesis
    proof (cases ys)
      case Nil' : Nil
      with Nil lk ends show ?thesis by (simp add: mdv_list_exclude_def entries_def)
    next
      case (Cons y ys')
      then show ?thesis
        using Nil lk ends dist
        by (cases y) (simp add: mdv_list_exclude_def entries_def set_prev_def)
    qed
  next
    case (snoc xs' x)
    obtain b d' where x: "x = (b, d')" by (cases x)
    show ?thesis
    proof (cases ys)
      case Nil
      then show ?thesis
        using snoc x lk ends dist
        by (simp add: mdv_list_exclude_def entries_def set_next_def)
    next
      case (Cons y ys')
      then show ?thesis
        using snoc x lk ends dist
        by (cases y) (simp add: mdv_list_exclude_def entries_def set_next_def set_prev_def)
    qed
  qed
qed

text \<open>Linking and unlinking never change the data of an entry.\<close>

definition data_at :: "mdv_list \<times> 'a store \<Rightarrow> addr \<Rightarrow> 'a option" where
  "data_at lh a = map_option e_data (snd lh a)"

lemma set_link_data:
  "set_next a n h = Some h' \<Longrightarrow> map_option e_data (h' b) = map_option e_data (h b)"
  "set_prev a n h = Some h' \<Longrightarrow> map_option e_data (h' b) = map_option e_data (h b)"
  by (auto simp: set_next_def set_prev_def)

lemma emplace_back_data: "mdv_list_emplace_back e lh = Some lh' \<Longrightarrow> data_at lh' a = data_at lh a"
  by (cases lh) (auto simp: mdv_list_emplace_back_def data_at_def bind_eq_Some_conv set_link_data
    split: option.splits)

lemma exclude_data: "mdv_list_exclude e lh = Some lh' \<Longrightarrow> data_at lh' a = data_at lh a"
  by (cases lh) (auto simp: mdv_list_exclude_def data_at_def bind_eq_Some_conv set_link_data
    split: option.splits)

text \<open>Overwriting the data of a linked entry in place.\<close>

definition set_data :: "addr \<Rightarrow> 'a \<Rightarrow> 'a store \<Rightarrow> 'a store option" where
  "set_data a d h = map_option (\<lambda>c. h(a \<mapsto> c \<lparr> e_data := d \<rparr>)) (h a)"

lemma set_data_entries:
  assumes "entries (l, h) (xs @ (e, d) # ys)"
  shows "\<exists>h'. set_data e d' h = Some h' \<and> entries (l, h') (xs @ (e, d') # ys) \<and>
    (\<forall>a. a \<noteq> e \<longrightarrow> h' a = h a)"
  using assms by (simp add: entries_def set_data_def distinct_split)

text \<open>
  A sequence of entries with stable addresses, as the clients of the list use it:
  a detached entry can be appended, a linked one unlinked, and neither touches
  the data.
\<close>

locale linked_seq =
  fixes rep :: "'s \<Rightarrow> (addr \<times> 'a) list \<Rightarrow> bool" and at :: "'s \<Rightarrow> addr \<Rightarrow> 'a option"
    and link unlink :: "addr \<Rightarrow> 's \<Rightarrow> 's option"
  assumes rep_distinct: "rep s xs \<Longrightarrow> distinct (map fst xs)"
    and rep_at: "rep s xs \<Longrightarrow> (e, d) \<in> set xs \<Longrightarrow> at s e = Some d"
    and link: "rep s xs \<Longrightarrow> at s e = Some d \<Longrightarrow> e \<notin> fst ` set xs \<Longrightarrow>
      \<exists>s'. link e s = Some s' \<and> rep s' (xs @ [(e, d)]) \<and> at s' = at s"
    and unlink: "rep s (xs @ (e, d) # ys) \<Longrightarrow> \<exists>s'. unlink e s = Some s' \<and> rep s' (xs @ ys) \<and> at s' = at s"
begin

definition touch :: "addr \<Rightarrow> 's \<Rightarrow> 's option" where
  "touch e s = do { s \<leftarrow> unlink e s; link e s }"

lemma touch_moves_back:
  assumes "rep s (xs @ (e, d) # ys)"
  shows "\<exists>s'. touch e s = Some s' \<and> rep s' (xs @ ys @ [(e, d)]) \<and> at s' = at s"
proof -
  obtain s1 where s1: "unlink e s = Some s1" "rep s1 (xs @ ys)" "at s1 = at s"
    using unlink [OF assms] by blast
  have "at s1 e = Some d" using rep_at [OF assms] s1(3) by simp
  moreover have "e \<notin> fst ` set (xs @ ys)" using rep_distinct [OF assms] by auto
  ultimately obtain s2 where "link e s1 = Some s2" "rep s2 ((xs @ ys) @ [(e, d)])" "at s2 = at s1"
    using link [OF s1(2)] by blast
  with s1 show ?thesis by (simp add: touch_def)
qed

end

interpretation dl: linked_seq entries data_at mdv_list_emplace_back mdv_list_exclude
proof
  show "distinct (map fst xs)" if "entries s xs" for s :: "mdv_list \<times> 'a store" and xs
    using that by (simp add: entries_def)
  show "data_at s e = Some d" if "entries s xs" "(e, d) \<in> set xs" for s :: "mdv_list \<times> 'a store" and xs e d
    using that linked_live [of "snd s" None xs None "(e, d)"] by (auto simp: entries_def data_at_def)
  show "\<exists>s'. mdv_list_emplace_back e s = Some s' \<and> entries s' (xs @ [(e, d)]) \<and> data_at s' = data_at s"
    if "entries s xs" "data_at s e = Some d" "e \<notin> fst ` set xs" for s :: "mdv_list \<times> 'a store" and xs e d
    using that emplace_back_entries [of "fst s" "snd s" xs e] emplace_back_data [of e s]
    by (fastforce simp: data_at_def fun_eq_iff)
  show "\<exists>s'. mdv_list_exclude e s = Some s' \<and> entries s' (xs @ ys) \<and> data_at s' = data_at s"
    if "entries s (xs @ (e, d) # ys)" for s :: "mdv_list \<times> 'a store" and xs e d ys
    using that exclude_entries [of "fst s" "snd s" xs e d ys] exclude_data [of e s]
    by (fastforce simp: fun_eq_iff)
qed

lemma remove_entries:
  assumes "entries lh (xs @ (e, d) # ys)"
  shows "\<exists>lh'. mdv_list_remove e lh = Some lh' \<and> entries lh' (xs @ ys) \<and> snd lh' e = None"
proof -
  have "e \<notin> fst ` set xs" "e \<notin> fst ` set ys"
    using dl.rep_distinct [OF assms] by (simp_all add: distinct_split)
  moreover obtain l h where "mdv_list_exclude e lh = Some (l, h)" "entries (l, h) (xs @ ys)"
    using dl.unlink [OF assms] by auto
  ultimately show ?thesis by (simp add: mdv_list_remove_def entries_def)
qed

lemma clear_entries:
  assumes "linked h p xs None" "distinct (map fst xs)"
  shows "clear_loop (first_of xs None) h = Some (h |` (- fst ` set xs))"
  using assms
proof (induction xs arbitrary: h p)
  case Nil
  then show ?case by (simp add: clear_loop.simps)
next
  case (Cons x xs)
  obtain a d where x: "x = (a, d)" by (cases x)
  have "linked (h(a := None)) (Some a) xs None" "distinct (map fst xs)"
    using Cons.prems linked_upd [of a xs h None "Some a" None] by (simp_all add: x del: linked_upd)
  then have "clear_loop (first_of xs None) (h(a := None)) = Some ((h(a := None)) |` (- fst ` set xs))"
    by (rule Cons.IH)
  moreover have "(h(a := None)) |` (- fst ` set xs) = h |` (- fst ` set (x # xs))"
    by (rule ext) (auto simp: x restrict_map_def)
  ultimately show ?case
    using Cons.prems by (subst clear_loop.simps) (simp add: x)
qed

lemma foreach_linked: "linked h p xs None \<Longrightarrow> mdv_list_foreach (first_of xs None) h = Some (map snd xs)"
proof (induction xs arbitrary: p)
  case Nil
  then show ?case by (simp add: mdv_list_foreach.simps)
next
  case (Cons x xs)
  obtain a d where x: "x = (a, d)" by (cases x)
  have "mdv_list_foreach (first_of xs None) h = Some (map snd xs)"
    using Cons.prems by (intro Cons.IH [of "Some a"]) (simp add: x)
  with Cons.prems show ?case by (subst mdv_list_foreach.simps) (simp add: x)
qed

lemma foreach_entries: "entries lh xs \<Longrightarrow> mdv_list_foreach (l_next (fst lh)) (snd lh) = Some (map snd xs)"
  using foreach_linked [of "snd lh" None xs] by (simp add: entries_def)

lemma empty_entries: "entries lh xs \<Longrightarrow> mdv_list_empty (fst lh) \<longleftrightarrow> xs = []"
  by (cases xs) (simp_all add: entries_def mdv_list_empty_def)


section \<open>Refinement\<close>

datatype 'a list_cmd = Push_back 'a addr | Remove addr | Pop_back | Clear

primrec list_exec :: "'a list_cmd \<Rightarrow> mdv_list \<times> 'a store \<Rightarrow> (mdv_list \<times> 'a store) option" where
  "list_exec (Push_back v a) lh = map_option snd (mdv_list_push_back_data v (Some a) lh)"
| "list_exec (Remove a) lh = mdv_list_remove a lh"
| "list_exec Pop_back lh = mdv_list_pop_back lh"
| "list_exec Clear lh = mdv_list_clear lh"

text \<open>The specification on plain lists; a call outside the contract (an address already in use,
  an entry that is not in the list, popping from an empty list) has no result.\<close>

primrec list_spec :: "'a list_cmd \<Rightarrow> (addr \<times> 'a) list \<Rightarrow> (addr \<times> 'a) list option" where
  "list_spec (Push_back v a) xs = (if a \<in> fst ` set xs then None else Some (xs @ [(a, v)]))"
| "list_spec (Remove a) xs = (if a \<in> fst ` set xs then Some (filter (\<lambda>x. fst x \<noteq> a) xs) else None)"
| "list_spec Pop_back xs = (if xs = [] then None else Some (butlast xs))"
| "list_spec Clear xs = Some []"

primrec run_cmds :: "('c \<Rightarrow> 's \<Rightarrow> 's option) \<Rightarrow> 'c list \<Rightarrow> 's \<Rightarrow> 's option" where
  "run_cmds f [] s = Some s"
| "run_cmds f (c # cs) s = do { s \<leftarrow> f c s; run_cmds f cs s }"

lemma split_entry:
  assumes "a \<in> fst ` set xs" "distinct (map fst xs)"
  obtains us d vs where "xs = us @ (a, d) # vs" "filter (\<lambda>x. fst x \<noteq> a) xs = us @ vs"
proof -
  from assms(1) obtain d where "(a, d) \<in> set xs" by auto
  then obtain us vs where xs: "xs = us @ (a, d) # vs" by (meson split_list)
  then have "a \<notin> fst ` set us" "a \<notin> fst ` set vs" using assms(2) by (simp_all add: distinct_split)
  then have "filter (\<lambda>x. fst x \<noteq> a) us = us" "filter (\<lambda>x. fst x \<noteq> a) vs = vs"
    by (auto intro: filter_True)
  with xs show ?thesis using that by simp
qed

lemma list_exec_refines:
  assumes "entries lh xs" "list_spec c xs = Some ys"
  shows "\<exists>lh'. list_exec c lh = Some lh' \<and> entries lh' ys"
proof (cases c)
  case (Push_back v a)
  let ?h = "(snd lh)(a \<mapsto> \<lparr> e_next = None, e_prev = None, e_data = v \<rparr>)"
  have a: "a \<notin> fst ` set xs" and ys: "ys = xs @ [(a, v)]"
    using assms(2) by (auto simp: Push_back split: if_splits)
  have "entries (fst lh, ?h) xs" using assms(1) a by (simp add: entries_def)
  from emplace_back_entries [OF this _ a] show ?thesis
    by (cases lh) (auto simp: Push_back ys mdv_list_push_back_data_def)
next
  case (Remove a)
  have "a \<in> fst ` set xs" using assms(2) by (auto simp: Remove split: if_splits)
  then obtain us d vs where "xs = us @ (a, d) # vs" "filter (\<lambda>x. fst x \<noteq> a) xs = us @ vs"
    using split_entry dl.rep_distinct [OF assms(1)] by metis
  with assms remove_entries [of lh us a d vs] show ?thesis by (auto simp: Remove split: if_splits)
next
  case Pop_back
  with assms obtain us a d where xs: "xs = us @ [(a, d)]" "ys = us"
    by (cases xs rule: rev_cases) (auto split: if_splits)
  then have "l_last (fst lh) = Some a" using assms(1) by (simp add: entries_def)
  with assms(1) xs remove_entries [of lh us a d "[]"] show ?thesis
    by (auto simp: Pop_back mdv_list_pop_back_def)
next
  case Clear
  then show ?thesis
    using assms clear_entries [of "snd lh" None xs]
    by (simp add: entries_def mdv_list_clear_def null_list_def)
qed

text \<open>
  C28. Refinement: every sequence of appends, removals, pops and clears that stays
  inside the contract runs on the links without reading a null or freed pointer,
  and ends with links that spell out, forwards and backwards, the entries the
  plain list has; iterating yields their data in order.
\<close>

theorem mdv_list_refines:
  assumes "entries lh xs" "run_cmds list_spec cs xs = Some ys"
  shows "\<exists>lh'. run_cmds list_exec cs lh = Some lh' \<and> entries lh' ys \<and>
    mdv_list_foreach (l_next (fst lh')) (snd lh') = Some (map snd ys)"
  using assms
proof (induction cs arbitrary: lh xs)
  case Nil
  then show ?case by (auto simp: foreach_entries)
next
  case (Cons c cs)
  then obtain xs' where c: "list_spec c xs = Some xs'" "run_cmds list_spec cs xs' = Some ys"
    by (auto simp: bind_eq_Some_conv)
  from list_exec_refines [OF Cons.prems(1) c(1)] obtain lh1 where "list_exec c lh = Some lh1" "entries lh1 xs'"
    by blast
  with Cons.IH [OF _ c(2)] show ?case by simp
qed

lemma mdv_list_refines_witness:
  "\<exists>lh'. run_cmds list_exec [Push_back CHR ''a'' 1, Push_back CHR ''b'' 2, Push_back CHR ''c'' 3, Remove 2, Pop_back]
      (null_list, Map.empty) = Some lh' \<and>
    mdv_list_foreach (l_next (fst lh')) (snd lh') = Some ''a''"
  using mdv_list_refines [of "(null_list, Map.empty)" "[]"
      "[Push_back CHR ''a'' 1, Push_back CHR ''b'' 2, Push_back CHR ''c'' 3, Remove 2, Pop_back]" "[(1, CHR ''a'')]"]
  by (auto simp: entries_def null_list_def)

end
