(* ===== verification/Mdv_Hashmap.thy ===== *)
theory Mdv_Hashmap
  imports Mdv_Prelude "HOL-Library.Monad_Syntax"
begin

text \<open>
  The chained hash map of \<^verbatim>\<open>mdv_platform/generic/mdv_hashmap.c\<close>. A bucket is the list
  of its items in link order. The hash function, the key comparison and the
  projection of an item to its key are fields, as the function pointers and the
  key offset are in the source; the outcomes of the allocations are arguments. A
  remainder by a zero capacity has no result (None).
\<close>

record ('k, 'i) mdv_hashmap =
  hm_rc :: int
  hm_capacity :: nat
  hm_size :: nat
  hm_key_offset :: nat
  hm_key_size :: nat
  hm_buckets :: "'i list list"
  hm_hash :: "'k \<Rightarrow> nat"
  hm_cmp :: "'k \<Rightarrow> 'k \<Rightarrow> int"
  hm_key :: "'i \<Rightarrow> 'k"

definition mdv_hashmap_create ::
  "bool \<Rightarrow> bool \<Rightarrow> nat \<Rightarrow> nat \<Rightarrow> nat \<Rightarrow> ('i \<Rightarrow> 'k) \<Rightarrow> ('k \<Rightarrow> nat) \<Rightarrow> ('k \<Rightarrow> 'k \<Rightarrow> int) \<Rightarrow>
   ('k, 'i) mdv_hashmap option" where
  "mdv_hashmap_create hm_ok buckets_ok capacity key_offset key_size key hash_fn key_cmp_fn =
     (if \<not> hm_ok then None
      else let capacity = capacity * (5 div 4) in
        if capacity \<noteq> 0 \<and> \<not> buckets_ok then None
        else Some \<lparr> hm_rc = 1, hm_capacity = capacity, hm_size = 0, hm_key_offset = key_offset,
          hm_key_size = key_size, hm_buckets = replicate capacity [], hm_hash = hash_fn,
          hm_cmp = key_cmp_fn, hm_key = key \<rparr>)"

definition mdv_hashmap_clear :: "('k, 'i) mdv_hashmap \<Rightarrow> ('k, 'i) mdv_hashmap" where
  "mdv_hashmap_clear hm =
     (if hm_size hm \<noteq> 0 then hm \<lparr> hm_buckets := replicate (hm_capacity hm) [] \<rparr> else hm)"

definition mdv_hashmap_retain :: "('k, 'i) mdv_hashmap \<Rightarrow> ('k, 'i) mdv_hashmap" where
  "mdv_hashmap_retain hm = hm \<lparr> hm_rc := hm_rc hm + 1 \<rparr>"

text \<open>The last release frees the map (None).\<close>

definition mdv_hashmap_release :: "('k, 'i) mdv_hashmap \<Rightarrow> ('k, 'i) mdv_hashmap option" where
  "mdv_hashmap_release hm =
     (let rc = hm_rc hm - 1 in if rc = 0 then None else Some (hm \<lparr> hm_rc := rc \<rparr>))"

definition place :: "('i \<Rightarrow> nat) \<Rightarrow> 'i list list \<Rightarrow> 'i \<Rightarrow> 'i list list" where
  "place idx bs x = bs[idx x := bs ! idx x @ [x]]"

definition mdv_hashmap_resize ::
  "bool \<Rightarrow> nat \<Rightarrow> ('k, 'i) mdv_hashmap \<Rightarrow> bool \<times> ('k, 'i) mdv_hashmap" where
  "mdv_hashmap_resize ok capacity hm =
     (if capacity > hm_size hm then
        if ok then
          (True, hm \<lparr> hm_buckets := foldl (foldl (place (\<lambda>x. hm_hash hm (hm_key hm x) mod capacity)))
             (replicate capacity []) (hm_buckets hm), hm_capacity := capacity \<rparr>)
        else (False, hm)
      else (False, hm))"

text \<open>The loop that unlinks the first item whose key compares equal.\<close>

fun remove_first :: "('i \<Rightarrow> bool) \<Rightarrow> 'i list \<Rightarrow> 'i list option" where
  "remove_first p [] = None"
| "remove_first p (x # xs) = (if p x then Some xs else map_option ((#) x) (remove_first p xs))"

definition insert_entry :: "bool \<Rightarrow> 'i \<Rightarrow> ('k, 'i) mdv_hashmap \<Rightarrow> (bool \<times> ('k, 'i) mdv_hashmap) option" where
  "insert_entry entry_ok item hm =
     (if hm_capacity hm = 0 then None
      else
        let key = hm_key hm item;
            idx = hm_hash hm key mod hm_capacity hm;
            bucket = hm_buckets hm ! idx;
            (bucket, n) = (case remove_first (\<lambda>e. hm_cmp hm key (hm_key hm e) = 0) bucket of
               None \<Rightarrow> (bucket, hm_size hm)
             | Some b \<Rightarrow> (b, hm_size hm - 1))
        in if entry_ok
           then Some (True, hm \<lparr> hm_buckets := (hm_buckets hm)[idx := bucket @ [item]], hm_size := n + 1 \<rparr>)
           else Some (False, hm \<lparr> hm_buckets := (hm_buckets hm)[idx := bucket], hm_size := n \<rparr>))"

definition mdv_hashmap_insert ::
  "bool \<Rightarrow> bool \<Rightarrow> 'i \<Rightarrow> nat \<Rightarrow> ('k, 'i) mdv_hashmap \<Rightarrow> (bool \<times> ('k, 'i) mdv_hashmap) option" where
  "mdv_hashmap_insert buckets_ok entry_ok item item_size hm =
     (if item_size < hm_key_offset hm + hm_key_size hm then Some (False, hm)
      else if hm_size hm > hm_capacity hm * 3 div 4 then
        (case mdv_hashmap_resize buckets_ok (hm_capacity hm * 2) hm of
           (False, hm) \<Rightarrow> Some (False, hm)
         | (True, hm) \<Rightarrow> insert_entry entry_ok item hm)
      else insert_entry entry_ok item hm)"

definition mdv_hashmap_find :: "'k \<Rightarrow> ('k, 'i) mdv_hashmap \<Rightarrow> 'i option" where
  "mdv_hashmap_find key hm =
     (if hm_capacity hm = 0 then None
      else List.find (\<lambda>e. hm_cmp hm key (hm_key hm e) = 0) (hm_buckets hm ! (hm_hash hm key mod hm_capacity hm)))"

definition mdv_hashmap_erase :: "'k \<Rightarrow> ('k, 'i) mdv_hashmap \<Rightarrow> bool \<times> ('k, 'i) mdv_hashmap" where
  "mdv_hashmap_erase key hm =
     (if hm_capacity hm = 0 then (False, hm)
      else
        let idx = hm_hash hm key mod hm_capacity hm in
        case remove_first (\<lambda>e. hm_cmp hm key (hm_key hm e) = 0) (hm_buckets hm ! idx) of
          None \<Rightarrow> (False, hm)
        | Some b \<Rightarrow> (True, hm \<lparr> hm_buckets := (hm_buckets hm)[idx := b], hm_size := hm_size hm - 1 \<rparr>))"


section \<open>Buckets\<close>

lemma filter_no_key: "k \<notin> f ` set xs \<Longrightarrow> filter (\<lambda>e. f e \<noteq> k) xs = xs"
  by (rule filter_True) auto

lemma remove_first_key:
  assumes "distinct (map f xs)"
  shows "remove_first (\<lambda>e. f e = k) xs = (if k \<in> f ` set xs then Some (filter (\<lambda>e. f e \<noteq> k) xs) else None)"
  using assms by (induction xs) (auto simp: image_iff filter_no_key)

lemma length_remove_key:
  "distinct (map f xs) \<Longrightarrow> k \<in> f ` set xs \<Longrightarrow> Suc (length (filter (\<lambda>e. f e \<noteq> k) xs)) = length xs"
  by (induction xs) (auto simp: filter_no_key)

lemma find_key:
  "distinct (map f xs) \<Longrightarrow> List.find (\<lambda>e. f e = k) xs = Some x \<longleftrightarrow> x \<in> set xs \<and> f x = k"
  by (induction xs) (auto simp: image_iff)

lemma find_no_key: "List.find (\<lambda>e. f e = k) xs = None \<longleftrightarrow> k \<notin> f ` set xs"
  by (auto simp: find_None_iff)

lemma distinct_concat_hash:
  assumes "\<And>i. i < length bs \<Longrightarrow> distinct (map f (bs ! i))"
    and "\<And>i x. i < length bs \<Longrightarrow> x \<in> set (bs ! i) \<Longrightarrow> g (f x) = i + off"
  shows "distinct (map f (concat bs))"
  using assms
proof (induction bs arbitrary: off)
  case (Cons b bs)
  have b: "distinct (map f b)" "\<And>x. x \<in> set b \<Longrightarrow> g (f x) = off"
    using Cons.prems(1) [of 0] Cons.prems(2) [of 0] by simp_all
  have rest: "distinct (map f (concat bs))"
    using Cons.prems(1) [of "Suc _"] Cons.prems(2) [of "Suc _"]
    by (intro Cons.IH [where off = "Suc off"]) auto
  have "f x \<noteq> f y" if "x \<in> set b" "y \<in> set (concat bs)" for x y
  proof -
    from that(2) obtain i where "i < length bs" "y \<in> set (bs ! i)"
      by (auto simp: in_set_conv_nth [of _ bs])
    then have "g (f y) = Suc i + off" using Cons.prems(2) [of "Suc i"] by simp
    with b(2) [OF that(1)] show ?thesis by auto
  qed
  with b rest show ?case by (auto simp: distinct_map inj_on_Un)
qed simp

text \<open>Distributing items over empty buckets.\<close>

lemma foldl_place:
  assumes "\<forall>x \<in> set xs. idx x < length bs"
  shows "length (foldl (place idx) bs xs) = length bs \<and>
    (\<forall>i < length bs. foldl (place idx) bs xs ! i = bs ! i @ filter (\<lambda>x. idx x = i) xs) \<and>
    sum_list (map length (foldl (place idx) bs xs)) = sum_list (map length bs) + length xs"
  using assms
proof (induction xs arbitrary: bs)
  case (Cons x xs)
  have "sum_list (map length (place idx bs x)) = Suc (sum_list (map length bs))"
    using Cons.prems elem_le_sum_list [of "idx x" "map length bs"]
    by (simp add: place_def map_update sum_list_update)
  with Cons.prems Cons.IH [of "place idx bs x"] show ?case by (auto simp: place_def)
qed simp

lemma foldl_foldl: "foldl (foldl f) a xss = foldl f a (concat xss)"
  by (induction xss arbitrary: a) simp_all


section \<open>Invariant and abstraction\<close>

definition hm_items :: "('k, 'i) mdv_hashmap \<Rightarrow> 'i set" where
  "hm_items hm = set (concat (hm_buckets hm))"

definition hm_index :: "('k, 'i) mdv_hashmap \<Rightarrow> 'k \<Rightarrow> nat" where
  "hm_index hm k = hm_hash hm k mod hm_capacity hm"

definition hm_inv :: "('k, 'i) mdv_hashmap \<Rightarrow> bool" where
  "hm_inv hm \<longleftrightarrow> 0 < hm_capacity hm \<and> length (hm_buckets hm) = hm_capacity hm \<and>
     hm_size hm = sum_list (map length (hm_buckets hm)) \<and>
     hm_size hm \<le> hm_capacity hm * 3 div 4 + 1 \<and>
     (\<forall>i < hm_capacity hm. distinct (map (hm_key hm) (hm_buckets hm ! i)) \<and>
        (\<forall>x \<in> set (hm_buckets hm ! i). hm_index hm (hm_key hm x) = i)) \<and>
     (\<forall>a b. hm_cmp hm a b = 0 \<longleftrightarrow> a = b)"

definition hm_map :: "('k, 'i) mdv_hashmap \<Rightarrow> 'k \<Rightarrow> 'i option" where
  "hm_map hm k = mdv_hashmap_find k hm"

lemma hm_bucket:
  assumes "hm_inv hm"
  shows "hm_index hm k < length (hm_buckets hm)"
    "distinct (map (hm_key hm) (hm_buckets hm ! hm_index hm k))"
    "(\<lambda>e. hm_cmp hm k (hm_key hm e) = 0) = (\<lambda>e. hm_key hm e = k)"
  using assms by (auto simp: hm_inv_def hm_index_def)

lemma set_concat_nth: "x \<in> set (concat bs) \<longleftrightarrow> (\<exists>i < length bs. x \<in> set (bs ! i))"
  by (metis in_set_conv_nth nth_mem set_concat UN_iff)

lemma set_distributed:
  assumes "0 < c" "length bs = c" "\<And>i. i < c \<Longrightarrow> bs ! i = filter (\<lambda>x. f x mod c = i) xs"
  shows "set (concat bs) = set xs"
proof (rule set_eqI)
  fix x
  have "x \<in> set (concat bs) \<longleftrightarrow> (\<exists>i < c. x \<in> set (filter (\<lambda>x. f x mod c = i) xs))"
    unfolding set_concat_nth assms(2) by (simp add: assms(3) cong: conj_cong)
  with assms(1) show "x \<in> set (concat bs) \<longleftrightarrow> x \<in> set xs" by simp
qed

lemma hm_items_nth:
  assumes "hm_inv hm"
  shows "x \<in> hm_items hm \<longleftrightarrow> x \<in> set (hm_buckets hm ! hm_index hm (hm_key hm x))"
proof
  assume "x \<in> hm_items hm"
  then obtain i where "i < length (hm_buckets hm)" "x \<in> set (hm_buckets hm ! i)"
    unfolding hm_items_def set_concat_nth by blast
  then show "x \<in> set (hm_buckets hm ! hm_index hm (hm_key hm x))" using assms by (simp add: hm_inv_def)
next
  assume "x \<in> set (hm_buckets hm ! hm_index hm (hm_key hm x))"
  then show "x \<in> hm_items hm"
    unfolding hm_items_def set_concat_nth using hm_bucket(1) [OF assms] by blast
qed

text \<open>The abstraction finds exactly the stored items by their keys.\<close>

lemma hm_map_iff:
  assumes "hm_inv hm"
  shows "hm_map hm k = Some x \<longleftrightarrow> x \<in> hm_items hm \<and> hm_key hm x = k"
  using assms hm_bucket [OF assms, of k] hm_items_nth [OF assms, of x]
  by (auto simp: hm_map_def mdv_hashmap_find_def hm_inv_def find_key simp flip: hm_index_def)

lemma hm_map_eqI:
  assumes "hm_inv hm" "hm_inv hm'" "hm_key hm' = hm_key hm" "hm_items hm' = hm_items hm"
  shows "hm_map hm' = hm_map hm"
proof (rule ext)
  fix k
  have "hm_map hm' k = Some x \<longleftrightarrow> hm_map hm k = Some x" for x
    using assms by (simp add: hm_map_iff)
  then show "hm_map hm' k = hm_map hm k" by (metis option.exhaust)
qed

text \<open>Replacing one bucket.\<close>

lemma update_bucket:
  assumes inv: "hm_inv hm" and b: "distinct (map (hm_key hm) b)"
      "\<forall>x \<in> set b. hm_index hm (hm_key hm x) = hm_index hm k"
    and n: "n + length (hm_buckets hm ! hm_index hm k) = hm_size hm + length b"
      "n \<le> hm_capacity hm * 3 div 4 + 1"
  shows "hm_inv (hm \<lparr> hm_buckets := (hm_buckets hm)[hm_index hm k := b], hm_size := n \<rparr>)"
    "hm_map (hm \<lparr> hm_buckets := (hm_buckets hm)[hm_index hm k := b], hm_size := n \<rparr>) k' =
      (if hm_index hm k' = hm_index hm k then List.find (\<lambda>e. hm_key hm e = k') b else hm_map hm k')"
proof -
  let ?hm = "hm \<lparr> hm_buckets := (hm_buckets hm)[hm_index hm k := b], hm_size := n \<rparr>"
  note i = hm_bucket [OF inv]
  have "sum_list (map length ((hm_buckets hm)[hm_index hm k := b])) = n"
    using i(1) [of k] inv n(1) elem_le_sum_list [of "hm_index hm k" "map length (hm_buckets hm)"]
    by (simp add: map_update sum_list_update hm_inv_def)
  with inv b n i(1) [of k] show "hm_inv ?hm"
    by (auto simp: hm_inv_def hm_index_def nth_list_update)
  show "hm_map ?hm k' = (if hm_index hm k' = hm_index hm k then List.find (\<lambda>e. hm_key hm e = k') b else hm_map hm k')"
    using inv i(1) [of k] i(3) [of k']
    by (simp add: hm_map_def mdv_hashmap_find_def hm_inv_def flip: hm_index_def)
qed


section \<open>Operations\<close>

lemma resize_run:
  assumes inv: "hm_inv hm" and room: "hm_size hm < c" "hm_size hm \<le> c * 3 div 4 + 1"
  shows "\<exists>hm'. mdv_hashmap_resize True c hm = (True, hm') \<and> hm_inv hm' \<and> hm_map hm' = hm_map hm \<and>
    hm_size hm' = hm_size hm \<and> hm_capacity hm' = c \<and> hm_key hm' = hm_key hm \<and>
    hm_key_offset hm' = hm_key_offset hm \<and> hm_key_size hm' = hm_key_size hm"
proof -
  let ?idx = "\<lambda>x. hm_hash hm (hm_key hm x) mod c" and ?xs = "concat (hm_buckets hm)"
  let ?bs = "foldl (place ?idx) (replicate c []) ?xs"
  let ?hm = "hm \<lparr> hm_buckets := ?bs, hm_capacity := c \<rparr>"
  have c: "0 < c" using room(1) by simp
  note p = foldl_place [of ?xs ?idx "replicate c []"]
  have bs: "length ?bs = c" "\<And>i. i < c \<Longrightarrow> ?bs ! i = filter (\<lambda>x. ?idx x = i) ?xs"
    "sum_list (map length ?bs) = length ?xs"
    using p c by (simp_all add: sum_list_replicate)
  have "distinct (map (hm_key hm) ?xs)"
    using inv by (intro distinct_concat_hash [where g = "hm_index hm" and off = 0]) (auto simp: hm_inv_def)
  then have "hm_inv ?hm"
    using inv room bs c by (auto simp: hm_inv_def hm_index_def length_concat distinct_map_filter)
  moreover have "hm_items ?hm = hm_items hm"
    using set_distributed [OF c bs(1,2)] by (simp add: hm_items_def)
  ultimately show ?thesis
    using room hm_map_eqI [OF inv, of ?hm] by (intro exI [of _ ?hm]) (simp add: mdv_hashmap_resize_def foldl_foldl)
qed

lemma find_filter_key:
  "List.find (\<lambda>e. f e = k') (filter (\<lambda>e. f e \<noteq> k) xs) = (if k' = k then None else List.find (\<lambda>e. f e = k') xs)"
  by (induction xs) auto

lemma find_append: "List.find P (xs @ ys) = (case List.find P xs of None \<Rightarrow> List.find P ys | Some x \<Rightarrow> Some x)"
  by (induction xs) auto

lemma hm_map_find: "hm_inv hm \<Longrightarrow> hm_map hm k = List.find (\<lambda>e. hm_key hm e = k) (hm_buckets hm ! hm_index hm k)"
  using hm_bucket(3) [of hm k] by (simp add: hm_map_def mdv_hashmap_find_def hm_inv_def hm_index_def)

text \<open>The bucket of a key without the item of that key.\<close>

definition bucket_without :: "('k, 'i) mdv_hashmap \<Rightarrow> 'k \<Rightarrow> 'i list" where
  "bucket_without hm k = filter (\<lambda>e. hm_key hm e \<noteq> k) (hm_buckets hm ! hm_index hm k)"

lemma bucket_without:
  assumes "hm_inv hm"
  shows "remove_first (\<lambda>e. hm_cmp hm k (hm_key hm e) = 0) (hm_buckets hm ! hm_index hm k) =
      (if hm_map hm k = None then None else Some (bucket_without hm k))"
    "length (bucket_without hm k) + (if hm_map hm k = None then 0 else 1) = length (hm_buckets hm ! hm_index hm k)"
    "hm_map hm k = None \<Longrightarrow> bucket_without hm k = hm_buckets hm ! hm_index hm k"
    "distinct (map (hm_key hm) (bucket_without hm k))" "k \<notin> hm_key hm ` set (bucket_without hm k)"
    "\<forall>x \<in> set (bucket_without hm k). hm_index hm (hm_key hm x) = hm_index hm k"
    "List.find (\<lambda>e. hm_key hm e = k') (bucket_without hm k) =
      (if k' = k then None else List.find (\<lambda>e. hm_key hm e = k') (hm_buckets hm ! hm_index hm k))"
  using assms hm_bucket [OF assms, of k]
    length_remove_key [of "hm_key hm" "hm_buckets hm ! hm_index hm k" k]
    filter_no_key [of k "hm_key hm" "hm_buckets hm ! hm_index hm k"]
  by (auto simp: bucket_without_def remove_first_key hm_map_find find_no_key find_filter_key
      distinct_map_filter hm_inv_def)

lemma hm_size_pos:
  assumes "hm_inv hm" "hm_map hm k \<noteq> None"
  shows "0 < hm_size hm"
proof -
  have "0 < length (hm_buckets hm ! hm_index hm k)" using bucket_without(2) [OF assms(1), of k] assms(2) by auto
  also have "\<dots> \<le> sum_list (map length (hm_buckets hm))"
    using hm_bucket(1) [OF assms(1), of k] elem_le_sum_list [of "hm_index hm k" "map length (hm_buckets hm)"] by simp
  finally show ?thesis using assms(1) by (simp add: hm_inv_def)
qed

abbreviation same_keys :: "('k, 'i) mdv_hashmap \<Rightarrow> ('k, 'i) mdv_hashmap \<Rightarrow> bool" where
  "same_keys hm hm' \<equiv> hm_key hm' = hm_key hm \<and> hm_key_offset hm' = hm_key_offset hm \<and> hm_key_size hm' = hm_key_size hm"

lemma insert_entry_run:
  assumes inv: "hm_inv hm" and room: "hm_size hm \<le> hm_capacity hm * 3 div 4"
  shows "\<exists>hm'. insert_entry ok item hm = Some (ok, hm') \<and> hm_inv hm' \<and> same_keys hm hm' \<and>
    hm_map hm' = (hm_map hm)(hm_key hm item := if ok then Some item else None)"
proof -
  let ?k = "hm_key hm item"
  let ?n = "if hm_map hm ?k = None then hm_size hm else hm_size hm - 1"
  let ?b = "if ok then bucket_without hm ?k @ [item] else bucket_without hm ?k"
  let ?hm = "hm \<lparr> hm_buckets := (hm_buckets hm)[hm_index hm ?k := ?b], hm_size := if ok then ?n + 1 else ?n \<rparr>"
  note b = bucket_without [OF inv, where k = ?k]
  have n: "(if ok then ?n + 1 else ?n) + length (hm_buckets hm ! hm_index hm ?k) = hm_size hm + length ?b"
    using b(2) hm_size_pos [OF inv, of ?k] by (auto split: if_splits)
  have fits: "(if ok then ?n + 1 else ?n) \<le> hm_capacity hm * 3 div 4 + 1" using room by auto
  have keys: "distinct (map (hm_key hm) ?b)" "\<forall>x \<in> set ?b. hm_index hm (hm_key hm x) = hm_index hm ?k"
    using b(4,5,6) by auto
  have cap: "hm_capacity hm \<noteq> 0" using inv by (simp add: hm_inv_def)
  note upd = update_bucket [OF inv keys n fits]
  have "hm_map ?hm = (hm_map hm)(?k := if ok then Some item else None)"
    by (rule ext) (auto simp: upd(2) b(7) find_append hm_map_find [OF inv] split: option.split)
  moreover have "insert_entry ok item hm = Some (ok, ?hm)"
    using cap b(1,3) by (simp add: insert_entry_def Let_def flip: hm_index_def)
  ultimately show ?thesis using upd(1) by (intro exI [of _ ?hm]) simp
qed

lemma erase_run:
  assumes inv: "hm_inv hm"
  shows "\<exists>hm'. mdv_hashmap_erase k hm = (hm_map hm k \<noteq> None, hm') \<and> hm_inv hm' \<and> same_keys hm hm' \<and>
    hm_map hm' = (hm_map hm)(k := None)"
proof (cases "hm_map hm k = None")
  case True
  then show ?thesis
    using inv bucket_without(1) [OF inv, of k]
    by (auto simp: mdv_hashmap_erase_def hm_inv_def fun_upd_idem simp flip: hm_index_def)
next
  case False
  obtain m where m: "hm_size hm = Suc m" using hm_size_pos [OF inv False] gr0_conv_Suc by blast
  let ?hm = "hm \<lparr> hm_buckets := (hm_buckets hm)[hm_index hm k := bucket_without hm k], hm_size := m \<rparr>"
  note b = bucket_without [OF inv, where k = k]
  have n: "m + length (hm_buckets hm ! hm_index hm k) = hm_size hm + length (bucket_without hm k)"
    using b(2) False m by auto
  have fits: "m \<le> hm_capacity hm * 3 div 4 + 1" using inv m unfolding hm_inv_def by linarith
  have cap: "hm_capacity hm \<noteq> 0" using inv by (simp add: hm_inv_def)
  note upd = update_bucket [OF inv b(4,6) n fits]
  have "hm_map ?hm = (hm_map hm)(k := None)"
    by (rule ext) (auto simp: upd(2) b(7) hm_map_find [OF inv])
  moreover have "mdv_hashmap_erase k hm = (True, ?hm)"
    using cap b(1) False m by (simp add: mdv_hashmap_erase_def Let_def flip: hm_index_def)
  ultimately show ?thesis using upd(1) False by (intro exI [of _ ?hm]) simp
qed

text \<open>Every outcome of an insertion: too small an item, no memory for more buckets, no memory
  for the entry.\<close>

definition insert_grows :: "('k, 'i) mdv_hashmap \<Rightarrow> bool" where
  "insert_grows hm \<longleftrightarrow> hm_size hm > hm_capacity hm * 3 div 4"

lemma insert_run:
  assumes inv: "hm_inv hm"
  shows "\<exists>hm'. mdv_hashmap_insert buckets_ok entry_ok item n hm =
      Some (hm_key_offset hm + hm_key_size hm \<le> n \<and> (insert_grows hm \<longrightarrow> buckets_ok) \<and> entry_ok, hm') \<and>
    hm_inv hm' \<and> same_keys hm hm' \<and>
    hm_map hm' = (if n < hm_key_offset hm + hm_key_size hm \<or> insert_grows hm \<and> \<not> buckets_ok then hm_map hm
      else (hm_map hm)(hm_key hm item := if entry_ok then Some item else None))"
proof -
  have cap: "0 < hm_capacity hm" "hm_size hm \<le> hm_capacity hm * 3 div 4 + 1"
    using inv by (simp_all add: hm_inv_def)
  consider (small) "n < hm_key_offset hm + hm_key_size hm"
    | (no_buckets) "hm_key_offset hm + hm_key_size hm \<le> n" "insert_grows hm" "\<not> buckets_ok"
    | (grown) "hm_key_offset hm + hm_key_size hm \<le> n" "insert_grows hm" "buckets_ok"
    | (plain) "hm_key_offset hm + hm_key_size hm \<le> n" "\<not> insert_grows hm"
    by linarith
  then show ?thesis
  proof cases
    case small
    then show ?thesis using inv by (simp add: mdv_hashmap_insert_def)
  next
    case no_buckets
    then show ?thesis
      using inv by (simp add: mdv_hashmap_insert_def insert_grows_def mdv_hashmap_resize_def)
  next
    case grown
    have "hm_capacity hm * 2 * 3 div 4 \<ge> hm_capacity hm * 3 div 4 + hm_capacity hm * 3 div 4"
      by linarith
    moreover have "hm_capacity hm * 3 div 4 < hm_capacity hm"
      using cap(1) by (simp add: div_less_iff_less_mult)
    moreover have "hm_capacity hm = 1 \<or> 1 \<le> hm_capacity hm * 3 div 4" using cap(1) by linarith
    ultimately have room: "hm_size hm < hm_capacity hm * 2" "hm_size hm \<le> hm_capacity hm * 2 * 3 div 4"
      using cap by linarith+
    then obtain hm1 where "mdv_hashmap_resize True (hm_capacity hm * 2) hm = (True, hm1)" "hm_inv hm1"
      "hm_map hm1 = hm_map hm" "hm_size hm1 = hm_size hm" "hm_capacity hm1 = hm_capacity hm * 2" "same_keys hm hm1"
      using resize_run [OF inv, of "hm_capacity hm * 2"] by auto
    with grown room insert_entry_run [of hm1 entry_ok item] show ?thesis
      by (auto simp: mdv_hashmap_insert_def insert_grows_def)
  next
    case plain
    with insert_entry_run [OF inv, of entry_ok item] show ?thesis
      by (auto simp: mdv_hashmap_insert_def insert_grows_def)
  qed
qed

lemma create_inv:
  assumes "0 < capacity" "\<forall>a b. cmp a b = 0 \<longleftrightarrow> a = b"
  shows "\<exists>hm. mdv_hashmap_create True True capacity off ks key hash cmp = Some hm \<and> hm_inv hm \<and>
    hm_map hm = Map.empty \<and> hm_key hm = key \<and> hm_key_offset hm = off \<and> hm_key_size hm = ks"
  using assms
  by (auto simp: mdv_hashmap_create_def hm_inv_def hm_map_def mdv_hashmap_find_def fun_eq_iff
      sum_list_replicate map_replicate)

lemma hm_size_card:
  assumes "hm_inv hm"
  shows "hm_size hm = card (dom (hm_map hm))"
proof -
  have "distinct (map (hm_key hm) (concat (hm_buckets hm)))"
    using assms by (intro distinct_concat_hash [where g = "hm_index hm" and off = 0]) (auto simp: hm_inv_def)
  from distinct_card [OF this]
  have "card (hm_key hm ` hm_items hm) = length (concat (hm_buckets hm))"
    by (simp add: hm_items_def)
  moreover have "dom (hm_map hm) = hm_key hm ` hm_items hm"
    using hm_map_iff [OF assms] by (auto simp: dom_def)
  ultimately show ?thesis using assms by (simp add: hm_inv_def length_concat)
qed


section \<open>The map interface\<close>

text \<open>What the users of the hash map rely on when memory suffices, and what a whole sequence of
  calls then amounts to.\<close>

datatype ('k, 'i) map_op = Insert 'i | Erase 'k

locale keyed_store =
  fixes inv :: "'m \<Rightarrow> bool" and lookup :: "'m \<Rightarrow> 'k \<Rightarrow> 'i option" and key :: "'m \<Rightarrow> 'i \<Rightarrow> 'k"
    and put :: "'i \<Rightarrow> 'm \<Rightarrow> 'm option" and erase :: "'k \<Rightarrow> 'm \<Rightarrow> 'm"
  assumes put: "inv m \<Longrightarrow> \<exists>m'. put i m = Some m' \<and> inv m' \<and> key m' = key m \<and> lookup m' = (lookup m)(key m i \<mapsto> i)"
    and erase: "inv m \<Longrightarrow> inv (erase k m) \<and> key (erase k m) = key m \<and> lookup (erase k m) = (lookup m)(k := None)"
begin

primrec run :: "('k, 'i) map_op list \<Rightarrow> 'm \<Rightarrow> 'm option" where
  "run [] m = Some m"
| "run (c # cs) m = (case c of
     Insert i \<Rightarrow> do { m \<leftarrow> put i m; run cs m }
   | Erase k \<Rightarrow> run cs (erase k m))"

primrec spec :: "('i \<Rightarrow> 'k) \<Rightarrow> ('k, 'i) map_op list \<Rightarrow> ('k \<Rightarrow> 'i option) \<Rightarrow> ('k \<Rightarrow> 'i option)" where
  "spec f [] m = m"
| "spec f (c # cs) m = spec f cs (case c of Insert i \<Rightarrow> m(f i \<mapsto> i) | Erase k \<Rightarrow> m(k := None))"

lemma run_spec:
  "inv m \<Longrightarrow> \<exists>m'. run cs m = Some m' \<and> inv m' \<and> lookup m' = spec (key m) cs (lookup m)"
proof (induction cs arbitrary: m)
  case (Cons c cs)
  show ?case
  proof (cases c)
    case (Insert i)
    with put [OF Cons.prems, of i] Cons.IH show ?thesis by fastforce
  next
    case (Erase k)
    with erase [OF Cons.prems, of k] Cons.IH [of "erase k m"] show ?thesis by (auto simp: fun_upd_def)
  qed
qed simp

end

definition hashmap_put :: "'i \<Rightarrow> ('k, 'i) mdv_hashmap \<Rightarrow> ('k, 'i) mdv_hashmap option" where
  "hashmap_put i hm = (case mdv_hashmap_insert True True i (hm_key_offset hm + hm_key_size hm) hm of
     Some (True, hm') \<Rightarrow> Some hm' | _ \<Rightarrow> None)"

interpretation hm: keyed_store hm_inv hm_map hm_key hashmap_put "\<lambda>k hm. snd (mdv_hashmap_erase k hm)"
proof
  show "\<exists>m'. hashmap_put i m = Some m' \<and> hm_inv m' \<and> hm_key m' = hm_key m \<and> hm_map m' = (hm_map m)(hm_key m i \<mapsto> i)"
    if "hm_inv m" for m :: "('a, 'b) mdv_hashmap" and i
    using insert_run [OF that, of True True i "hm_key_offset m + hm_key_size m"]
    by (auto simp: hashmap_put_def)
  show "hm_inv (snd (mdv_hashmap_erase k m)) \<and> hm_key (snd (mdv_hashmap_erase k m)) = hm_key m \<and>
      hm_map (snd (mdv_hashmap_erase k m)) = (hm_map m)(k := None)"
    if "hm_inv m" for m :: "('a, 'b) mdv_hashmap" and k
    using erase_run [OF that, of k] by auto
qed

primrec hashmap_exec :: "('k, 'i) map_op list \<Rightarrow> ('k, 'i) mdv_hashmap \<Rightarrow> ('k, 'i) mdv_hashmap option" where
  "hashmap_exec [] hm = Some hm"
| "hashmap_exec (c # cs) hm = (case c of
     Insert i \<Rightarrow> (case mdv_hashmap_insert True True i (hm_key_offset hm + hm_key_size hm) hm of
         Some (True, hm') \<Rightarrow> hashmap_exec cs hm'
       | _ \<Rightarrow> None)
   | Erase k \<Rightarrow> hashmap_exec cs (snd (mdv_hashmap_erase k hm)))"

primrec map_exec :: "('i \<Rightarrow> 'k) \<Rightarrow> ('k, 'i) map_op list \<Rightarrow> ('k \<Rightarrow> 'i option) \<Rightarrow> 'k \<Rightarrow> 'i option" where
  "map_exec f [] m = m"
| "map_exec f (c # cs) m = map_exec f cs (case c of Insert i \<Rightarrow> m(f i \<mapsto> i) | Erase k \<Rightarrow> m(k := None))"

lemma hashmap_exec_run: "hashmap_exec cs hm = hm.run cs hm"
  by (induction cs arbitrary: hm)
    (auto simp: hashmap_put_def split: map_op.split option.split bool.split)

lemma map_exec_spec: "map_exec f cs m = hm.spec f cs m"
  by (induction cs arbitrary: m) (simp_all split: map_op.split)

text \<open>
  C27. Refinement: on a well-formed hash map with enough memory, every sequence of
  insertions and removals acts on the stored items as updates and deletions act
  on a finite map, whatever collisions and growth it causes; lookups find exactly
  the items of that map, and the size is their number.
\<close>

theorem hashmap_refines_map:
  assumes "hm_inv hm"
  shows "\<exists>hm'. hashmap_exec cs hm = Some hm' \<and> hm_inv hm' \<and>
    (\<forall>k. mdv_hashmap_find k hm' = map_exec (hm_key hm) cs (\<lambda>k. mdv_hashmap_find k hm) k) \<and>
    hm_size hm' = card (dom (map_exec (hm_key hm) cs (\<lambda>k. mdv_hashmap_find k hm)))"
proof -
  have eq: "(\<lambda>k. mdv_hashmap_find k hm) = hm_map hm" by (simp add: hm_map_def fun_eq_iff)
  from hm.run_spec [OF assms, of cs] obtain hm' where run: "hm.run cs hm = Some hm'" "hm_inv hm'"
    "hm_map hm' = hm.spec (hm_key hm) cs (hm_map hm)" by blast
  have "mdv_hashmap_find k hm' = hm.spec (hm_key hm) cs (hm_map hm) k" for k
    unfolding run(3) [symmetric] by (simp add: hm_map_def)
  with run show ?thesis by (simp add: hashmap_exec_run map_exec_spec eq hm_size_card)
qed

definition char_map :: "(nat, nat \<times> char) mdv_hashmap" where
  "char_map = \<lparr> hm_rc = 1, hm_capacity = 2, hm_size = 0, hm_key_offset = 0, hm_key_size = 8,
     hm_buckets = [[], []], hm_hash = (\<lambda>k. k), hm_cmp = (\<lambda>a b. int a - int b), hm_key = fst \<rparr>"

lemma char_map_inv: "hm_inv char_map"
  by (simp add: hm_inv_def char_map_def less_2_cases_iff)

lemma hashmap_refines_map_witness:
  "\<exists>hm'. hashmap_exec [Insert (1, CHR ''a''), Insert (3, CHR ''b''), Insert (1, CHR ''c''), Erase 3] char_map = Some hm' \<and>
    mdv_hashmap_find 1 hm' = Some (1, CHR ''c'') \<and> mdv_hashmap_find 3 hm' = None"
  using hashmap_refines_map [OF char_map_inv, of "[Insert (1, CHR ''a''), Insert (3, CHR ''b''), Insert (1, CHR ''c''), Erase 3]"]
  by (auto simp: char_map_def)

text \<open>
  C37. Insertion under memory pressure: the insertion fails exactly when the item
  is too small, when the table has to grow and cannot, or when the entry cannot
  be allocated. In the last case the old item of the same key is lost. The map
  stays well-formed on every path.
\<close>

theorem hashmap_insert_outcome:
  assumes "hm_inv hm"
  shows "\<exists>ok hm'. mdv_hashmap_insert buckets_ok entry_ok item n hm = Some (ok, hm') \<and> hm_inv hm' \<and>
    (ok \<longleftrightarrow> hm_key_offset hm + hm_key_size hm \<le> n \<and> (insert_grows hm \<longrightarrow> buckets_ok) \<and> entry_ok) \<and>
    (\<forall>k. mdv_hashmap_find k hm' =
      (if n < hm_key_offset hm + hm_key_size hm \<or> insert_grows hm \<and> \<not> buckets_ok \<or> k \<noteq> hm_key hm item
       then mdv_hashmap_find k hm
       else if entry_ok then Some item else None))"
proof -
  from insert_run [OF assms, of buckets_ok entry_ok item n] obtain hm' where
    "mdv_hashmap_insert buckets_ok entry_ok item n hm =
      Some (hm_key_offset hm + hm_key_size hm \<le> n \<and> (insert_grows hm \<longrightarrow> buckets_ok) \<and> entry_ok, hm')"
    "hm_inv hm'"
    "hm_map hm' = (if n < hm_key_offset hm + hm_key_size hm \<or> insert_grows hm \<and> \<not> buckets_ok then hm_map hm
      else (hm_map hm)(hm_key hm item := if entry_ok then Some item else None))"
    by blast
  moreover from this(3) have "mdv_hashmap_find k hm' =
      (if n < hm_key_offset hm + hm_key_size hm \<or> insert_grows hm \<and> \<not> buckets_ok \<or> k \<noteq> hm_key hm item
       then mdv_hashmap_find k hm
       else if entry_ok then Some item else None)" for k
    by (auto simp: fun_eq_iff hm_map_def)
  ultimately show ?thesis by simp
qed

lemma hashmap_insert_outcome_witness:
  "\<exists>ok hm'. mdv_hashmap_insert True False (1, CHR ''b'') 8
      (char_map \<lparr> hm_buckets := [[], [(1, CHR ''a'')]], hm_size := 1 \<rparr>) = Some (ok, hm') \<and>
    \<not> ok \<and> mdv_hashmap_find 1 hm' = None"
proof -
  have "hm_inv (char_map \<lparr> hm_buckets := [[], [(1, CHR ''a'')]], hm_size := 1 \<rparr>)"
    by (auto simp: hm_inv_def char_map_def hm_index_def less_2_cases_iff)
  from hashmap_insert_outcome [OF this, of True False "(1, CHR ''b'')" 8] show ?thesis
    by (auto simp: char_map_def insert_grows_def)
qed

text \<open>
  Clearing empties every bucket but keeps the size: afterwards the map finds
  nothing and still reports the old number of items.
\<close>

lemma hashmap_clear_keeps_size:
  assumes "hm_inv hm"
  shows "mdv_hashmap_find k (mdv_hashmap_clear hm) = None \<and> hm_size (mdv_hashmap_clear hm) = hm_size hm"
proof (cases "hm_size hm = 0")
  case True
  with assms have "mdv_hashmap_find k hm = None"
    using hm_size_pos [OF assms, of k] by (cases "mdv_hashmap_find k hm") (simp_all add: hm_map_def)
  with True show ?thesis by (simp add: mdv_hashmap_clear_def)
next
  case False
  with assms show ?thesis by (simp add: mdv_hashmap_clear_def mdv_hashmap_find_def hm_inv_def)
qed

end
