(* ===== verification/Mdv_Lrucache.thy ===== *)
theory Mdv_Lrucache
  imports Mdv_List Mdv_Hashmap
begin

text \<open>
  The least-recently-used cache of \<^verbatim>\<open>mdv_platform/mdv_lrucache.c\<close>, composed of the hash
  map and the doubly linked list: the map leads from a key to the address of a
  list entry, the list keeps the entries in order of use. The entries live in the
  explicit store of the list, so that an entry reached through the map and
  through the list is the same entry. None stands for a null dereference or a
  remainder by zero.
\<close>

type_synonym 'd mdv_lruitem = "u32 \<times> 'd"
type_synonym mdv_lrumap_entry = "u32 \<times> addr option"

record 'd mdv_lrucache =
  lru_rc :: int
  lru_capacity :: nat
  lru_keys :: "(u32, mdv_lrumap_entry) mdv_hashmap"
  lru_values :: mdv_list
  lru_store :: "'d mdv_lruitem store"

definition mdv_lrukey_hash :: "u32 \<Rightarrow> nat" where
  "mdv_lrukey_hash key = unat key"

definition mdv_lrukey_cmp :: "u32 \<Rightarrow> u32 \<Rightarrow> int" where
  "mdv_lrukey_cmp a b = (if a > b then 1 else if a < b then - 1 else 0)"

text \<open>The outcomes of the allocations: the cache, the hash map, its buckets. Without a rollbacker
  an allocated cache is not freed when the map cannot be created; the result is the same.\<close>

definition mdv_lrucache_create :: "bool \<Rightarrow> bool \<Rightarrow> bool \<Rightarrow> 'd mdv_lruitem store \<Rightarrow> nat \<Rightarrow> 'd mdv_lrucache option" where
  "mdv_lrucache_create cache_ok hm_ok buckets_ok store capacity =
     (if \<not> cache_ok then None
      else
        case mdv_hashmap_create hm_ok buckets_ok capacity 0 4 fst mdv_lrukey_hash mdv_lrukey_cmp of
          None \<Rightarrow> None
        | Some keys \<Rightarrow> Some \<lparr> lru_rc = 1, lru_capacity = capacity, lru_keys = keys,
            lru_values = null_list, lru_store = store \<rparr>)"

definition mdv_lrucache_retain :: "'d mdv_lrucache \<Rightarrow> 'd mdv_lrucache" where
  "mdv_lrucache_retain c = c \<lparr> lru_rc := lru_rc c + 1 \<rparr>"

text \<open>The last release gives the map and the list entries back; what remains is the store.\<close>

definition mdv_lrucache_free :: "'d mdv_lrucache \<Rightarrow> 'd mdv_lruitem store option" where
  "mdv_lrucache_free c = map_option snd (mdv_list_clear (lru_values c, lru_store c))"

definition mdv_lrucache_release :: "'d mdv_lrucache \<Rightarrow> (int \<times> ('d mdv_lruitem store + 'd mdv_lrucache)) option" where
  "mdv_lrucache_release c =
     (let rc = lru_rc c - 1 in
      if rc = 0 then map_option (\<lambda>h. (rc, Inl h)) (mdv_lrucache_free c)
      else Some (rc, Inr (c \<lparr> lru_rc := rc \<rparr>)))"

text \<open>Writing through the pointer to a stored map entry.\<close>

definition set_map_entry :: "u32 \<Rightarrow> addr option \<Rightarrow> (u32, mdv_lrumap_entry) mdv_hashmap \<Rightarrow> (u32, mdv_lrumap_entry) mdv_hashmap" where
  "set_map_entry key e hm =
     hm \<lparr> hm_buckets := map (map (\<lambda>i. if hm_key hm i = key then (fst i, e) else i)) (hm_buckets hm) \<rparr>"

definition with_list :: "mdv_list \<times> 'd mdv_lruitem store \<Rightarrow> 'd mdv_lrucache \<Rightarrow> 'd mdv_lrucache" where
  "with_list lh c = c \<lparr> lru_values := fst lh, lru_store := snd lh \<rparr>"

text \<open>Excluding an entry from the list and appending it again.\<close>

definition move_to_back :: "addr \<Rightarrow> mdv_list \<times> 'a store \<Rightarrow> (mdv_list \<times> 'a store) option" where
  "move_to_back e lh = do { lh \<leftarrow> mdv_list_exclude e lh; mdv_list_emplace_back e lh }"

definition put_found ::
  "'d mdv_lruitem \<Rightarrow> addr option \<Rightarrow> 'd mdv_lrucache \<Rightarrow> ((bool \<times> 'd mdv_lruitem option) \<times> 'd mdv_lrucache) option" where
  "put_found item entry c = do {
     e \<leftarrow> entry;
     lh \<leftarrow> move_to_back e (lru_values c, lru_store c);
     cell \<leftarrow> snd lh e;
     let d = snd (e_data cell);
     if d \<noteq> snd item then do {
       h \<leftarrow> set_data e (fst (e_data cell), snd item) (snd lh);
       Some ((True, Some (fst item, d)), with_list (fst lh, h) c)
     } else Some ((True, None), with_list lh c)
   }"

definition put_new_entry ::
  "addr option \<Rightarrow> bool \<Rightarrow> bool \<Rightarrow> 'd mdv_lruitem \<Rightarrow> 'd mdv_lrucache \<Rightarrow>
   ((bool \<times> 'd mdv_lruitem option) \<times> 'd mdv_lrucache) option" where
  "put_new_entry new buckets_ok entry_ok item c =
     (case new of
        None \<Rightarrow> Some ((False, None), c)
      | Some e \<Rightarrow> do {
          (ok, keys) \<leftarrow> mdv_hashmap_insert buckets_ok entry_ok (fst item, Some e) 16 (lru_keys c);
          if \<not> ok then Some ((False, None), c \<lparr> lru_keys := keys \<rparr>)
          else do {
            lh \<leftarrow> mdv_list_emplace_back e
              (lru_values c, (lru_store c)(e \<mapsto> \<lparr> e_next = None, e_prev = None, e_data = item \<rparr>));
            Some ((True, None), with_list lh (c \<lparr> lru_keys := keys \<rparr>))
          }
        })"

definition put_recycled ::
  "bool \<Rightarrow> bool \<Rightarrow> 'd mdv_lruitem \<Rightarrow> 'd mdv_lrucache \<Rightarrow> ((bool \<times> 'd mdv_lruitem option) \<times> 'd mdv_lrucache) option" where
  "put_recycled buckets_ok entry_ok item c = do {
     (ok, keys) \<leftarrow> mdv_hashmap_insert buckets_ok entry_ok (fst item, None) 16 (lru_keys c);
     if \<not> ok then Some ((False, None), c \<lparr> lru_keys := keys \<rparr>)
     else do {
       e \<leftarrow> l_next (lru_values c);
       cell \<leftarrow> lru_store c e;
       let old = e_data cell;
       h \<leftarrow> set_data e item (lru_store c);
       let keys = set_map_entry (fst item) (Some e) keys;
       lh \<leftarrow> move_to_back e (lru_values c, h);
       let keys = snd (mdv_hashmap_erase (fst old) keys);
       Some ((True, Some old), with_list lh (c \<lparr> lru_keys := keys \<rparr>))
     }
   }"

definition mdv_lrucache_put ::
  "addr option \<Rightarrow> bool \<Rightarrow> bool \<Rightarrow> 'd mdv_lruitem \<Rightarrow> 'd mdv_lrucache \<Rightarrow>
   ((bool \<times> 'd mdv_lruitem option) \<times> 'd mdv_lrucache) option" where
  "mdv_lrucache_put new buckets_ok entry_ok item c =
     (case mdv_hashmap_find (fst item) (lru_keys c) of
        Some m \<Rightarrow> put_found item (snd m) c
      | None \<Rightarrow>
          if hm_size (lru_keys c) < lru_capacity c then put_new_entry new buckets_ok entry_ok item c
          else put_recycled buckets_ok entry_ok item c)"

definition mdv_lrucache_get :: "u32 \<Rightarrow> 'd mdv_lrucache \<Rightarrow> ('d option \<times> 'd mdv_lrucache) option" where
  "mdv_lrucache_get key c =
     (case mdv_hashmap_find key (lru_keys c) of
        None \<Rightarrow> Some (None, c)
      | Some m \<Rightarrow> do {
          e \<leftarrow> snd m;
          lh \<leftarrow> move_to_back e (lru_values c, lru_store c);
          cell \<leftarrow> snd lh e;
          Some (Some (snd (e_data cell)), with_list lh c)
        })"


section \<open>Writing through map entries\<close>

lemma find_map_key:
  assumes "\<And>i. f (g i) = f i"
  shows "List.find (\<lambda>i. f i = k) (map g xs) = map_option g (List.find (\<lambda>i. f i = k) xs)"
  using assms by (induction xs) simp_all

lemma map_items_run:
  assumes inv: "hm_inv hm" and g: "\<And>i. hm_key hm (g i) = hm_key hm i"
  shows "hm_inv (hm \<lparr> hm_buckets := map (map g) (hm_buckets hm) \<rparr>)"
    "hm_map (hm \<lparr> hm_buckets := map (map g) (hm_buckets hm) \<rparr>) k = map_option g (hm_map hm k)"
proof -
  let ?hm = "hm \<lparr> hm_buckets := map (map g) (hm_buckets hm) \<rparr>"
  show inv': "hm_inv ?hm" using inv g by (auto simp: hm_inv_def hm_index_def comp_def)
  have "hm_index ?hm k = hm_index hm k" by (simp add: hm_index_def)
  then show "hm_map ?hm k = map_option g (hm_map hm k)"
    unfolding hm_map_find [OF inv'] hm_map_find [OF inv]
    using hm_bucket(1) [OF inv, of k] find_map_key [of "hm_key hm" g, OF g] by simp
qed

lemma set_map_entry_run:
  assumes inv: "hm_inv hm" and key: "hm_key hm = fst"
  shows "hm_inv (set_map_entry k e hm)" "same_keys hm (set_map_entry k e hm)"
    "hm_map (set_map_entry k e hm) k' = map_option (\<lambda>i. if k' = k then (fst i, e) else i) (hm_map hm k')"
proof -
  have g: "hm_key hm (if hm_key hm i = k then (fst i, e) else i) = hm_key hm i" for i by (simp add: key)
  note run = map_items_run [OF inv g, folded set_map_entry_def]
  show "hm_inv (set_map_entry k e hm)" by (rule run(1))
  show "same_keys hm (set_map_entry k e hm)" by (simp add: set_map_entry_def)
  show "hm_map (set_map_entry k e hm) k' = map_option (\<lambda>i. if k' = k then (fst i, e) else i) (hm_map hm k')"
  proof (cases "hm_map hm k'")
    case None
    then show ?thesis using run(2) [of k'] by simp
  next
    case (Some i)
    then have "hm_key hm i = k'" using hm_map_iff [OF inv] by blast
    then show ?thesis using run(2) [of k'] Some by simp
  qed
qed


section \<open>Invariant\<close>

text \<open>
  The list holds the entries es with pairwise different keys, not more than the
  capacity, and the map leads from exactly these keys to the entries' addresses.
  The abstraction of the cache is the sequence of its items, least recently used
  first.
\<close>

definition entry_of :: "(addr \<times> 'd mdv_lruitem) list \<Rightarrow> u32 \<Rightarrow> mdv_lrumap_entry option" where
  "entry_of es k = map_of (map (\<lambda>x. (fst (snd x), (fst (snd x), Some (fst x)))) es) k"

definition lru_rep :: "'d mdv_lrucache \<Rightarrow> (addr \<times> 'd mdv_lruitem) list \<Rightarrow> bool" where
  "lru_rep c es \<longleftrightarrow> entries (lru_values c, lru_store c) es \<and> hm_inv (lru_keys c) \<and> hm_key (lru_keys c) = fst \<and>
     hm_key_offset (lru_keys c) = 0 \<and> hm_key_size (lru_keys c) = 4 \<and>
     distinct (map (fst \<circ> snd) es) \<and> length es \<le> lru_capacity c \<and> 0 < lru_capacity c \<and>
     hm_map (lru_keys c) = entry_of es"

lemma entry_of_iff:
  "distinct (map (fst \<circ> snd) es) \<Longrightarrow> entry_of es k = Some x \<longleftrightarrow> (\<exists>e d. (e, k, d) \<in> set es \<and> x = (k, Some e))"
  by (auto simp: entry_of_def map_of_eq_Some_iff comp_def image_iff) force

lemma entry_of_none: "entry_of es k = None \<longleftrightarrow> k \<notin> (fst \<circ> snd) ` set es"
  by (auto simp: entry_of_def map_of_eq_None_iff image_iff)

lemma entry_of_append: "entry_of (xs @ ys) k = (case entry_of xs k of None \<Rightarrow> entry_of ys k | Some m \<Rightarrow> Some m)"
  by (simp add: entry_of_def map_add_def split: option.split)

lemma entry_of_Cons: "entry_of ((e, k0, d) # es) k = (if k = k0 then Some (k0, Some e) else entry_of es k)"
  by (simp add: entry_of_def)

lemma entry_of_single: "entry_of [(e, item)] k = (if k = fst item then Some (fst item, Some e) else None)"
  by (simp add: entry_of_def)

lemma entry_of_cong:
  assumes "distinct (map (fst \<circ> snd) es)" "distinct (map (fst \<circ> snd) es')"
    "\<And>e k. (\<exists>d. (e, k, d) \<in> set es) \<longleftrightarrow> (\<exists>d. (e, k, d) \<in> set es')"
  shows "entry_of es = entry_of es'"
proof (rule ext)
  fix k
  have "entry_of es k = Some x \<longleftrightarrow> entry_of es' k = Some x" for x
    unfolding entry_of_iff [OF assms(1)] entry_of_iff [OF assms(2)] using assms(3) by blast
  then show "entry_of es k = entry_of es' k" by (metis option.exhaust)
qed

lemma rep_size:
  assumes "lru_rep c es"
  shows "hm_size (lru_keys c) = length es"
proof -
  have "dom (entry_of es) = set (map (fst \<circ> snd) es)"
    by (auto simp: dom_def entry_of_def map_of_eq_None_iff image_iff not_None_eq [symmetric] simp del: not_None_eq)
  then show ?thesis
    using assms hm_size_card [of "lru_keys c"] distinct_card [of "map (fst \<circ> snd) es"]
    by (simp add: lru_rep_def)
qed

lemma move_to_back_run:
  assumes "entries lh (us @ (e, d) # vs)"
  shows "\<exists>lh'. move_to_back e lh = Some lh' \<and> entries lh' (us @ vs @ [(e, d)])"
  using dl.touch_moves_back [OF assms] by (auto simp: dl.touch_def move_to_back_def)


section \<open>The specification\<close>

text \<open>A cache of capacity n as the sequence of its items, least recently used first.\<close>

definition spec_touch :: "u32 \<Rightarrow> 'd \<Rightarrow> (u32 \<times> 'd) list \<Rightarrow> (u32 \<times> 'd) list" where
  "spec_touch k d xs = filter (\<lambda>x. fst x \<noteq> k) xs @ [(k, d)]"

definition spec_put :: "nat \<Rightarrow> u32 \<times> 'd \<Rightarrow> (u32 \<times> 'd) list \<Rightarrow> (u32 \<times> 'd) option \<times> (u32 \<times> 'd) list" where
  "spec_put n item xs =
     (case map_of xs (fst item) of
        Some d \<Rightarrow> (if d = snd item then None else Some (fst item, d), spec_touch (fst item) (snd item) xs)
      | None \<Rightarrow> if length xs < n then (None, xs @ [item]) else (Some (hd xs), drop 1 xs @ [item]))"

definition spec_get :: "u32 \<Rightarrow> (u32 \<times> 'd) list \<Rightarrow> 'd option \<times> (u32 \<times> 'd) list" where
  "spec_get k xs = (case map_of xs k of None \<Rightarrow> (None, xs) | Some d \<Rightarrow> (Some d, spec_touch k d xs))"

text \<open>A key found in the map has its entry at a known place of the list.\<close>

lemma rep_found:
  assumes "lru_rep c es" "mdv_hashmap_find k (lru_keys c) = Some m"
  obtains us e d vs where "es = us @ (e, k, d) # vs" "m = (k, Some e)"
    "map_of (map snd es) k = Some d" "filter (\<lambda>x. fst x \<noteq> k) (map snd es) = map snd (us @ vs)"
proof -
  have dist: "distinct (map (fst \<circ> snd) es)" and "entry_of es k = Some m"
    using assms by (simp_all add: lru_rep_def hm_map_def [symmetric])
  then obtain e d where ed: "(e, k, d) \<in> set es" "m = (k, Some e)" by (auto simp: entry_of_iff)
  then obtain us vs where es: "es = us @ (e, k, d) # vs" by (meson split_list)
  have k: "k \<notin> fst ` set (map snd us)" "k \<notin> fst ` set (map snd vs)"
    using dist unfolding es by (auto simp: image_image)
  note filter_no_key [OF k(1)] filter_no_key [OF k(2)]
  then have "filter (\<lambda>x. fst x \<noteq> k) (map snd es) = map snd (us @ vs)" by (simp add: es)
  moreover have "map_of (map snd es) k = Some d"
    using k(1) by (simp add: es map_add_def map_of_eq_None_iff [THEN iffD2])
  ultimately show ?thesis using that es ed(2) by blast
qed

lemma rep_missing:
  assumes "lru_rep c es" "mdv_hashmap_find k (lru_keys c) = None"
  shows "map_of (map snd es) k = None" "k \<notin> (fst \<circ> snd) ` set es"
proof -
  have "entry_of es k = None" using assms by (simp add: lru_rep_def hm_map_def [symmetric])
  then show "k \<notin> (fst \<circ> snd) ` set es" by (simp add: entry_of_none)
  then show "map_of (map snd es) k = None" by (auto simp: map_of_eq_None_iff image_iff)
qed

lemma rep_moved:
  assumes "lru_rep c (us @ (e, k, d) # vs)" "entries lh (us @ vs @ [(e, k, d')])"
  shows "lru_rep (with_list lh c) (us @ vs @ [(e, k, d')])"
proof -
  let ?es = "us @ (e, k, d) # vs" and ?es' = "us @ vs @ [(e, k, d')]"
  have dist: "distinct (map (fst \<circ> snd) ?es)" "distinct (map (fst \<circ> snd) ?es')"
    using assms(1) by (auto simp: lru_rep_def)
  have "entry_of ?es = entry_of ?es'" by (rule entry_of_cong [OF dist]) auto
  with assms dist show ?thesis by (simp add: lru_rep_def with_list_def)
qed

lemma lru_get_run:
  assumes "lru_rep c es"
  shows "\<exists>es' c'. mdv_lrucache_get k c = Some (fst (spec_get k (map snd es)), c') \<and> lru_rep c' es' \<and>
    map snd es' = snd (spec_get k (map snd es))"
proof (cases "mdv_hashmap_find k (lru_keys c)")
  case None
  then show ?thesis
    using assms rep_missing [OF assms None] by (auto simp: mdv_lrucache_get_def spec_get_def)
next
  case (Some m)
  from rep_found [OF assms Some] obtain us e d vs where es: "es = us @ (e, k, d) # vs" "m = (k, Some e)"
    "map_of (map snd es) k = Some d" "filter (\<lambda>x. fst x \<noteq> k) (map snd es) = map snd (us @ vs)" .
  have "entries (lru_values c, lru_store c) (us @ (e, k, d) # vs)" using assms es(1) by (simp add: lru_rep_def)
  from move_to_back_run [OF this] obtain lh where lh: "move_to_back e (lru_values c, lru_store c) = Some lh"
    "entries lh (us @ vs @ [(e, k, d)])" by blast
  have "data_at lh e = Some (k, d)" using dl.rep_at [OF lh(2), of e "(k, d)"] by simp
  then obtain cell where "snd lh e = Some cell" "e_data cell = (k, d)" by (auto simp: data_at_def)
  with Some es lh rep_moved [of c us e k d vs lh d] assms show ?thesis
    by (intro exI [of _ "us @ vs @ [(e, k, d)]"] exI [of _ "with_list lh c"])
      (simp add: mdv_lrucache_get_def spec_get_def spec_touch_def)
qed

lemma put_found_run:
  assumes "lru_rep c es" "mdv_hashmap_find (fst item) (lru_keys c) = Some m"
  shows "\<exists>es' c'. put_found item (snd m) c = Some ((True, fst (spec_put n item (map snd es))), c') \<and>
    lru_rep c' es' \<and> map snd es' = snd (spec_put n item (map snd es)) \<and> lru_capacity c' = lru_capacity c"
proof -
  obtain k x where item: "item = (k, x)" by (cases item)
  from rep_found [OF assms] obtain us e d vs where es: "es = us @ (e, k, d) # vs" "m = (k, Some e)"
    "map_of (map snd es) k = Some d" "filter (\<lambda>x. fst x \<noteq> k) (map snd es) = map snd (us @ vs)"
    unfolding item fst_conv .
  have "entries (lru_values c, lru_store c) (us @ (e, k, d) # vs)" using assms es(1) by (simp add: lru_rep_def)
  from move_to_back_run [OF this] obtain l h where lh: "move_to_back e (lru_values c, lru_store c) = Some (l, h)"
    "entries (l, h) (us @ vs @ [(e, k, d)])" by force
  have "data_at (l, h) e = Some (k, d)" using dl.rep_at [OF lh(2), of e "(k, d)"] by simp
  then obtain cell where cell: "h e = Some cell" "e_data cell = (k, d)" by (auto simp: data_at_def)
  have rep: "lru_rep c (us @ (e, k, d) # vs)" using assms(1) es(1) by simp
  show ?thesis
  proof (cases "d = x")
    case True
    then show ?thesis
      using es lh cell rep_moved [OF rep lh(2)]
      by (intro exI [of _ "us @ vs @ [(e, k, d)]"] exI [of _ "with_list (l, h) c"])
        (simp add: put_found_def spec_put_def spec_touch_def item with_list_def)
  next
    case False
    obtain h' where h': "set_data e (k, x) h = Some h'" "entries (l, h') (us @ vs @ [(e, k, x)])"
      using set_data_entries [of l h "us @ vs" e "(k, d)" "[]" "(k, x)"] lh(2) by auto
    with False es lh cell rep_moved [OF rep h'(2)] show ?thesis
      by (intro exI [of _ "us @ vs @ [(e, k, x)]"] exI [of _ "with_list (l, h') c"])
        (simp add: put_found_def spec_put_def spec_touch_def item with_list_def)
  qed
qed

text \<open>Inserting a map entry for a key the map lacks.\<close>

lemma insert_missing:
  assumes "lru_rep c es" "k \<notin> (fst \<circ> snd) ` set es"
  shows "\<exists>ok keys. mdv_hashmap_insert buckets_ok entry_ok (k, a) 16 (lru_keys c) = Some (ok, keys) \<and>
    hm_inv keys \<and> same_keys (lru_keys c) keys \<and> (buckets_ok \<and> entry_ok \<longrightarrow> ok) \<and>
    hm_map keys = (if ok then (entry_of es)(k \<mapsto> (k, a)) else entry_of es)"
proof -
  have inv: "hm_inv (lru_keys c)" "hm_map (lru_keys c) = entry_of es" "hm_key (lru_keys c) = fst"
    "hm_key_offset (lru_keys c) + hm_key_size (lru_keys c) \<le> 16"
    using assms(1) by (simp_all add: lru_rep_def)
  have "(entry_of es)(k := None) = entry_of es"
    using assms(2) by (intro fun_upd_idem entry_of_none [THEN iffD2])
  with insert_run [OF inv(1), of buckets_ok entry_ok "(k, a)" 16] inv show ?thesis
    by (auto split: if_splits)
qed

lemma rep_unchanged:
  "lru_rep c es \<Longrightarrow> hm_inv keys \<Longrightarrow> same_keys (lru_keys c) keys \<Longrightarrow> hm_map keys = entry_of es \<Longrightarrow>
   lru_rep (c \<lparr> lru_keys := keys \<rparr>) es"
  by (simp add: lru_rep_def)

lemma put_new_entry_run:
  assumes rep: "lru_rep c es" and k: "fst item \<notin> (fst \<circ> snd) ` set es" and room: "length es < lru_capacity c"
    and fresh: "\<forall>e. new = Some e \<longrightarrow> e \<notin> fst ` set es"
  shows "\<exists>ok es' c'. put_new_entry new buckets_ok entry_ok item c = Some ((ok, None), c') \<and> lru_rep c' es' \<and>
    lru_capacity c' = lru_capacity c \<and> (new \<noteq> None \<and> buckets_ok \<and> entry_ok \<longrightarrow> ok) \<and>
    map snd es' = (if ok then map snd es @ [item] else map snd es)"
proof (cases new)
  case None
  then show ?thesis using rep by (auto simp: put_new_entry_def)
next
  case (Some e)
  obtain ok keys where ins: "mdv_hashmap_insert buckets_ok entry_ok (fst item, Some e) 16 (lru_keys c) = Some (ok, keys)"
    "hm_inv keys" "same_keys (lru_keys c) keys" "buckets_ok \<and> entry_ok \<longrightarrow> ok"
    "hm_map keys = (if ok then (entry_of es)(fst item \<mapsto> (fst item, Some e)) else entry_of es)"
    using insert_missing [OF rep k, of buckets_ok entry_ok "Some e"] by blast
  show ?thesis
  proof (cases ok)
    case True
    let ?h = "(lru_store c)(e \<mapsto> \<lparr> e_next = None, e_prev = None, e_data = item \<rparr>)"
    have e: "e \<notin> fst ` set es" using fresh Some by simp
    then have "entries (lru_values c, ?h) es" using rep by (simp add: lru_rep_def entries_def)
    from emplace_back_entries [OF this _ e] obtain l h where
      lh: "mdv_list_emplace_back e (lru_values c, ?h) = Some (l, h)" "entries (l, h) (es @ [(e, item)])" by auto
    have "entry_of (es @ [(e, item)]) = (entry_of es)(fst item \<mapsto> (fst item, Some e))"
      using k unfolding entry_of_none [symmetric]
      by (auto simp: fun_eq_iff entry_of_append entry_of_single split: option.split)
    with True ins lh rep k room have "lru_rep (with_list (l, h) (c \<lparr> lru_keys := keys \<rparr>)) (es @ [(e, item)])"
      by (simp add: lru_rep_def with_list_def)
    with True ins lh Some show ?thesis
      by (intro exI [of _ ok] exI [of _ "es @ [(e, item)]"]) (auto simp: put_new_entry_def with_list_def)
  next
    case False
    with ins Some rep_unchanged [OF rep ins(2,3)] show ?thesis
      by (intro exI [of _ ok] exI [of _ es]) (auto simp: put_new_entry_def)
  qed
qed

lemma put_recycled_run:
  assumes rep: "lru_rep c es" and k: "fst item \<notin> (fst \<circ> snd) ` set es" and full: "\<not> length es < lru_capacity c"
  shows "\<exists>ok es' c'. put_recycled buckets_ok entry_ok item c = Some ((ok, if ok then Some (snd (hd es)) else None), c') \<and>
    lru_rep c' es' \<and> lru_capacity c' = lru_capacity c \<and> (buckets_ok \<and> entry_ok \<longrightarrow> ok) \<and>
    map snd es' = (if ok then drop 1 (map snd es) @ [item] else map snd es)"
proof -
  from rep full obtain e k0 d0 vs where es: "es = (e, k0, d0) # vs" by (cases es) (auto simp: lru_rep_def)
  have dist: "distinct (map (fst \<circ> snd) es)" using rep by (simp add: lru_rep_def)
  obtain ok keys where ins: "mdv_hashmap_insert buckets_ok entry_ok (fst item, None) 16 (lru_keys c) = Some (ok, keys)"
    "hm_inv keys" "same_keys (lru_keys c) keys" "buckets_ok \<and> entry_ok \<longrightarrow> ok"
    "hm_map keys = (if ok then (entry_of es)(fst item \<mapsto> (fst item, None)) else entry_of es)"
    using insert_missing [OF rep k, of buckets_ok entry_ok None] by blast
  show ?thesis
  proof (cases ok)
    case True
    let ?keys1 = "set_map_entry (fst item) (Some e) keys"
    let ?keys2 = "snd (mdv_hashmap_erase k0 ?keys1)"
    have ent: "entries (lru_values c, lru_store c) ((e, k0, d0) # vs)" using rep es by (simp add: lru_rep_def)
    then obtain h where h: "set_data e item (lru_store c) = Some h" "entries (lru_values c, h) ((e, item) # vs)"
      using set_data_entries [of "lru_values c" "lru_store c" "[]" e "(k0, d0)" vs item] by auto
    from move_to_back_run [of "(lru_values c, h)" "[]" e item vs] h(2)
    obtain lh where lh: "move_to_back e (lru_values c, h) = Some lh" "entries lh (vs @ [(e, item)])" by auto
    have first: "l_next (lru_values c) = Some e" "\<exists>cell. lru_store c e = Some cell \<and> e_data cell = (k0, d0)"
      using ent by (auto simp: entries_def)
    have key: "hm_key keys = fst" using ins(3) rep by (simp add: lru_rep_def)
    note w = set_map_entry_run [OF ins(2) key, of "fst item" "Some e"]
    from erase_run [OF w(1), of k0] w(2) ins(3)
    have e2: "hm_inv ?keys2" "same_keys (lru_keys c) ?keys2" "hm_map ?keys2 = (hm_map ?keys1)(k0 := None)"
      by auto
    have ne: "k0 \<noteq> fst item" and "k0 \<notin> (fst \<circ> snd) ` set vs" "fst item \<notin> (fst \<circ> snd) ` set vs"
      using k dist by (auto simp: es)
    then have gone: "entry_of vs k0 = None" "entry_of vs (fst item) = None" by (simp_all only: entry_of_none not_False_eq_True)
    have "hm_map ?keys2 = entry_of (vs @ [(e, item)])"
    proof (rule ext)
      fix k'
      have "hm_map keys k' = (if k' = fst item then Some (fst item, None) else entry_of es k')"
        using True ins(5) by simp
      then show "hm_map ?keys2 k' = entry_of (vs @ [(e, item)]) k'"
        using ne gone
        by (cases "k' = k0"; cases "k' = fst item"; cases "entry_of vs k'")
          (simp_all add: e2(3) w(3) entry_of_append entry_of_single es entry_of_Cons)
    qed
    with True ins e2 lh rep k dist es have "lru_rep (with_list lh (c \<lparr> lru_keys := ?keys2 \<rparr>)) (vs @ [(e, item)])"
      by (auto simp: lru_rep_def with_list_def)
    with True ins h lh first es show ?thesis
      by (intro exI [of _ ok] exI [of _ "vs @ [(e, item)]"]) (auto simp: put_recycled_def with_list_def)
  next
    case False
    with ins rep_unchanged [OF rep ins(2,3)] show ?thesis
      by (intro exI [of _ ok] exI [of _ es]) (auto simp: put_recycled_def)
  qed
qed

lemma lru_release_frees:
  assumes "lru_rep c es" "lru_rc c = 1"
  shows "mdv_lrucache_release c = Some (0, Inl (lru_store c |` (- fst ` set es)))"
proof -
  have "linked (lru_store c) None es None" "distinct (map fst es)" "l_next (lru_values c) = first_of es None"
    using assms(1) by (simp_all add: lru_rep_def entries_def)
  then have "clear_loop (l_next (lru_values c)) (lru_store c) = Some (lru_store c |` (- fst ` set es))"
    by (simp add: clear_entries)
  with assms(2) show ?thesis by (simp add: mdv_lrucache_release_def mdv_lrucache_free_def mdv_list_clear_def)
qed

lemma create_rep:
  assumes "0 < capacity"
  shows "\<exists>c. mdv_lrucache_create True True True h capacity = Some c \<and> lru_rep c [] \<and> lru_capacity c = capacity"
proof -
  have "\<forall>a b. mdv_lrukey_cmp a b = 0 \<longleftrightarrow> a = b" by (auto simp: mdv_lrukey_cmp_def)
  from create_inv [OF assms this, of 0 4 "fst :: mdv_lrumap_entry \<Rightarrow> u32" mdv_lrukey_hash] obtain keys :: "(u32, mdv_lrumap_entry) mdv_hashmap" where
    "mdv_hashmap_create True True capacity 0 4 fst mdv_lrukey_hash mdv_lrukey_cmp = Some keys" "hm_inv keys"
    "hm_map keys = Map.empty" "hm_key keys = fst" "hm_key_offset keys = 0" "hm_key_size keys = 4" by blast
  with assms show ?thesis
    by (simp add: mdv_lrucache_create_def lru_rep_def entries_def null_list_def entry_of_def fun_eq_iff)
qed

text \<open>
  C26. Refinement: for a cache in use and a list entry allocated at an address not
  in use, a put call never follows a bad pointer. If it reports success, the
  cache holds the items of the specification in its order of use (the item put
  last, the least recently used one evicted when the cache was full), and the old
  item handed back is the replaced or evicted one; if it reports failure, the
  items and their order are what they were. With enough memory it succeeds. The
  number of items never exceeds the capacity.
\<close>

theorem lru_put_refines:
  assumes "lru_rep c es" "\<forall>e. new = Some e \<longrightarrow> e \<notin> fst ` set es"
  shows "\<exists>ok old es' c'. mdv_lrucache_put new buckets_ok entry_ok item c = Some ((ok, old), c') \<and>
    lru_rep c' es' \<and> length es' \<le> lru_capacity c \<and> (new \<noteq> None \<and> buckets_ok \<and> entry_ok \<longrightarrow> ok) \<and>
    (ok \<longrightarrow> (old, map snd es') = spec_put (lru_capacity c) item (map snd es)) \<and>
    (\<not> ok \<longrightarrow> old = None \<and> map snd es' = map snd es)"
proof (cases "mdv_hashmap_find (fst item) (lru_keys c)")
  case (Some m)
  from put_found_run [OF assms(1) Some, of "lru_capacity c"] obtain es' c' where
    "put_found item (snd m) c = Some ((True, fst (spec_put (lru_capacity c) item (map snd es))), c')"
    "lru_rep c' es'" "map snd es' = snd (spec_put (lru_capacity c) item (map snd es))" "lru_capacity c' = lru_capacity c"
    by blast
  moreover from this have "length es' \<le> lru_capacity c" by (simp add: lru_rep_def)
  ultimately show ?thesis using Some
    by (intro exI [of _ True] exI [of _ "fst (spec_put (lru_capacity c) item (map snd es))"] exI [of _ es'])
      (simp add: mdv_lrucache_put_def)
next
  case None
  note miss = rep_missing [OF assms(1) None]
  show ?thesis
  proof (cases "length es < lru_capacity c")
    case True
    from put_new_entry_run [OF assms(1) miss(2) True assms(2), of buckets_ok entry_ok] obtain ok es' c' where
      "put_new_entry new buckets_ok entry_ok item c = Some ((ok, None), c')" "lru_rep c' es'"
      "lru_capacity c' = lru_capacity c" "new \<noteq> None \<and> buckets_ok \<and> entry_ok \<longrightarrow> ok"
      "map snd es' = (if ok then map snd es @ [item] else map snd es)" by blast
    moreover from this have "length es' \<le> lru_capacity c" by (simp add: lru_rep_def)
    ultimately show ?thesis using True None miss(1) rep_size [OF assms(1)]
      by (intro exI [of _ ok] exI [of _ None] exI [of _ es']) (simp add: mdv_lrucache_put_def spec_put_def)
  next
    case False
    then have "es \<noteq> []" using assms(1) by (auto simp: lru_rep_def)
    from put_recycled_run [OF assms(1) miss(2) False, of buckets_ok entry_ok] obtain ok es' c' where
      "put_recycled buckets_ok entry_ok item c = Some ((ok, if ok then Some (snd (hd es)) else None), c')"
      "lru_rep c' es'" "lru_capacity c' = lru_capacity c" "buckets_ok \<and> entry_ok \<longrightarrow> ok"
      "map snd es' = (if ok then drop 1 (map snd es) @ [item] else map snd es)" by blast
    moreover from this have "length es' \<le> lru_capacity c" by (simp add: lru_rep_def)
    ultimately show ?thesis using False None miss(1) rep_size [OF assms(1)] \<open>es \<noteq> []\<close>
      by (intro exI [of _ ok] exI [of _ "if ok then Some (snd (hd es)) else None"] exI [of _ es'])
        (simp add: mdv_lrucache_put_def spec_put_def hd_map)
  qed
qed

lemma lru_put_refines_witness:
  "\<exists>c old es' c'. mdv_lrucache_create True True True Map.empty 2 = Some c \<and>
    mdv_lrucache_put (Some 7) True True (1, CHR ''a'') c = Some ((True, old), c') \<and>
    lru_rep c' es' \<and> map snd es' = [(1, CHR ''a'')]"
proof -
  obtain c :: "char mdv_lrucache" where c: "mdv_lrucache_create True True True Map.empty 2 = Some c" "lru_rep c []"
    "lru_capacity c = 2" using create_rep [of 2 Map.empty] by auto
  obtain old es' c' where put: "mdv_lrucache_put (Some 7) True True (1, CHR ''a'') c = Some ((True, old), c')" "lru_rep c' es'"
    "(old, map snd es') = spec_put (lru_capacity c) (1, CHR ''a'') []"
    using lru_put_refines [OF c(2), of "Some 7" True True "(1, CHR ''a'')"] by simp metis
  then have "map snd es' = [(1, CHR ''a'')]" using c(3) by (simp add: spec_put_def)
  with c(1) put(1,2) show ?thesis by (intro exI conjI)
qed

text \<open>
  Lookup: a get call returns the data of the key, if it is in the cache, and
  makes it the most recently used item; otherwise it changes nothing.
\<close>

lemma lru_get_refines:
  assumes "lru_rep c es"
  shows "\<exists>r es' c'. mdv_lrucache_get k c = Some (r, c') \<and> lru_rep c' es' \<and> (r, map snd es') = spec_get k (map snd es)"
  using lru_get_run [OF assms, of k] by (metis prod.collapse)

end
