(* ===== verification/Mdv_Vector.thy ===== *)
theory Mdv_Vector
  imports Mdv_Prelude
begin

text \<open>
  The growable array of \<^verbatim>\<open>mdv_platform/generic/mdv_vector.c\<close>. The data block is the list
  of the items it has room for, of which the first size are in use. Positions
  count items; only \<^verbatim>\<open>mdv_vector_erase\<close> takes a pointer, given as its byte offset
  from the data block. Numbers of items and bytes are those of a \<^verbatim>\<open>size_t\<close>: the sums
  and products by which the vector grows wrap at 2^64. The outcome of an
  allocation and the contents of fresh memory are arguments. None stands for not
  returning, or for a block too small for the items the vector is to hold.
\<close>

record 'a mdv_vector =
  v_rc :: int
  v_capacity :: nat
  v_size :: nat
  v_item_size :: nat
  v_data :: "'a list"

text \<open>The items that fit a block whose size is computed for n of them.\<close>

definition block_items :: "nat \<Rightarrow> nat \<Rightarrow> nat" where
  "block_items item_size n = (n * item_size mod 2 ^ 64) div item_size"

definition mdv_vector_create :: "bool \<Rightarrow> bool \<Rightarrow> 'a \<Rightarrow> nat \<Rightarrow> nat \<Rightarrow> 'a mdv_vector option" where
  "mdv_vector_create vector_ok data_ok junk capacity item_size =
     (if vector_ok \<and> data_ok
      then Some \<lparr> v_rc = 1, v_capacity = capacity, v_size = 0, v_item_size = item_size,
                  v_data = replicate (block_items item_size capacity) junk \<rparr>
      else None)"

text \<open>A copy of items to a position of the block; None is a write past its end.\<close>

definition put_items :: "nat \<Rightarrow> 'a list \<Rightarrow> 'a list \<Rightarrow> 'a list option" where
  "put_items i items block = (if i + length items \<le> length block then Some (blit block i items) else None)"

definition mdv_vector_clone :: "bool \<Rightarrow> bool \<Rightarrow> 'a \<Rightarrow> 'a mdv_vector \<Rightarrow> nat \<Rightarrow> 'a mdv_vector option option" where
  "mdv_vector_clone vector_ok data_ok junk v capacity =
     (let capacity = (if capacity < v_size v then v_size v else capacity) in
      case mdv_vector_create vector_ok data_ok junk capacity (v_item_size v) of
        None \<Rightarrow> Some None
      | Some w \<Rightarrow> map_option (\<lambda>d. Some (w \<lparr> v_data := d, v_size := v_size v \<rparr>))
          (put_items 0 (take (v_size v) (v_data v)) (v_data w)))"

text \<open>
  Only the reference counter looks at the pointer itself: a null pointer, the
  address of the shared \<^verbatim>\<open>mdv_empty_vector\<close>, or a vector of its own. The last release
  frees the vector (None).
\<close>

datatype 'a vector_ptr = Null_ptr | Empty_vector | Vector_ptr "'a mdv_vector"

definition mdv_vector_retain :: "'a vector_ptr \<Rightarrow> 'a vector_ptr option" where
  "mdv_vector_retain p =
     (case p of
        Null_ptr \<Rightarrow> None
      | Empty_vector \<Rightarrow> Some p
      | Vector_ptr v \<Rightarrow> Some (Vector_ptr (v \<lparr> v_rc := v_rc v + 1 \<rparr>)))"

definition mdv_vector_release :: "'a vector_ptr \<Rightarrow> int \<times> 'a vector_ptr option" where
  "mdv_vector_release p =
     (case p of
        Vector_ptr v \<Rightarrow>
          let refs = v_rc v - 1 in (refs, if refs = 0 then None else Some (Vector_ptr (v \<lparr> v_rc := refs \<rparr>)))
      | _ \<Rightarrow> (0, Some p))"

lemma vector_retain_release:
  assumes "mdv_vector_retain p = Some q" "\<And>v. p = Vector_ptr v \<Longrightarrow> 0 < v_rc v"
  shows "snd (mdv_vector_release q) = Some p"
  using assms by (auto simp: mdv_vector_retain_def mdv_vector_release_def split: vector_ptr.splits)

partial_function (option) grow :: "nat \<Rightarrow> nat \<Rightarrow> nat option" where
  "grow need new_capacity =
     (if need > new_capacity then grow need (new_capacity * 2 mod 2 ^ 64) else Some new_capacity)"

definition mdv_vector_resize_if_required ::
  "bool \<Rightarrow> 'a \<Rightarrow> nat \<Rightarrow> 'a mdv_vector \<Rightarrow> (bool \<times> 'a mdv_vector) option" where
  "mdv_vector_resize_if_required ok junk count v =
     (case grow ((v_size v + count) mod 2 ^ 64) (v_capacity v) of
        None \<Rightarrow> None
      | Some c \<Rightarrow>
          if c > v_capacity v then
            if ok then
              let n = block_items (v_item_size v) c
              in Some (True, v \<lparr> v_data := take n (v_data v) @ replicate (n - length (v_data v)) junk, v_capacity := c \<rparr>)
            else Some (False, v)
          else Some (True, v))"

definition mdv_vector_append ::
  "bool \<Rightarrow> 'a \<Rightarrow> 'a list \<Rightarrow> 'a mdv_vector \<Rightarrow> (nat option \<times> 'a mdv_vector) option" where
  "mdv_vector_append ok junk items v =
     (case mdv_vector_resize_if_required ok junk (length items) v of
        None \<Rightarrow> None
      | Some (False, v) \<Rightarrow> Some (None, v)
      | Some (True, v) \<Rightarrow> map_option (\<lambda>d. (Some (v_size v), v \<lparr> v_data := d, v_size := v_size v + length items \<rparr>))
          (put_items (v_size v) items (v_data v)))"

definition mdv_vector_push_back :: "bool \<Rightarrow> 'a \<Rightarrow> 'a \<Rightarrow> 'a mdv_vector \<Rightarrow> (nat option \<times> 'a mdv_vector) option" where
  "mdv_vector_push_back ok junk item v =
     (case mdv_vector_resize_if_required ok junk 1 v of
        None \<Rightarrow> None
      | Some (False, v) \<Rightarrow> Some (None, v)
      | Some (True, v) \<Rightarrow> map_option (\<lambda>d. (Some (v_size v), v \<lparr> v_data := d, v_size := v_size v + 1 \<rparr>))
          (put_items (v_size v) [item] (v_data v)))"

definition mdv_vector_resize :: "bool \<Rightarrow> 'a \<Rightarrow> 'a \<Rightarrow> nat \<Rightarrow> 'a mdv_vector \<Rightarrow> (bool \<times> 'a mdv_vector) option" where
  "mdv_vector_resize ok junk zero n v =
     (if n \<le> v_size v then Some (True, v \<lparr> v_size := n \<rparr>)
      else if n \<le> v_capacity v then
        map_option (\<lambda>d. (True, v \<lparr> v_data := d, v_size := n \<rparr>))
          (put_items (v_size v) (replicate (n - v_size v) zero) (v_data v))
      else
        (case mdv_vector_resize_if_required ok junk (n - v_size v) v of
           None \<Rightarrow> None
         | Some (False, v) \<Rightarrow> Some (False, v)
         | Some (True, v) \<Rightarrow> map_option (\<lambda>d. (True, v \<lparr> v_data := d, v_size := n \<rparr>))
             (put_items (v_size v) (replicate (n - v_size v) zero) (v_data v))))"

definition mdv_vector_empty :: "'a mdv_vector \<Rightarrow> bool" where
  "mdv_vector_empty v \<longleftrightarrow> v_size v = 0"

definition mdv_vector_clear :: "'a mdv_vector \<Rightarrow> 'a mdv_vector" where
  "mdv_vector_clear v = v \<lparr> v_size := 0 \<rparr>"

definition mdv_vector_at :: "'a mdv_vector \<Rightarrow> nat \<Rightarrow> 'a option" where
  "mdv_vector_at v pos = (if pos \<ge> v_size v then None else Some (v_data v ! pos))"

function find_loop :: "('a \<Rightarrow> bool) \<Rightarrow> 'a mdv_vector \<Rightarrow> nat \<Rightarrow> nat option" where
  "find_loop p v i = (if i < v_size v then if p (v_data v ! i) then Some i else find_loop p v (i + 1) else None)"
  by auto
termination by (relation "measure (\<lambda>(p, v, i). v_size v - i)") auto

declare find_loop.simps [simp del]

definition mdv_vector_find :: "('a \<Rightarrow> 'b \<Rightarrow> bool) \<Rightarrow> 'b \<Rightarrow> 'a mdv_vector \<Rightarrow> nat option" where
  "mdv_vector_find equ item v = find_loop (\<lambda>x. equ x item) v 0"

text \<open>The loop of \<^verbatim>\<open>mdv_vector_erase\<close>: item src moves down by one until the end.\<close>

function shift_loop :: "nat \<Rightarrow> nat \<Rightarrow> 'a list \<Rightarrow> 'a list" where
  "shift_loop src n d = (if src < n then shift_loop (src + 1) n (d[src - 1 := d ! src]) else d)"
  by auto
termination by (relation "measure (\<lambda>(src, n, d). n - src)") auto

declare shift_loop.simps [simp del]

definition mdv_vector_erase :: "int \<Rightarrow> 'a mdv_vector \<Rightarrow> 'a mdv_vector" where
  "mdv_vector_erase offs v =
     (if 0 \<le> offs \<and> offs < int (v_item_size v * v_size v) then
        let idx = nat offs div v_item_size v in
        if idx * v_item_size v = nat offs
        then v \<lparr> v_data := shift_loop (idx + 1) (v_size v) (v_data v), v_size := v_size v - 1 \<rparr>
        else v
      else v)"


section \<open>Growth\<close>

text \<open>The capacity that is meant, over unbounded numbers: the first doubling that suffices.\<close>

function doubled :: "nat \<Rightarrow> nat \<Rightarrow> nat" where
  "doubled need c = (if need \<le> c \<or> c = 0 then c else doubled need (2 * c))"
  by auto
termination by (relation "measure (\<lambda>(need, c). need - c)") auto

declare doubled.simps [simp del]

lemma doubled_bounds:
  assumes "0 < c"
  shows "need \<le> doubled need c" "need \<le> c \<Longrightarrow> doubled need c = c" "c < need \<Longrightarrow> doubled need c < 2 * need"
    "\<exists>k. doubled need c = c * 2 ^ k"
proof -
  have "need \<le> doubled need c \<and> (c < need \<longrightarrow> doubled need c < 2 * need) \<and> (\<exists>k. doubled need c = c * 2 ^ k)"
    using assms
  proof (induction need c rule: doubled.induct)
    case (1 need c)
    show ?case
    proof (cases "need \<le> c")
      case True
      then show ?thesis by (simp add: doubled.simps [of need c] exI [of _ 0])
    next
      case False
      with 1 have ih: "need \<le> doubled need (2 * c)" "2 * c < need \<longrightarrow> doubled need (2 * c) < 2 * need" "\<exists>k. doubled need (2 * c) = 2 * c * 2 ^ k"
        by simp_all
      have "doubled need (2 * c) = 2 * c" if "need \<le> 2 * c" using that by (simp add: doubled.simps [of need "2 * c"])
      moreover from ih(3) have "\<exists>k. doubled need (2 * c) = c * 2 ^ k" by (metis mult.assoc mult.commute power_Suc)
      moreover have "doubled need c = doubled need (2 * c)" using False "1.prems" by (simp add: doubled.simps [of need c])
      ultimately show ?thesis using ih(1,2) False by (cases "need \<le> 2 * c") auto
    qed
  qed
  then show "need \<le> doubled need c" "c < need \<Longrightarrow> doubled need c < 2 * need" "\<exists>k. doubled need c = c * 2 ^ k" by blast+
  show "doubled need c = c" if "need \<le> c" using that by (simp add: doubled.simps [of need c])
qed

lemma grow_doubled:
  assumes "0 < c" "need \<le> 2 ^ 63"
  shows "grow need c = Some (doubled need c)"
  using assms
proof (induction need c rule: doubled.induct)
  case (1 need c)
  show ?case
  proof (cases "need \<le> c")
    case True
    then show ?thesis by (simp add: grow.simps [of need c] doubled.simps [of need c])
  next
    case False
    then have "c * 2 mod 2 ^ 64 = 2 * c" using "1.prems"(2) by simp
    then have "grow need c = grow need (2 * c)" using False by (subst grow.simps) (simp only: if_True not_le)
    with False 1 show ?thesis by (simp add: doubled.simps [of need c])
  qed
qed

lemma grow_zero: "0 < need \<Longrightarrow> grow need 0 = None"
proof -
  have "c = 0 \<longrightarrow> need = 0" if "grow need c = Some c'" for need c c'
    using that
    by (rule grow.raw_induct [where P = "\<lambda>need c c'. c = 0 \<longrightarrow> need = 0", rotated]) (auto split: if_splits)
  then show "0 < need \<Longrightarrow> grow need 0 = None" by (cases "grow need 0") auto
qed

text \<open>Beyond 2^63 the doubling wraps to 0.\<close>

lemma grow_wraps:
  assumes "2 ^ 63 < need" "k < 64"
  shows "grow need (2 ^ k) = None"
  using assms(2)
proof (induction "63 - k" arbitrary: k)
  case 0
  then have "k = 63" by simp
  then show ?case using assms(1) grow_zero [of need] by (subst grow.simps) simp
next
  case (Suc n)
  then have k: "Suc k < 64" "n = 63 - Suc k" by auto
  then have "(2 :: nat) ^ Suc k < 2 ^ 64" by (intro power_strict_increasing) simp_all
  moreover have "(2 :: nat) ^ k \<le> 2 ^ 63" using k(1) by (intro power_increasing) simp_all
  ultimately have "grow need (2 ^ k) = grow need (2 ^ Suc k)"
    using assms(1) by (simp add: grow.simps [of need "2 ^ k"] mult.commute)
  with Suc.hyps(1) [OF k(2,1)] show ?case by simp
qed


section \<open>The items in use\<close>

definition vec_wf :: "'a mdv_vector \<Rightarrow> bool" where
  "vec_wf v \<longleftrightarrow> length (v_data v) = v_capacity v \<and> v_size v \<le> v_capacity v \<and> 0 < v_capacity v \<and> 0 < v_item_size v \<and>
     v_capacity v * v_item_size v < 2 ^ 64"

definition vec_items :: "'a mdv_vector \<Rightarrow> 'a list" where
  "vec_items v = take (v_size v) (v_data v)"

lemma length_vec_items [simp]: "vec_wf v \<Longrightarrow> length (vec_items v) = v_size v"
  by (simp add: vec_items_def vec_wf_def)

lemma block_items_fit [simp]: "0 < item_size \<Longrightarrow> n * item_size < 2 ^ 64 \<Longrightarrow> block_items item_size n = n"
  by (simp add: block_items_def)

lemma take_blit: "i + length xs \<le> length buf \<Longrightarrow> take (i + length xs) (blit buf i xs) = take i buf @ xs"
  by (simp add: blit_def)

text \<open>A reservation for n items: the room there is, or the doubled room, or nothing changes.\<close>

definition room :: "bool \<Rightarrow> nat \<Rightarrow> nat \<Rightarrow> nat" where
  "room ok n cap = (if ok then doubled n cap else cap)"

lemma vec_reserve_run:
  assumes "vec_wf v" "(v_size v + count) * v_item_size v \<le> 2 ^ 63"
  shows "\<exists>w. mdv_vector_resize_if_required ok junk count v = Some (ok \<or> v_size v + count \<le> v_capacity v, w) \<and> vec_wf w \<and>
    vec_items w = vec_items v \<and> v_size w = v_size v \<and> v_item_size w = v_item_size v \<and> v_capacity w = room ok (v_size v + count) (v_capacity v)"
proof -
  let ?n = "v_size v + count" and ?c = "v_capacity v" and ?i = "v_item_size v"
  have wf: "0 < ?c" "0 < ?i" "?c * ?i < 2 ^ 64" "length (v_data v) = ?c" "v_size v \<le> ?c" using assms(1) by (simp_all add: vec_wf_def)
  have n: "?n \<le> ?n * ?i" using wf(2) by simp
  then have n: "?n \<le> 2 ^ 63" using assms(2) by linarith
  then have "?n mod 2 ^ 64 = ?n" by simp
  then have grow: "grow (?n mod 2 ^ 64) ?c = Some (doubled ?n ?c)" using grow_doubled [OF wf(1) n] by simp
  show ?thesis
  proof (cases "?n \<le> ?c")
    case True
    then show ?thesis
      unfolding mdv_vector_resize_if_required_def grow using assms(1) doubled_bounds(2) [OF wf(1) True] by (simp add: room_def)
  next
    case False
    then have d: "?n \<le> doubled ?n ?c" "doubled ?n ?c < 2 * ?n" using doubled_bounds(1,3) [OF wf(1), of ?n] by simp_all
    have "doubled ?n ?c * ?i < 2 * ?n * ?i" using d(2) wf(2) by simp
    also have "\<dots> \<le> 2 ^ 64" using mult_le_mono2 [OF assms(2), of 2] by (simp add: algebra_simps)
    finally have fits: "doubled ?n ?c * ?i < 2 ^ 64" .
    then show ?thesis
      unfolding mdv_vector_resize_if_required_def grow
      using False d(1) wf assms(1) by (simp add: room_def Let_def vec_wf_def vec_items_def)
  qed
qed

lemma append_run:
  fixes ok :: bool
  assumes "vec_wf v" "(v_size v + length xs) * v_item_size v \<le> 2 ^ 63"
  defines "r \<equiv> ok \<or> v_size v + length xs \<le> v_capacity v"
  shows "\<exists>w. mdv_vector_append ok junk xs v = Some (if r then Some (v_size v) else None, w) \<and> vec_wf w \<and>
    vec_items w = (if r then vec_items v @ xs else vec_items v) \<and> v_item_size w = v_item_size v \<and>
    v_capacity w = room ok (v_size v + length xs) (v_capacity v)"
proof -
  obtain u where u: "mdv_vector_resize_if_required ok junk (length xs) v = Some (r, u)" "vec_wf u"
    "vec_items u = vec_items v" "v_size u = v_size v" "v_item_size u = v_item_size v" "v_capacity u = room ok (v_size v + length xs) (v_capacity v)"
    using vec_reserve_run [OF assms(1,2), of ok junk] by (auto simp: r_def)
  show ?thesis
  proof (cases r)
    case True
    have "0 < v_capacity v" using assms(1) by (simp add: vec_wf_def)
    then have fits: "v_size u + length xs \<le> length (v_data u)"
      using True u(2,4,6) doubled_bounds(1) [of "v_capacity v" "v_size v + length xs"] by (auto simp: r_def room_def vec_wf_def)
    then have "take (v_size u + length xs) (blit (v_data u) (v_size u) xs) = vec_items v @ xs"
      using u(3) take_blit [of "v_size u" xs "v_data u"] by (simp add: vec_items_def)
    moreover have "length (blit (v_data u) (v_size u) xs) = length (v_data u)" using fits by simp
    ultimately show ?thesis using True u fits by (auto simp: mdv_vector_append_def put_items_def vec_wf_def vec_items_def)
  next
    case False
    with u show ?thesis by (auto simp: mdv_vector_append_def)
  qed
qed

lemma push_back_append: "mdv_vector_push_back ok junk x v = mdv_vector_append ok junk [x] v"
  by (simp add: mdv_vector_push_back_def mdv_vector_append_def split: option.split bool.split)

text \<open>A resize that is more than a cut appends zeros.\<close>

lemma resize_append:
  assumes "vec_wf v" "v_size v < n" "n * v_item_size v \<le> 2 ^ 63"
  shows "mdv_vector_resize ok junk zero n v =
    map_option (map_prod (\<lambda>p. p \<noteq> None) (\<lambda>w. w)) (mdv_vector_append ok junk (replicate (n - v_size v) zero) v)"
proof -
  let ?z = "replicate (n - v_size v) zero"
  have n: "v_size v + (n - v_size v) = n" using assms(2) by simp
  obtain u where u: "mdv_vector_resize_if_required ok junk (n - v_size v) v = Some (ok \<or> n \<le> v_capacity v, u)" "v_size u = v_size v"
    using vec_reserve_run [OF assms(1), of "n - v_size v" ok junk] assms(3) n by auto
  have same: "u = v" if "n \<le> v_capacity v"
  proof -
    have "0 < v_item_size v" "0 < v_capacity v" using assms(1) by (simp_all add: vec_wf_def)
    then have "n \<le> 2 ^ 63" using assms(3) by (metis One_nat_def Suc_leI le_trans mult.right_neutral mult_le_mono2)
    then have "n mod 2 ^ 64 = n" by simp
    then show ?thesis
      using u(1) that n doubled_bounds(2) grow_doubled [OF \<open>0 < v_capacity v\<close> \<open>n \<le> 2 ^ 63\<close>] \<open>0 < v_capacity v\<close>
      by (simp add: mdv_vector_resize_if_required_def)
  qed
  show ?thesis
  proof (cases "ok \<or> n \<le> v_capacity v")
    case True
    with u same assms(2) show ?thesis
      by (auto simp: mdv_vector_resize_def mdv_vector_append_def n option.map_comp intro!: option.map_cong)
  next
    case False
    with u assms(2) show ?thesis by (auto simp: mdv_vector_resize_def mdv_vector_append_def)
  qed
qed

text \<open>Erasing closes the gap.\<close>

lemma shift_loop_items:
  assumes "0 < src" "src \<le> n" "n \<le> length d"
  shows "length (shift_loop src n d) = length d \<and>
    take (n - 1) (shift_loop src n d) = take (src - 1) d @ drop src (take n d)"
  using assms
proof (induction "n - src" arbitrary: src d)
  case 0
  then have "src = n" by simp
  then show ?case by (simp add: shift_loop.simps [of n])
next
  case (Suc m)
  let ?d = "d[src - 1 := d ! src]"
  have "src < n" using Suc.hyps(2) by simp
  then have step: "shift_loop src n d = shift_loop (src + 1) n ?d"
    by (simp add: shift_loop.simps [of src])
  have "m = n - (src + 1)" "0 < src + 1" "src + 1 \<le> n" "n \<le> length ?d" using Suc.hyps(2) Suc.prems by auto
  note ih = Suc.hyps(1) [OF this]
  have "take src ?d = take (src - 1) d @ [d ! src]"
    using Suc.prems Suc.hyps(2) by (cases src) (simp_all add: take_Suc_conv_app_nth list_update_append)
  moreover have "drop (src + 1) (take n ?d) = drop (src + 1) (take n d)"
    using Suc.prems by (simp add: take_update_swap)
  moreover have "drop src (take n d) = d ! src # drop (src + 1) (take n d)"
    using Suc.prems Suc.hyps(2) by (subst Cons_nth_drop_Suc [symmetric]) auto
  ultimately show ?case using ih by (simp add: step)
qed

lemma vec_erase_run:
  assumes "vec_wf v" "i < v_size v" "offs = int (i * v_item_size v)"
  shows "vec_wf (mdv_vector_erase offs v)"
    "vec_items (mdv_vector_erase offs v) = take i (vec_items v) @ drop (Suc i) (vec_items v)"
    "v_item_size (mdv_vector_erase offs v) = v_item_size v" "v_capacity (mdv_vector_erase offs v) = v_capacity v"
proof -
  let ?d = "shift_loop (i + 1) (v_size v) (v_data v)"
  have pos: "0 < v_item_size v" using assms(1) by (simp add: vec_wf_def)
  have "i * v_item_size v < v_size v * v_item_size v" using assms(2) pos by simp
  then have offs: "0 \<le> offs" "offs < int (v_item_size v * v_size v)" "nat offs = i * v_item_size v"
    unfolding assms(3) by (simp_all only: of_nat_0_le_iff of_nat_less_iff nat_int mult.commute)
  then have eq: "mdv_vector_erase offs v = v \<lparr> v_data := ?d, v_size := v_size v - 1 \<rparr>"
    using pos by (simp add: mdv_vector_erase_def)
  have d: "length ?d = length (v_data v)"
    "take (v_size v - 1) ?d = take i (v_data v) @ drop (Suc i) (take (v_size v) (v_data v))"
    using shift_loop_items [of "i + 1" "v_size v" "v_data v"] assms(1,2) by (auto simp: vec_wf_def)
  show "vec_wf (mdv_vector_erase offs v)" using assms(1,2) d(1) by (auto simp: eq vec_wf_def)
  show "vec_items (mdv_vector_erase offs v) = take i (vec_items v) @ drop (Suc i) (vec_items v)"
    using assms(2) d(2) by (simp add: eq vec_items_def min_def)
  show "v_item_size (mdv_vector_erase offs v) = v_item_size v" "v_capacity (mdv_vector_erase offs v) = v_capacity v"
    by (simp_all add: eq)
qed

lemma find_loop_first:
  assumes "find_loop p v i = Some k"
  shows "i \<le> k \<and> k < v_size v \<and> p (v_data v ! k) \<and> (\<forall>j. i \<le> j \<and> j < k \<longrightarrow> \<not> p (v_data v ! j))"
  using assms
proof (induction p v i rule: find_loop.induct)
  case (1 p v i)
  then have i: "i < v_size v" by (simp add: find_loop.simps [of p v i] split: if_splits)
  show ?case
  proof (cases "p (v_data v ! i)")
    case True
    with 1(2) i show ?thesis by (auto simp: find_loop.simps [of p v i])
  next
    case False
    with 1(2) i have "find_loop p v (i + 1) = Some k" by (simp add: find_loop.simps [of p v i])
    from 1(1) [OF i False this]
    have k: "i + 1 \<le> k" "k < v_size v" "p (v_data v ! k)" "\<forall>j. i + 1 \<le> j \<and> j < k \<longrightarrow> \<not> p (v_data v ! j)"
      by simp_all
    moreover have "\<not> p (v_data v ! j)" if "i \<le> j" "j < k" for j
      using that k(4) False by (cases "j = i") auto
    ultimately show ?thesis by simp
  qed
qed


section \<open>Refinement\<close>

datatype 'a vec_op = PushBack 'a | Append "'a list" | Resize nat | ClearAll | EraseAt nat

text \<open>Each call comes with the outcome of its allocation and answers whether it took effect.\<close>

fun vec_exec :: "'a \<Rightarrow> 'a \<Rightarrow> bool \<times> 'a vec_op \<Rightarrow> 'a mdv_vector \<Rightarrow> (bool \<times> 'a mdv_vector) option" where
  "vec_exec junk zero (ok, PushBack x) v = map_option (map_prod (\<lambda>p. p \<noteq> None) (\<lambda>w. w)) (mdv_vector_push_back ok junk x v)"
| "vec_exec junk zero (ok, Append xs) v = map_option (map_prod (\<lambda>p. p \<noteq> None) (\<lambda>w. w)) (mdv_vector_append ok junk xs v)"
| "vec_exec junk zero (ok, Resize n) v = mdv_vector_resize ok junk zero n v"
| "vec_exec junk zero (ok, ClearAll) v = Some (True, mdv_vector_clear v)"
| "vec_exec junk zero (ok, EraseAt i) v = Some (i < v_size v, mdv_vector_erase (int (i * v_item_size v)) v)"

primrec vec_run :: "'a \<Rightarrow> 'a \<Rightarrow> (bool \<times> 'a vec_op) list \<Rightarrow> 'a mdv_vector \<Rightarrow> (bool list \<times> 'a mdv_vector) option" where
  "vec_run junk zero [] v = Some ([], v)"
| "vec_run junk zero (c # cs) v =
     (case vec_exec junk zero c v of
        None \<Rightarrow> None
      | Some (r, v) \<Rightarrow> (case vec_run junk zero cs v of None \<Rightarrow> None | Some (rs, v) \<Rightarrow> Some (r # rs, v)))"

text \<open>
  The specification: a list and a capacity. A call that adds items succeeds if they
  fit or the allocation does; then the capacity is doubled until they fit.
\<close>

fun list_op :: "'a \<Rightarrow> 'a vec_op \<Rightarrow> 'a list \<Rightarrow> 'a list" where
  "list_op zero (PushBack x) ys = ys @ [x]"
| "list_op zero (Append xs) ys = ys @ xs"
| "list_op zero (Resize n) ys = take n ys @ replicate (n - length ys) zero"
| "list_op zero ClearAll ys = []"
| "list_op zero (EraseAt i) ys = take i ys @ drop (Suc i) ys"

definition list_step :: "'a \<Rightarrow> bool \<times> 'a vec_op \<Rightarrow> 'a list \<times> nat \<Rightarrow> bool \<times> 'a list \<times> nat" where
  "list_step zero c s = (let ys = list_op zero (snd c) (fst s); cap = snd s in
     case snd c of
       EraseAt i \<Rightarrow> (i < length (fst s), ys, cap)
     | _ \<Rightarrow> if length ys \<le> cap then (True, ys, cap) else if fst c then (True, ys, doubled (length ys) cap) else (False, fst s, cap))"

primrec list_run :: "'a \<Rightarrow> (bool \<times> 'a vec_op) list \<Rightarrow> 'a list \<times> nat \<Rightarrow> bool list \<times> 'a list \<times> nat" where
  "list_run zero [] s = ([], s)"
| "list_run zero (c # cs) s = (let (r, s) = list_step zero c s; (rs, s) = list_run zero cs s in (r # rs, s))"

text \<open>How many items a call may add.\<close>

fun op_room :: "'a vec_op \<Rightarrow> nat" where
  "op_room (PushBack x) = 1"
| "op_room (Append xs) = length xs"
| "op_room (Resize n) = n"
| "op_room _ = 0"

lemma list_step_adds:
  "list_op zero op xs = ys \<Longrightarrow> \<forall>i. op \<noteq> EraseAt i \<Longrightarrow> list_step zero (ok, op) (xs, cap) =
     (if length ys \<le> cap then (True, ys, cap) else if ok then (True, ys, doubled (length ys) cap) else (False, xs, cap))"
  by (cases op) (auto simp: list_step_def Let_def)

lemma vec_exec_append:
  assumes "vec_wf v" "(v_size v + length xs) * v_item_size v \<le> 2 ^ 63" "list_op zero op (vec_items v) = vec_items v @ xs" "\<forall>i. op \<noteq> EraseAt i"
  shows "\<exists>r w. map_option (map_prod (\<lambda>p. p \<noteq> None) (\<lambda>w. w)) (mdv_vector_append ok junk xs v) = Some (r, w) \<and> vec_wf w \<and>
    v_item_size w = v_item_size v \<and> (r, vec_items w, v_capacity w) = list_step zero (ok, op) (vec_items v, v_capacity v)"
proof -
  have "0 < v_capacity v" using assms(1) by (simp add: vec_wf_def)
  then show ?thesis
    unfolding list_step_adds [OF assms(3,4)]
    using append_run [OF assms(1,2), of ok junk] assms(1) doubled_bounds(2) [of "v_capacity v" "v_size v + length xs"]
    by (auto simp: room_def)
qed

lemma vec_exec_refines:
  assumes "vec_wf v" "(v_size v + op_room (snd c)) * v_item_size v \<le> 2 ^ 63"
  shows "\<exists>r w. vec_exec junk zero c v = Some (r, w) \<and> vec_wf w \<and> v_item_size w = v_item_size v \<and>
    (r, vec_items w, v_capacity w) = list_step zero c (vec_items v, v_capacity v)"
proof -
  obtain ok op where c: "c = (ok, op)" by fastforce
  show ?thesis
  proof (cases op)
    case (PushBack x)
    then show ?thesis
      unfolding c PushBack vec_exec.simps push_back_append
      using assms(2) by (intro vec_exec_append [OF assms(1)]) (simp_all add: c PushBack)
  next
    case (Append xs)
    then show ?thesis unfolding c Append vec_exec.simps using assms(2) by (intro vec_exec_append [OF assms(1)]) (simp_all add: c Append)
  next
    case (Resize n)
    show ?thesis
    proof (cases "n \<le> v_size v")
      case True
      then have "mdv_vector_resize ok junk zero n v = Some (True, v \<lparr> v_size := n \<rparr>)" by (simp add: mdv_vector_resize_def)
      with True assms(1) Resize show ?thesis
        by (auto simp: c list_step_def Let_def vec_wf_def vec_items_def)
    next
      case False
      have n: "n * v_item_size v \<le> 2 ^ 63" using assms(2) Resize by (simp add: c distrib_right)
      have "v_size v < n" using False by simp
      then show ?thesis
        unfolding c Resize vec_exec.simps resize_append [OF assms(1) \<open>v_size v < n\<close> n]
        using n assms(1) by (intro vec_exec_append [OF assms(1)]) simp_all
    qed
  next
    case ClearAll
    with assms(1) show ?thesis by (auto simp: c mdv_vector_clear_def vec_wf_def vec_items_def list_step_def Let_def)
  next
    case (EraseAt i)
    show ?thesis
    proof (cases "i < v_size v")
      case True
      with EraseAt vec_erase_run [OF assms(1) True refl] assms(1) show ?thesis by (simp add: c list_step_def Let_def) blast
    next
      case False
      then have "v_item_size v * v_size v \<le> i * v_item_size v" by (simp add: mult.commute)
      then have "\<not> int (i * v_item_size v) < int (v_item_size v * v_size v)" unfolding of_nat_less_iff by linarith
      then have "mdv_vector_erase (int (i * v_item_size v)) v = v"
        by (simp only: mdv_vector_erase_def if_False simp_thms)
      with False EraseAt assms(1) show ?thesis by (simp add: c list_step_def Let_def) blast
    qed
  qed
qed

lemma list_step_length: "length (fst (snd (list_step zero c s))) \<le> length (fst s) + op_room (snd c)"
  by (cases "snd c") (auto simp: list_step_def Let_def)

text \<open>
  C29. Refinement: a vector of nonzero capacity behaves as the list of its items
  with a capacity, on every sequence of appends, resizes, clears and removals
  whose items, all counted, take at most 2^63 bytes. Every call returns. A call
  that adds items succeeds exactly if they fit the capacity or the allocation
  succeeds, and then the items are as in the list and the capacity is doubled until
  they fit; a call that fails changes nothing.
\<close>

theorem vector_refines_list:
  assumes "vec_wf v" "(v_size v + (\<Sum>c \<leftarrow> cs. op_room (snd c))) * v_item_size v \<le> 2 ^ 63"
  shows "\<exists>rs w. vec_run junk zero cs v = Some (rs, w) \<and> vec_wf w \<and>
    (rs, vec_items w, v_capacity w) = list_run zero cs (vec_items v, v_capacity v)"
  using assms
proof (induction cs arbitrary: v)
  case (Cons c cs)
  let ?rest = "\<Sum>c \<leftarrow> cs. op_room (snd c)"
  have "(v_size v + op_room (snd c)) * v_item_size v \<le> 2 ^ 63"
    using Cons.prems(2) by (rule le_trans [rotated]) simp
  from vec_exec_refines [OF Cons.prems(1) this, of junk zero] obtain r u where
    u: "vec_exec junk zero c v = Some (r, u)" "vec_wf u" "v_item_size u = v_item_size v"
      "(r, vec_items u, v_capacity u) = list_step zero c (vec_items v, v_capacity v)" by blast
  have "v_size u \<le> v_size v + op_room (snd c)"
    using list_step_length [of zero c "(vec_items v, v_capacity v)"] u(2) Cons.prems(1) by (simp flip: u(4))
  then have "(v_size u + ?rest) * v_item_size u \<le> (v_size v + (op_room (snd c) + ?rest)) * v_item_size v"
    unfolding u(3) by (intro mult_le_mono1) simp
  with Cons.prems(2) have "(v_size u + ?rest) * v_item_size u \<le> 2 ^ 63" by simp
  from Cons.IH [OF u(2) this] obtain rs w where rest: "vec_run junk zero cs u = Some (rs, w)" "vec_wf w"
    "(rs, vec_items w, v_capacity w) = list_run zero cs (vec_items u, v_capacity u)" by blast
  with u(1) show ?case by (intro exI [of _ "r # rs"] exI [of _ w]) (simp flip: u(4) rest(3))
qed simp

lemma vector_refines_list_witness:
  "\<exists>w. vec_run 0 0 [(True, Append [1, 2, 3]), (False, PushBack 4), (False, PushBack 5), (True, EraseAt 1)]
      \<lparr> v_rc = 1, v_capacity = 1, v_size = 0, v_item_size = 4, v_data = [0 :: int] \<rparr> = Some ([True, True, False, True], w) \<and>
    vec_items w = [1, 3, 4] \<and> v_capacity w = 4"
proof -
  let ?v = "\<lparr> v_rc = 1, v_capacity = 1, v_size = 0, v_item_size = 4, v_data = [0 :: int] \<rparr>"
  let ?cs = "[(True, Append [1, 2, 3]), (False, PushBack 4), (False, PushBack 5), (True, EraseAt 1)]"
  have "vec_wf ?v" "(v_size ?v + (\<Sum>c \<leftarrow> ?cs. op_room (snd c))) * v_item_size ?v \<le> 2 ^ 63"
    and items: "vec_items ?v = []" by (simp_all add: vec_wf_def vec_items_def)
  note run = vector_refines_list [OF this(1,2), of 0 0]
  have "list_run 0 ?cs (vec_items ?v, v_capacity ?v) = ([True, True, False, True], [1, 3, 4], 4)"
    unfolding items by (simp add: list_step_def Let_def doubled.simps)
  with run show ?thesis by (metis prod.inject)
qed

text \<open>
  C30. Growth, on numbers of 64 bits: for a need of at most 2^63 items and a
  nonzero capacity the reservation loop ends. It leaves a capacity that suffices
  as it is; otherwise it ends with a doubling of the capacity that suffices and is
  less than twice the need. From the capacity zero it never ends, and neither
  does it, when the capacity is a power of two, for a need above 2^63: the
  doubling wraps to zero.
\<close>

theorem vector_growth:
  "(0 < capacity \<and> need \<le> 2 ^ 63 \<longrightarrow> (\<exists>c. grow need capacity = Some c \<and> need \<le> c \<and> (\<exists>k. c = capacity * 2 ^ k) \<and>
      (if need \<le> capacity then c = capacity else c < 2 * need))) \<and>
   (0 < need \<longrightarrow> grow need 0 = None) \<and>
   (\<forall>k < 64. 2 ^ 63 < need \<longrightarrow> grow need (2 ^ k) = None)"
  using grow_doubled [of capacity need] doubled_bounds [of capacity need] grow_zero [of need] grow_wraps [of need] by auto

lemma vector_growth_witness:
  "(\<exists>c. grow 9 2 = Some c \<and> 9 \<le> c \<and> c < 18) \<and> grow 9 0 = None \<and> grow (2 ^ 63 + 1) 4 = None"
  using vector_growth [of 2 9] vector_growth [of 1 "2 ^ 63 + 1", THEN conjunct2, THEN conjunct2, rule_format, of 2] by auto

end
