(* ===== verification/Mdv_Uuid.thy ===== *)
theory Mdv_Uuid
  imports Mdv_Prelude
begin

text \<open>
  Universally unique identifiers, \<^verbatim>\<open>mdv_platform/mdv_uuid.c\<close>: comparison, hashing,
  and the conversion to and from 32 hexadecimal digits. The union of the source
  is its two 64-bit halves; the byte view is their little-endian layout.
\<close>

datatype mdv_uuid = UUID (uuid_lo: u64) (uuid_hi: u64)

definition uuid_u8 :: "mdv_uuid \<Rightarrow> bytes" where
  "uuid_u8 u = le_bytes 8 (uuid_lo u) @ le_bytes 8 (uuid_hi u)"

definition u8_uuid :: "bytes \<Rightarrow> mdv_uuid" where
  "u8_uuid bs = UUID (le_word (take 8 bs)) (le_word (drop 8 bs))"

definition mdv_uuid_cmp :: "mdv_uuid \<Rightarrow> mdv_uuid \<Rightarrow> int" where
  "mdv_uuid_cmp a b =
     (if uuid_lo a < uuid_lo b then - 1
      else if uuid_lo a > uuid_lo b then 1
      else if uuid_hi a < uuid_hi b then - 1
      else if uuid_hi a > uuid_hi b then 1
      else 0)"

definition mdv_uuid_hash :: "mdv_uuid \<Rightarrow> u64" where
  "mdv_uuid_hash a =
     (let hash = 0x811c9dc5;
          hash = (hash * 0x01000193) XOR uuid_lo a;
          hash = (hash * 0x01000193) XOR uuid_hi a
      in hash)"

definition hex_digits :: string where
  "hex_digits = ''0123456789ABCDEF''"

definition mdv_uuid_to_str :: "mdv_uuid \<Rightarrow> string" where
  "mdv_uuid_to_str u = map (\<lambda>i. hex_digits ! unat (drop_bit ((1 - i mod 2) * 4) (uuid_u8 u ! (i div 2)) AND 0xF)) [0..<32]"

text \<open>The switch over the characters; a character without a case is None.\<close>

definition hex_value :: "char \<Rightarrow> u8 option" where
  "hex_value = map_of
     [(CHR ''0'', 0), (CHR ''1'', 1), (CHR ''2'', 2), (CHR ''3'', 3), (CHR ''4'', 4),
      (CHR ''5'', 5), (CHR ''6'', 6), (CHR ''7'', 7), (CHR ''8'', 8), (CHR ''9'', 9),
      (CHR ''a'', 10), (CHR ''A'', 10), (CHR ''b'', 11), (CHR ''B'', 11),
      (CHR ''c'', 12), (CHR ''C'', 12), (CHR ''d'', 13), (CHR ''D'', 13),
      (CHR ''e'', 14), (CHR ''E'', 14), (CHR ''f'', 15), (CHR ''F'', 15)]"

fun from_str_loop :: "nat \<Rightarrow> string \<Rightarrow> bytes \<Rightarrow> bool \<times> bytes" where
  "from_str_loop i [] bs = (True, bs)"
| "from_str_loop i (c # cs) bs =
     (case hex_value c of
        None \<Rightarrow> (False, bs)
      | Some d \<Rightarrow> from_str_loop (i + 1) cs (bs[i div 2 := bs ! (i div 2) OR push_bit ((1 - i mod 2) * 4) d]))"

text \<open>The result and the identifier after the call; a null string is None.\<close>

definition mdv_uuid_from_str :: "mdv_uuid \<Rightarrow> string option \<Rightarrow> bool \<times> mdv_uuid" where
  "mdv_uuid_from_str u s =
     (case s of
        None \<Rightarrow> (False, u)
      | Some str \<Rightarrow>
          if length str \<noteq> 32 then (False, u)
          else (let (ok, bs) = from_str_loop 0 str (uuid_u8 (UUID 0 0)) in (ok, u8_uuid bs)))"


section \<open>Order\<close>

lemma uuid_cmp_cases:
  "mdv_uuid_cmp a b = 0 \<longleftrightarrow> a = b"
  "mdv_uuid_cmp a b < 0 \<longleftrightarrow> uuid_lo a < uuid_lo b \<or> uuid_lo a = uuid_lo b \<and> uuid_hi a < uuid_hi b"
  "mdv_uuid_cmp b a = - mdv_uuid_cmp a b"
  by (cases a; cases b; auto simp: mdv_uuid_cmp_def)+

lemma uuid_cmp_le:
  "mdv_uuid_cmp a b \<le> 0 \<longleftrightarrow> uuid_lo a < uuid_lo b \<or> uuid_lo a = uuid_lo b \<and> uuid_hi a \<le> uuid_hi b"
  by (auto simp: mdv_uuid_cmp_def)

instantiation mdv_uuid :: linorder
begin

definition less_eq_mdv_uuid :: "mdv_uuid \<Rightarrow> mdv_uuid \<Rightarrow> bool" where
  "less_eq_mdv_uuid a b \<longleftrightarrow> mdv_uuid_cmp a b \<le> 0"

definition less_mdv_uuid :: "mdv_uuid \<Rightarrow> mdv_uuid \<Rightarrow> bool" where
  "less_mdv_uuid a b \<longleftrightarrow> mdv_uuid_cmp a b < 0"

instance
proof
  fix a b c :: mdv_uuid
  show "a < b \<longleftrightarrow> a \<le> b \<and> \<not> b \<le> a"
    unfolding less_eq_mdv_uuid_def less_mdv_uuid_def uuid_cmp_cases(3) [of b a] by linarith
  show "a \<le> a" by (simp add: less_eq_mdv_uuid_def mdv_uuid_cmp_def)
  show "a \<le> c" if "a \<le> b" "b \<le> c"
    using that unfolding less_eq_mdv_uuid_def uuid_cmp_le by (auto dest: less_trans order_trans)
  show "a = b" if "a \<le> b" "b \<le> a"
    using that uuid_cmp_cases(1) [of a b] unfolding less_eq_mdv_uuid_def uuid_cmp_cases(3) [of b a] by linarith
  show "a \<le> b \<or> b \<le> a"
    unfolding less_eq_mdv_uuid_def uuid_cmp_cases(3) [of b a] by linarith
qed

end

text \<open>
  C33. The comparison is a total order, the three-way result tells which argument
  is smaller, equal identifiers and only those compare to zero, and swapping the
  arguments negates the result.
\<close>

theorem uuid_cmp_order:
  "(mdv_uuid_cmp a b < 0 \<longleftrightarrow> a < b) \<and> (mdv_uuid_cmp a b = 0 \<longleftrightarrow> a = b) \<and> (mdv_uuid_cmp a b > 0 \<longleftrightarrow> b < a) \<and>
   mdv_uuid_cmp b a = - mdv_uuid_cmp a b \<and>
   (uuid_lo a < uuid_lo b \<or> uuid_lo a = uuid_lo b \<and> uuid_hi a < uuid_hi b \<longleftrightarrow> a < b)"
  unfolding less_mdv_uuid_def uuid_cmp_cases(3) [of b a] using uuid_cmp_cases(1,2) [of a b] by linarith


section \<open>Hexadecimal form\<close>

lemma uuid_u8_inverse [simp]: "u8_uuid (uuid_u8 u) = u"
  by (cases u) (simp add: u8_uuid_def uuid_u8_def)

lemma length_uuid_u8 [simp]: "length (uuid_u8 u) = 16"
  by (simp add: uuid_u8_def)

lemma le_bytes_zero: "le_bytes n 0 = replicate n 0"
  by (induction n) simp_all

lemma zero_uuid_u8: "uuid_u8 (UUID 0 0) = replicate 16 0"
  by (simp add: uuid_u8_def le_bytes_zero replicate_add [symmetric])

definition hex_digit :: "u8 \<Rightarrow> nat \<Rightarrow> char" where
  "hex_digit b i = hex_digits ! unat (drop_bit ((1 - i mod 2) * 4) b AND 0xF)"

lemma digits_of_bytes:
  "map (\<lambda>i. hex_digit (bs ! (i div 2)) i) [0..<2 * length bs] = concat (map (\<lambda>b. [hex_digit b 0, hex_digit b 1]) bs)"
proof (induction bs rule: rev_induct)
  case (snoc b bs)
  let ?f = "\<lambda>bs i. hex_digit (bs ! (i div 2)) i"
  have "[0..<2 * length (bs @ [b])] = [0..<2 * length bs] @ [2 * length bs, 2 * length bs + 1]"
    by (simp add: upt_conv_Cons upt_add_eq_append [of 0 "2 * length bs" 2, simplified])
  then have "map (?f (bs @ [b])) [0..<2 * length (bs @ [b])] =
      map (?f (bs @ [b])) [0..<2 * length bs] @ [hex_digit b 0, hex_digit b 1]"
    by (simp add: hex_digit_def)
  also have "map (?f (bs @ [b])) [0..<2 * length bs] = map (?f bs) [0..<2 * length bs]"
    by (rule map_cong) (auto simp: nth_append)
  finally show ?case using snoc by simp
qed simp

lemma hex_value_digits: "\<forall>k \<in> set [0..<16]. hex_value (hex_digits ! k) = Some (of_nat k)"
  by code_simp

lemma nibble_bound: "unat (b AND 0xF :: u8) < 16"
proof -
  have "b AND 0xF \<le> (0xF :: u8)" by (rule word_and_le1)
  then show ?thesis by (simp add: word_le_nat_alt)
qed

lemma hex_value_digit: "hex_value (hex_digit b i) = Some (drop_bit ((1 - i mod 2) * 4) b AND 0xF)"
  using hex_value_digits nibble_bound [of "drop_bit ((1 - i mod 2) * 4) b"]
  by (simp add: hex_digit_def)

lemma nibble_masks: "\<forall>n \<in> set [0..<8]. bit (240 :: u8) n = (4 \<le> n) \<and> bit (15 :: u8) n = (n < 4)"
  by code_simp

lemma nibbles: "push_bit 4 (drop_bit 4 b) AND 240 OR b AND 15 = (b :: u8)"
proof (rule bit_word_eqI)
  fix n assume "n < LENGTH(8)"
  then have n: "n < 8" by simp
  with nibble_masks have "bit (240 :: u8) n = (4 \<le> n)" "bit (15 :: u8) n = (n < 4)" by simp_all
  with n show "bit (push_bit 4 (drop_bit 4 b) AND 240 OR b AND 15) n = bit b n"
    by (auto simp: bit_or_iff bit_and_iff bit_push_bit_iff bit_drop_bit_eq)
qed

lemma from_str_bytes:
  "from_str_loop (2 * length pre) (concat (map (\<lambda>b. [hex_digit b 0, hex_digit b 1]) bs)) (pre @ replicate (length bs) 0) =
     (True, pre @ bs)"
proof (induction bs arbitrary: pre)
  case (Cons b bs)
  have "from_str_loop (2 * length pre) (concat (map (\<lambda>b. [hex_digit b 0, hex_digit b 1]) (b # bs)))
      (pre @ replicate (length (b # bs)) 0) =
    from_str_loop (2 * length (pre @ [b])) (concat (map (\<lambda>b. [hex_digit b 0, hex_digit b 1]) bs))
      ((pre @ [b]) @ replicate (length bs) 0)"
    by (simp add: hex_value_digit list_update_append nth_append nibbles)
  also have "\<dots> = (True, (pre @ [b]) @ bs)" by (rule Cons.IH)
  finally show ?case by simp
qed simp

lemma from_str_accepts: "fst (from_str_loop i s bs) \<longleftrightarrow> (\<forall>c \<in> set s. hex_value c \<noteq> None)"
  by (induction i s bs rule: from_str_loop.induct) (auto split: option.splits)

text \<open>
  C32. Round trip: an identifier printed as hexadecimal digits is read back as the
  same identifier, whatever the target held before.
\<close>

theorem uuid_roundtrip:
  "mdv_uuid_from_str u0 (Some (mdv_uuid_to_str u)) = (True, u)"
proof -
  have str: "mdv_uuid_to_str u = concat (map (\<lambda>b. [hex_digit b 0, hex_digit b 1]) (uuid_u8 u))"
    using digits_of_bytes [of "uuid_u8 u"] by (simp add: mdv_uuid_to_str_def hex_digit_def)
  then have "from_str_loop 0 (mdv_uuid_to_str u) (uuid_u8 (UUID 0 0)) = (True, uuid_u8 u)"
    using from_str_bytes [of "[]" "uuid_u8 u"] by (simp add: zero_uuid_u8)
  moreover have "length (mdv_uuid_to_str u) = 32" by (simp add: mdv_uuid_to_str_def)
  ultimately show ?thesis by (simp add: mdv_uuid_from_str_def)
qed

text \<open>
  Parsing accepts exactly the strings of 32 hexadecimal digits of either
  case, and leaves the target alone when the string is missing or has another
  length.
\<close>

lemma uuid_from_str_accepts:
  "(fst (mdv_uuid_from_str u s) \<longleftrightarrow> (\<exists>str. s = Some str \<and> length str = 32 \<and> (\<forall>c \<in> set str. hex_value c \<noteq> None))) \<and>
   (s = None \<or> length (the s) \<noteq> 32 \<longrightarrow> mdv_uuid_from_str u s = (False, u))"
  using from_str_accepts
  by (cases s) (auto simp: mdv_uuid_from_str_def split_beta Let_def)

end
