(* ===== verification/Mdv_Algorithm.thy ===== *)
theory Mdv_Algorithm
  imports Mdv_Prelude
begin

text \<open>
  The ordered-array algorithms of \<^verbatim>\<open>mdv_platform/generic/mdv_algorithm.c\<close>: difference and
  union of ordered sets, in-place exclusion, and the binary search for a lower
  bound. Positions are indices; a read before the array has no result (None).
\<close>

section \<open>Difference and union\<close>

function diff_loop :: "u32 list \<Rightarrow> u32 list \<Rightarrow> nat \<Rightarrow> nat \<Rightarrow> u32 list" where
  "diff_loop a b ai bi =
     (if ai < length a then
        if bi \<ge> length b then drop ai a
        else if a ! ai < b ! bi then a ! ai # diff_loop a b (ai + 1) bi
        else if a ! ai = b ! bi then diff_loop a b (ai + 1) (bi + 1)
        else diff_loop a b ai (bi + 1)
      else [])"
  by auto
termination by (relation "measure (\<lambda>(a, b, ai, bi). (length a - ai) + (length b - bi))") auto

declare diff_loop.simps [simp del]

definition mdv_diff_u32 :: "u32 list \<Rightarrow> u32 list \<Rightarrow> u32 list" where
  "mdv_diff_u32 a b = diff_loop a b 0 0"

function union_loop :: "u32 list \<Rightarrow> u32 list \<Rightarrow> nat \<Rightarrow> nat \<Rightarrow> u32 list" where
  "union_loop a b ai bi =
     (if ai < length a then
        if bi \<ge> length b then drop ai a
        else if b ! bi < a ! ai then b ! bi # union_loop a b ai (bi + 1)
        else a ! ai # union_loop a b (ai + 1) (if a ! ai = b ! bi then bi + 1 else bi)
      else drop bi b)"
  by auto
termination by (relation "measure (\<lambda>(a, b, ai, bi). (length a - ai) + (length b - bi))") auto

declare union_loop.simps [simp del]

definition mdv_union_u32 :: "u32 list \<Rightarrow> u32 list \<Rightarrow> u32 list" where
  "mdv_union_u32 a b = union_loop a b 0 0"

text \<open>The same walks over the remaining items.\<close>

fun diff_lists :: "'a::linorder list \<Rightarrow> 'a list \<Rightarrow> 'a list" where
  "diff_lists [] ys = []"
| "diff_lists xs [] = xs"
| "diff_lists (x # xs) (y # ys) =
     (if x < y then x # diff_lists xs (y # ys)
      else if x = y then diff_lists xs ys
      else diff_lists (x # xs) ys)"

fun union_lists :: "'a::linorder list \<Rightarrow> 'a list \<Rightarrow> 'a list" where
  "union_lists [] ys = ys"
| "union_lists xs [] = xs"
| "union_lists (x # xs) (y # ys) =
     (if y < x then y # union_lists (x # xs) ys
      else if x = y then x # union_lists xs ys
      else x # union_lists xs (y # ys))"

lemma drop_at: "i < length xs \<Longrightarrow> drop i xs = xs ! i # drop (Suc i) xs"
  by (simp add: Cons_nth_drop_Suc)

lemma diff_loop_lists: "diff_loop a b ai bi = diff_lists (drop ai a) (drop bi b)"
proof (induction a b ai bi rule: diff_loop.induct)
  case (1 a b ai bi)
  show ?case
  proof (cases "ai < length a \<and> bi < length b")
    case True
    with 1 show ?thesis by (subst diff_loop.simps) (simp add: drop_at)
  next
    case False
    then show ?thesis by (cases "ai < length a") (simp_all add: diff_loop.simps [of a b ai bi] drop_at)
  qed
qed

lemma union_loop_lists: "union_loop a b ai bi = union_lists (drop ai a) (drop bi b)"
proof (induction a b ai bi rule: union_loop.induct)
  case (1 a b ai bi)
  show ?case
  proof (cases "ai < length a \<and> bi < length b")
    case True
    with 1 show ?thesis by (subst union_loop.simps) (auto simp: drop_at)
  next
    case False
    then show ?thesis by (cases "ai < length a") (simp_all add: union_loop.simps [of a b ai bi] drop_at)
  qed
qed

lemma diff_lists_filter:
  "sorted_wrt (<) xs \<Longrightarrow> sorted_wrt (<) ys \<Longrightarrow> diff_lists xs ys = filter (\<lambda>x. x \<notin> set ys) xs"
proof (induction xs ys rule: diff_lists.induct)
  case (3 x xs y ys)
  then show ?case
    by (cases x y rule: linorder_cases) (auto intro!: filter_cong)
qed simp_all

lemma set_union_lists: "set (union_lists xs ys) = set xs \<union> set ys"
  by (induction xs ys rule: union_lists.induct) auto

lemma sorted_union_lists:
  "sorted_wrt (<) xs \<Longrightarrow> sorted_wrt (<) ys \<Longrightarrow> sorted_wrt (<) (union_lists xs ys)"
  by (induction xs ys rule: union_lists.induct) (auto simp: set_union_lists)

text \<open>
  C36. On strictly ascending arrays the difference keeps, in order, the items of
  the first that the second lacks, and the union is the strictly ascending array
  of the items of both.
\<close>

theorem ordered_set_operations:
  assumes "sorted_wrt (<) a" "sorted_wrt (<) b"
  shows "mdv_diff_u32 a b = filter (\<lambda>x. x \<notin> set b) a \<and>
    sorted_wrt (<) (mdv_union_u32 a b) \<and> set (mdv_union_u32 a b) = set a \<union> set b"
  using assms
  by (simp add: mdv_diff_u32_def mdv_union_u32_def diff_loop_lists union_loop_lists diff_lists_filter
      set_union_lists sorted_union_lists)

lemma ordered_set_operations_witness:
  "mdv_diff_u32 [1, 3, 5] [3, 4] = [1, 5] \<and> set (mdv_union_u32 [1, 3, 5] [3, 4]) = {1, 3, 4, 5}"
  using ordered_set_operations [of "[1, 3, 5]" "[3, 4]"] by auto


section \<open>Exclusion in place\<close>

text \<open>The output position trails the input position in the same array.\<close>

function exclude_loop :: "('a \<Rightarrow> 'b \<Rightarrow> int) \<Rightarrow> 'b list \<Rightarrow> nat \<Rightarrow> nat \<Rightarrow> nat \<Rightarrow> 'a list \<Rightarrow> nat \<times> 'a list" where
  "exclude_loop cmp b ai bi out arr =
     (if ai < length arr then
        if bi \<ge> length b then exclude_loop cmp b (ai + 1) bi (out + 1) (arr[out := arr ! ai])
        else if cmp (arr ! ai) (b ! bi) < 0 then exclude_loop cmp b (ai + 1) bi (out + 1) (arr[out := arr ! ai])
        else if cmp (arr ! ai) (b ! bi) = 0 then exclude_loop cmp b (ai + 1) (bi + 1) out arr
        else exclude_loop cmp b ai (bi + 1) out arr
      else (out, arr))"
  by auto
termination by (relation "measure (\<lambda>(cmp, b, ai, bi, out, arr). (length arr - ai) + (length b - bi))") auto

declare exclude_loop.simps [simp del]

definition mdv_exclude :: "('a \<Rightarrow> 'b \<Rightarrow> int) \<Rightarrow> 'a list \<Rightarrow> 'b list \<Rightarrow> nat \<times> 'a list" where
  "mdv_exclude cmp a b = exclude_loop cmp b 0 0 0 a"

fun exclude_lists :: "('a \<Rightarrow> 'b \<Rightarrow> int) \<Rightarrow> 'a list \<Rightarrow> 'b list \<Rightarrow> 'a list" where
  "exclude_lists cmp [] ys = []"
| "exclude_lists cmp xs [] = xs"
| "exclude_lists cmp (x # xs) (y # ys) =
     (if cmp x y < 0 then x # exclude_lists cmp xs (y # ys)
      else if cmp x y = 0 then exclude_lists cmp xs ys
      else exclude_lists cmp (x # xs) ys)"

lemma exclude_step:
  assumes "out \<le> ai" "ai < length arr"
  shows "take (out + 1) (arr[out := arr ! ai]) = take out arr @ [arr ! ai]"
    "drop (ai + 1) (arr[out := arr ! ai]) = drop (ai + 1) arr" "length (arr[out := arr ! ai]) = length arr"
  using assms by (simp_all add: take_Suc_conv_app_nth)

lemma exclude_loop_lists:
  assumes "out \<le> ai" "exclude_loop cmp b ai bi out arr = (n, arr')"
  shows "take n arr' = take out arr @ exclude_lists cmp (drop ai arr) (drop bi b) \<and> n \<le> length arr' \<or> length arr < out"
  using assms
proof (induction cmp b ai bi out arr rule: exclude_loop.induct)
  case (1 cmp b ai bi out arr)
  note loop = exclude_loop.simps [of cmp b ai bi out arr]
  consider (stop) "length arr \<le> ai" | (tail) "ai < length arr" "length b \<le> bi"
    | (keep) "ai < length arr" "bi < length b" "cmp (arr ! ai) (b ! bi) < 0"
    | (drop_item) "ai < length arr" "bi < length b" "cmp (arr ! ai) (b ! bi) = 0"
    | (skip) "ai < length arr" "bi < length b" "cmp (arr ! ai) (b ! bi) > 0"
    by linarith
  then show ?case
  proof cases
    case stop
    with 1(6) show ?thesis by (auto simp: loop)
  next
    case tail
    have "exclude_lists cmp xs [] = xs" for xs :: "'a list" by (cases xs) simp_all
    with tail 1(1) [OF tail] 1(5,6) exclude_step [OF 1(5) tail(1)] show ?thesis
      by (simp add: loop drop_at)
  next
    case keep
    with 1(2) 1(5,6) exclude_step [OF 1(5) keep(1)] show ?thesis by (simp add: loop drop_at)
  next
    case drop_item
    with 1(3) 1(5,6) show ?thesis by (simp add: loop drop_at)
  next
    case skip
    with 1(4) 1(5,6) show ?thesis by (simp add: loop drop_at)
  qed
qed

lemma exclude_lists_filter:
  fixes f :: "'a \<Rightarrow> 'k::linorder" and g :: "'b \<Rightarrow> 'k"
  assumes "\<forall>x y. (cmp x y < 0 \<longleftrightarrow> f x < g y) \<and> (cmp x y = 0 \<longleftrightarrow> f x = g y)"
    and "sorted_wrt (<) (map f xs)" "sorted_wrt (<) (map g ys)"
  shows "exclude_lists cmp xs ys = filter (\<lambda>x. f x \<notin> g ` set ys) xs"
  using assms
proof (induction cmp xs ys rule: exclude_lists.induct)
  case (3 cmp x xs y ys)
  from "3.prems"(1) have cmp: "cmp x y < 0 \<longleftrightarrow> f x < g y" "cmp x y = 0 \<longleftrightarrow> f x = g y" by blast+
  show ?case
  proof (cases "f x" "g y" rule: linorder_cases)
    case less
    then have "f x \<notin> g ` set (y # ys)" using "3.prems"(3) by auto
    with less "3.IH"(1) "3.prems" cmp show ?thesis by simp
  next
    case equal
    then have "filter (\<lambda>x. f x \<notin> g ` set (y # ys)) xs = filter (\<lambda>x. f x \<notin> g ` set ys) xs"
      using "3.prems"(2) by (intro filter_cong) auto
    with equal "3.IH"(2) "3.prems" cmp show ?thesis by simp
  next
    case greater
    then have "filter (\<lambda>x. f x \<notin> g ` set (y # ys)) (x # xs) = filter (\<lambda>x. f x \<notin> g ` set ys) (x # xs)"
      using "3.prems"(2) by (intro filter_cong) auto
    moreover have "\<not> cmp x y < 0" "cmp x y \<noteq> 0" using greater cmp by auto
    ultimately show ?thesis using "3.IH"(3) "3.prems" by simp
  qed
qed simp_all

text \<open>
  C35. Excluding in place: for arrays strictly ascending in their keys, the count
  returned and the beginning of the overwritten first array are the items whose
  keys the second array lacks, in their old order.
\<close>

theorem exclude_in_place:
  fixes f :: "'a \<Rightarrow> 'k::linorder" and g :: "'b \<Rightarrow> 'k"
  assumes "\<forall>x y. (cmp x y < 0 \<longleftrightarrow> f x < g y) \<and> (cmp x y = 0 \<longleftrightarrow> f x = g y)"
    and "sorted_wrt (<) (map f a)" "sorted_wrt (<) (map g b)"
  shows "let (n, a') = mdv_exclude cmp a b in n \<le> length a' \<and> take n a' = filter (\<lambda>x. f x \<notin> g ` set b) a"
proof -
  obtain n a' where r: "exclude_loop cmp b 0 0 0 a = (n, a')" by fastforce
  from exclude_loop_lists [OF _ r] exclude_lists_filter [OF assms] show ?thesis
    by (simp add: mdv_exclude_def r)
qed

lemma exclude_in_place_witness:
  "let (n, a') = mdv_exclude (-) [1, 2, 4, 7] [2, 3, (7 :: int)] in n \<le> length a' \<and> take n a' = [1, 4]"
  using exclude_in_place [of "(-)" "\<lambda>x. x" "\<lambda>x. x" "[1, 2, 4, 7]" "[2, 3, 7]"] by simp


section \<open>Lower bound\<close>

text \<open>The bounds move as pointers do; the upper one may end before the array, and reading there
  has no result.\<close>

function lower_bound_loop :: "('k \<Rightarrow> 'a \<Rightarrow> int) \<Rightarrow> 'k \<Rightarrow> 'a list \<Rightarrow> int \<Rightarrow> int \<Rightarrow> int option" where
  "lower_bound_loop cmp key arr a b =
     (if b > a then
        let c = a + (b - a) div 2; diff = cmp key (arr ! nat c) in
        if diff < 0 then lower_bound_loop cmp key arr a (c - 1)
        else if diff > 0 then lower_bound_loop cmp key arr (c + 1) b
        else Some c
      else if b < 0 then None
      else if cmp key (arr ! nat b) > 0 then Some (b + 1) else Some b)"
  by auto
termination by (relation "measure (\<lambda>(cmp, key, arr, a, b). nat (b - a))") (auto simp: Let_def)

declare lower_bound_loop.simps [simp del]

text \<open>An empty array gives a null pointer.\<close>

definition mdv_lower_bound :: "('k \<Rightarrow> 'a \<Rightarrow> int) \<Rightarrow> 'k \<Rightarrow> 'a list \<Rightarrow> int option option" where
  "mdv_lower_bound cmp key arr =
     (if arr = [] then Some None
      else map_option Some (lower_bound_loop cmp key arr 0 (int (length arr) - 1)))"

text \<open>Strictly ascending: an item not above the key has only items below the key before it.\<close>

definition ascending_for :: "('k \<Rightarrow> 'a \<Rightarrow> int) \<Rightarrow> 'k \<Rightarrow> 'a list \<Rightarrow> bool" where
  "ascending_for cmp key arr \<longleftrightarrow>
     (\<forall>i j. i < j \<and> j < length arr \<and> cmp key (arr ! j) \<ge> 0 \<longrightarrow> cmp key (arr ! i) > 0)"

text \<open>What a returned position means, and that only a key below every item reads before the array.\<close>

definition lower_bound_ok :: "('k \<Rightarrow> 'a \<Rightarrow> int) \<Rightarrow> 'k \<Rightarrow> 'a list \<Rightarrow> int option \<Rightarrow> bool" where
  "lower_bound_ok cmp key arr r \<longleftrightarrow> (case r of
      None \<Rightarrow> cmp key (arr ! 0) < 0
    | Some k \<Rightarrow> 0 \<le> k \<and> k \<le> int (length arr) \<and> (\<forall>i. int i < k \<longrightarrow> cmp key (arr ! i) > 0) \<and>
        (\<forall>i. k \<le> int i \<and> i < length arr \<longrightarrow> cmp key (arr ! i) \<le> 0))"

lemma lower_bound_loop_ok:
  assumes "ascending_for cmp key arr"
    and "0 \<le> a" "a - 1 \<le> b" "b < int (length arr)"
    and "\<forall>i. int i < a \<longrightarrow> cmp key (arr ! i) > 0"
    and "\<forall>i. b < int i \<and> i < length arr \<longrightarrow> cmp key (arr ! i) < 0"
    and "a \<le> b \<or> 0 < a \<or> cmp key (arr ! 0) < 0"
  shows "lower_bound_ok cmp key arr (lower_bound_loop cmp key arr a b)"
  using assms
proof (induction cmp key arr a b rule: lower_bound_loop.induct)
  case (1 cmp key arr a b)
  note loop = lower_bound_loop.simps [of cmp key arr a b]
  note asc = "1.prems"(1) [unfolded ascending_for_def, rule_format]
  show ?case
  proof (cases "b > a")
    case True
    define c where "c = nat (a + (b - a) div 2)"
    have c: "a + (b - a) div 2 = int c" "a \<le> int c" "int c < b" "c < length arr"
      using True "1.prems"(2,4) by (auto simp: c_def)
    have down: "cmp key (arr ! i) > 0" if "i < c" "cmp key (arr ! c) \<ge> 0" for i
      using asc [of i c] that c(4) by simp
    have up: "cmp key (arr ! i) < 0" if "c < i" "i < length arr" "cmp key (arr ! c) \<le> 0" for i
      using asc [of c i] that by force
    consider (less) "cmp key (arr ! c) < 0" | (greater) "cmp key (arr ! c) > 0" | (found) "cmp key (arr ! c) = 0"
      by linarith
    then show ?thesis
    proof cases
      case less
      have "cmp key (arr ! i) < 0" if "int c - 1 < int i" "i < length arr" for i
        using that up [of i] less by (cases "i = c") auto
      moreover have "a \<le> int c - 1 \<or> 0 < a \<or> cmp key (arr ! 0) < 0"
        using c(2) "1.prems"(2) less by (cases "c = 0") auto
      ultimately have "lower_bound_ok cmp key arr (lower_bound_loop cmp key arr a (int c - 1))"
        using "1.IH"(1) [OF True refl refl] less c "1.prems" by simp
      with True less c(1) show ?thesis by (simp add: loop)
    next
      case greater
      have "cmp key (arr ! i) > 0" if "int i < int c + 1" for i
        using that down [of i] greater by (cases "i = c") auto
      then have "lower_bound_ok cmp key arr (lower_bound_loop cmp key arr (int c + 1) b)"
        using "1.IH"(2) [OF True refl refl] greater c "1.prems" by simp
      with True greater c(1) show ?thesis by (simp add: loop)
    next
      case found
      have "cmp key (arr ! i) \<le> 0" if "int c \<le> int i" "i < length arr" for i
        using that up [of i] found by (cases "i = c") auto
      with True found c down show ?thesis by (simp add: loop lower_bound_ok_def)
    qed
  next
    case False
    show ?thesis
    proof (cases "b < 0")
      case True
      with False "1.prems" show ?thesis by (auto simp: loop lower_bound_ok_def)
    next
      case b: False
      define m where "m = nat b"
      have m: "b = int m" "m < length arr" using b "1.prems"(4) by (auto simp: m_def)
      have r: "lower_bound_loop cmp key arr a b = (if cmp key (arr ! m) > 0 then Some (int m + 1) else Some (int m))"
        using False b by (simp add: loop m_def)
      have above: "cmp key (arr ! i) < 0" if "m < i" "i < length arr" for i
        using that "1.prems"(6) m by simp
      show ?thesis
      proof (cases "cmp key (arr ! m) > 0")
        case True
        have "cmp key (arr ! i) > 0" if "int i < int m + 1" for i
          using that asc [of i m] True m by (cases "i = m") auto
        moreover have "cmp key (arr ! i) \<le> 0" if "int m + 1 \<le> int i" "i < length arr" for i
          using that above [of i] by simp
        ultimately show ?thesis using True m(2) unfolding r by (simp add: lower_bound_ok_def)
      next
        case not_above: False
        have "b = a"
          using "1.prems"(3) "1.prems"(5) [rule_format, of m] False m not_above by force
        moreover have "cmp key (arr ! i) \<le> 0" if "int m \<le> int i" "i < length arr" for i
          using that above [of i] not_above by (cases "i = m") auto
        ultimately show ?thesis using not_above m "1.prems"(5) unfolding r by (simp add: lower_bound_ok_def)
      qed
    qed
  qed
qed

text \<open>
  C34. Lower bound: on an array strictly ascending for the key, whose first item
  the key is not below, the search returns a position, the one before which every
  item is below the key and from which no item is; it is one past the end when
  every item is below the key. A key below the first item may make it read before
  the array; if it does not, the position it returns is right. It returns NULL
  only for an empty array.
\<close>

theorem lower_bound_correct:
  assumes "ascending_for cmp key arr"
  shows "(arr \<noteq> [] \<and> cmp key (arr ! 0) \<ge> 0 \<longrightarrow> (\<exists>k. mdv_lower_bound cmp key arr = Some (Some k))) \<and>
    (case mdv_lower_bound cmp key arr of
       None \<Rightarrow> arr \<noteq> [] \<and> cmp key (arr ! 0) < 0
     | Some None \<Rightarrow> arr = []
     | Some (Some k) \<Rightarrow> 0 \<le> k \<and> k \<le> int (length arr) \<and> (\<forall>i. int i < k \<longrightarrow> cmp key (arr ! i) > 0) \<and>
         (\<forall>i. k \<le> int i \<and> i < length arr \<longrightarrow> cmp key (arr ! i) \<le> 0))"
proof (cases "arr = []")
  case True
  then show ?thesis by (simp add: mdv_lower_bound_def)
next
  case False
  then have "lower_bound_ok cmp key arr (lower_bound_loop cmp key arr 0 (int (length arr) - 1))"
    by (intro lower_bound_loop_ok [OF assms(1)]) (auto simp: Suc_le_eq)
  then show ?thesis
    using False by (auto simp: mdv_lower_bound_def lower_bound_ok_def split: option.splits)
qed

lemma lower_bound_correct_witness: "mdv_lower_bound (-) 5 [1, 4, 6 :: int] = Some (Some 2)"
proof -
  have "ascending_for (-) 5 [1, 4, 6 :: int]"
    by (auto simp: ascending_for_def nth_Cons' split: if_splits)
  from lower_bound_correct [OF this] obtain k where k: "mdv_lower_bound (-) 5 [1, 4, 6 :: int] = Some (Some k)"
    "0 \<le> k" "\<forall>i. int i < k \<longrightarrow> [1, 4, 6] ! i < (5 :: int)" "\<forall>i. k \<le> int i \<and> i < Suc (Suc (Suc 0)) \<longrightarrow> (5 :: int) \<le> [1, 4, 6] ! i"
    by auto
  from k(3) [rule_format, of 2] k(4) [rule_format, of 1] k(2) have "k = 2" by force
  with k(1) show ?thesis by simp
qed

text \<open>
  A key below both items of a two-item array makes the search read the item
  before the array.
\<close>

lemma lower_bound_underflow:
  assumes "cmp key x < 0"
  shows "mdv_lower_bound cmp key [x, y] = None"
  using assms
  by (simp add: mdv_lower_bound_def lower_bound_loop.simps [of cmp key _ 0 1] lower_bound_loop.simps [of cmp key _ 0 "- 1"])

end
