(* ===== verification/Mdv_Vm.thy ===== *)
theory Mdv_Vm
  imports Mdv_Prelude "HOL-Library.Monad_Syntax"
begin

text \<open>
  The stack machine of \<^verbatim>\<open>mdv_platform/mdv_vm.c\<close> over the byte stack of
  \<^verbatim>\<open>mdv_platform/generic/mdv_stack.h\<close>. The program is read from memory, a partial
  function from addresses to bytes; None as a result is an access outside the
  memory. A data pointer is an address in memory or the bytes of a place that has
  no address in the model (the stack itself, a local variable). The machine is
  proved to implement a machine on a stack of byte strings.
\<close>


section \<open>The byte stack\<close>

text \<open>The bytes in use; their number is the size field.\<close>

record mdv_stack_base =
  st_capacity :: nat
  st_data :: bytes

definition mdv_stack_push :: "bytes \<Rightarrow> mdv_stack_base \<Rightarrow> mdv_stack_base option" where
  "mdv_stack_push items st =
     (if length (st_data st) + length items \<le> st_capacity st
      then Some (st \<lparr> st_data := st_data st @ items \<rparr>)
      else None)"

definition mdv_stack_pop :: "nat \<Rightarrow> mdv_stack_base \<Rightarrow> (bytes \<times> mdv_stack_base) option" where
  "mdv_stack_pop count st =
     (let size = length (st_data st) in
      if size \<ge> count
      then Some (drop (size - count) (st_data st), st \<lparr> st_data := take (size - count) (st_data st) \<rparr>)
      else None)"


section \<open>Memory\<close>

type_synonym memory = "u64 \<Rightarrow> u8 option"

primrec load_bytes :: "memory \<Rightarrow> u64 \<Rightarrow> nat \<Rightarrow> bytes option" where
  "load_bytes m p 0 = Some []"
| "load_bytes m p (Suc n) = do { b \<leftarrow> m p; bs \<leftarrow> load_bytes m (p + 1) n; Some (b # bs) }"

primrec store_bytes :: "bytes \<Rightarrow> u64 \<Rightarrow> memory \<Rightarrow> memory option" where
  "store_bytes [] p m = Some m"
| "store_bytes (b # bs) p m = do { _ \<leftarrow> m p; store_bytes bs (p + 1) (m(p \<mapsto> b)) }"

datatype vm_ptr = At u64 | Local bytes

definition ptr_bytes :: "memory \<Rightarrow> vm_ptr \<Rightarrow> nat \<Rightarrow> bytes option" where
  "ptr_bytes m p n =
     (case p of At a \<Rightarrow> load_bytes m a n | Local bs \<Rightarrow> if n \<le> length bs then Some (take n bs) else None)"

text \<open>\<^verbatim>\<open>memcmp\<close> on blocks of one size; C promises the sign only.\<close>

fun memcmp :: "bytes \<Rightarrow> bytes \<Rightarrow> int" where
  "memcmp (a # as) (b # bs) = (if a = b then memcmp as bs else if a < b then - 1 else 1)"
| "memcmp _ _ = 0"


section \<open>Data on the stack\<close>

record mdv_vm_datum =
  d_external :: bool
  d_size :: u32
  d_data :: vm_ptr

definition external_size :: nat where
  "external_size = 8"

definition stored_size :: "bool \<Rightarrow> u32 \<Rightarrow> nat" where
  "stored_size ext sz = (if ext then external_size else unat sz)"

text \<open>The bytes of the data part: the pointer itself for external data.\<close>

definition datum_bytes :: "memory \<Rightarrow> mdv_vm_datum \<Rightarrow> bytes option" where
  "datum_bytes m d =
     (if d_external d then case d_data d of At a \<Rightarrow> Some (le_bytes 8 a) | Local _ \<Rightarrow> None
      else ptr_bytes m (d_data d) (unat (d_size d)))"

text \<open>Three pushes, each only after the one before succeeded; a failed push leaves what came before.\<close>

definition mdv_vm_stack_push :: "memory \<Rightarrow> mdv_vm_datum \<Rightarrow> mdv_stack_base \<Rightarrow> (mdv_errno \<times> mdv_stack_base) option" where
  "mdv_vm_stack_push m d st =
     (if length (st_data st) + stored_size (d_external d) (d_size d) > st_capacity st
      then Some (MDV_STACK_OVERFLOW, st)
      else do {
        bs \<leftarrow> datum_bytes m d;
        case mdv_stack_push bs st of
          None \<Rightarrow> Some (MDV_STACK_OVERFLOW, st)
        | Some st \<Rightarrow>
            case mdv_stack_push (le_bytes 4 (d_size d)) st of
              None \<Rightarrow> Some (MDV_STACK_OVERFLOW, st)
            | Some st \<Rightarrow>
                case mdv_stack_push [if d_external d then 1 else 0] st of
                  None \<Rightarrow> Some (MDV_STACK_OVERFLOW, st)
                | Some st \<Rightarrow> Some (MDV_OK, st)
      })"

definition mdv_vm_stack_pop :: "mdv_stack_base \<Rightarrow> (mdv_errno + mdv_vm_datum) \<times> mdv_stack_base" where
  "mdv_vm_stack_pop st =
     (case mdv_stack_pop 1 st of
        None \<Rightarrow> (Inl MDV_FAILED, st)
      | Some (e, st) \<Rightarrow>
          case mdv_stack_pop 4 st of
            None \<Rightarrow> (Inl MDV_FAILED, st)
          | Some (s, st) \<Rightarrow>
              let external = hd e \<noteq> 0; size = le_word s in
              case mdv_stack_pop (stored_size external size) st of
                None \<Rightarrow> (Inl MDV_FAILED, st)
              | Some (bs, st) \<Rightarrow>
                  (Inr \<lparr> d_external = external, d_size = size,
                         d_data = if external then At (le_word bs) else Local bs \<rparr>, st))"

text \<open>The topmost datum with the position of its data part; the stack is left alone.\<close>

definition mdv_vm_stack_top :: "mdv_stack_base \<Rightarrow> mdv_errno + nat \<times> mdv_vm_datum" where
  "mdv_vm_stack_top st =
     (let data = st_data st; top = length data in
      if top < 1 + 4 then Inl MDV_FAILED
      else
        let external = data ! (top - 1) \<noteq> 0;
            size = le_word (subarray data (top - 1 - 4) 4);
            sz = stored_size external size
        in
        if sz + 1 + 4 > top then Inl MDV_FAILED
        else
          let pos = top - 1 - 4 - sz; bs = subarray data pos sz in
          Inr (pos, \<lparr> d_external = external, d_size = size,
                      d_data = if external then At (le_word bs) else Local bs \<rparr>))"

definition mdv_vm_result_as_bool :: "memory \<Rightarrow> mdv_stack_base \<Rightarrow> (mdv_errno + bool) option" where
  "mdv_vm_result_as_bool m st =
     (case mdv_vm_stack_top st of
        Inl err \<Rightarrow> Some (Inl err)
      | Inr (_, d) \<Rightarrow>
          if d_size d \<noteq> 1 then Some (Inl MDV_INVALID_TYPE)
          else do { bs \<leftarrow> ptr_bytes m (d_data d) 1; Some (Inr (hd bs \<noteq> 0)) })"


section \<open>Functions of the machine\<close>

type_synonym vm_state = "memory \<times> mdv_stack_base"
type_synonym mdv_vm_fn = "vm_state \<Rightarrow> (mdv_errno \<times> vm_state) option"

definition mdv_vm_stack_pop_pair :: "mdv_stack_base \<Rightarrow> (mdv_errno + mdv_vm_datum \<times> mdv_vm_datum) \<times> mdv_stack_base" where
  "mdv_vm_stack_pop_pair st =
     (case mdv_vm_stack_pop st of
        (Inl err, st) \<Rightarrow> (Inl err, st)
      | (Inr op1, st) \<Rightarrow>
          case mdv_vm_stack_pop st of
            (Inl err, st) \<Rightarrow> (Inl err, st)
          | (Inr op0, st) \<Rightarrow> (Inr (op0, op1), st))"

text \<open>The common frame of the binary functions: pop a pair, then work on it.\<close>

definition with_pair ::
  "(memory \<Rightarrow> mdv_vm_datum \<Rightarrow> mdv_vm_datum \<Rightarrow> mdv_stack_base \<Rightarrow> (mdv_errno \<times> mdv_stack_base) option) \<Rightarrow> mdv_vm_fn" where
  "with_pair f s =
     (case mdv_vm_stack_pop_pair (snd s) of
        (Inl err, st) \<Rightarrow> Some (err, fst s, st)
      | (Inr (op0, op1), st) \<Rightarrow> map_option (\<lambda>(err, st). (err, fst s, st)) (f (fst s) op0 op1 st))"

definition push_bool :: "memory \<Rightarrow> bool \<Rightarrow> mdv_stack_base \<Rightarrow> (mdv_errno \<times> mdv_stack_base) option" where
  "push_bool m b st =
     mdv_vm_stack_push m \<lparr> d_external = False, d_size = 1, d_data = Local [if b then 0xFF else 0] \<rparr> st"

definition data_equal :: "memory \<Rightarrow> mdv_vm_datum \<Rightarrow> mdv_vm_datum \<Rightarrow> bool option" where
  "data_equal m a b =
     (if d_size a \<noteq> d_size b then Some False
      else do {
        x \<leftarrow> ptr_bytes m (d_data a) (unat (d_size a));
        y \<leftarrow> ptr_bytes m (d_data b) (unat (d_size a));
        Some (memcmp x y = 0) })"

text \<open>The comparison of the common beginning.\<close>

definition data_cmp :: "memory \<Rightarrow> mdv_vm_datum \<Rightarrow> mdv_vm_datum \<Rightarrow> int option" where
  "data_cmp m a b =
     (let n = unat (if d_size a < d_size b then d_size a else d_size b) in do {
        x \<leftarrow> ptr_bytes m (d_data a) n;
        y \<leftarrow> ptr_bytes m (d_data b) n;
        Some (memcmp x y) })"

definition mdv_vmop_equal :: mdv_vm_fn where
  "mdv_vmop_equal = with_pair (\<lambda>m a b st. do { r \<leftarrow> data_equal m a b; push_bool m r st })"

definition mdv_vmop_not_equal :: mdv_vm_fn where
  "mdv_vmop_not_equal = with_pair (\<lambda>m a b st. do { r \<leftarrow> data_equal m a b; push_bool m (\<not> r) st })"

definition mdv_vmop_greater :: mdv_vm_fn where
  "mdv_vmop_greater = with_pair (\<lambda>m a b st. do {
     c \<leftarrow> data_cmp m a b; push_bool m (c > 0 \<or> c = 0 \<and> d_size a > d_size b) st })"

definition mdv_vmop_greater_or_equal :: mdv_vm_fn where
  "mdv_vmop_greater_or_equal = with_pair (\<lambda>m a b st. do {
     c \<leftarrow> data_cmp m a b; push_bool m (c > 0 \<or> c = 0 \<and> d_size a \<ge> d_size b) st })"

definition mdv_vmop_less :: mdv_vm_fn where
  "mdv_vmop_less = with_pair (\<lambda>m a b st. do {
     c \<leftarrow> data_cmp m a b; push_bool m (c < 0 \<or> c = 0 \<and> d_size a < d_size b) st })"

definition mdv_vmop_less_or_equal :: mdv_vm_fn where
  "mdv_vmop_less_or_equal = with_pair (\<lambda>m a b st. do {
     c \<leftarrow> data_cmp m a b; push_bool m (c < 0 \<or> c = 0 \<and> d_size a \<le> d_size b) st })"

text \<open>Bytewise connectives; operands of different sizes are refused.\<close>

definition bytewise :: "(u8 \<Rightarrow> u8 \<Rightarrow> u8) \<Rightarrow> mdv_vm_fn" where
  "bytewise f = with_pair (\<lambda>m a b st.
     if d_size a \<noteq> d_size b then Some (MDV_INVALID_ARG, st)
     else do {
       x \<leftarrow> ptr_bytes m (d_data a) (unat (d_size a));
       y \<leftarrow> ptr_bytes m (d_data b) (unat (d_size a));
       mdv_vm_stack_push m \<lparr> d_external = False, d_size = d_size a, d_data = Local (map2 f x y) \<rparr> st })"

definition mdv_vmop_and :: mdv_vm_fn where
  "mdv_vmop_and = bytewise (AND)"

definition mdv_vmop_or :: mdv_vm_fn where
  "mdv_vmop_or = bytewise (OR)"

text \<open>The negation overwrites the data in place: in memory, if it is external.\<close>

definition mdv_vmop_not :: mdv_vm_fn where
  "mdv_vmop_not s =
     (case mdv_vm_stack_top (snd s) of
        Inl err \<Rightarrow> Some (err, s)
      | Inr (pos, op) \<Rightarrow>
          case d_data op of
            At a \<Rightarrow> do {
              bs \<leftarrow> load_bytes (fst s) a (unat (d_size op));
              m \<leftarrow> store_bytes (map NOT bs) a (fst s);
              Some (MDV_OK, m, snd s) }
          | Local bs \<Rightarrow>
              Some (MDV_OK, fst s, snd s \<lparr> st_data := blit (st_data (snd s)) pos (map NOT bs) \<rparr>))"


section \<open>The interpreter\<close>

text \<open>One round of the loop: error code, instruction pointer and state. A zero pointer ends the loop.\<close>

definition vm_step :: "mdv_vm_fn list \<Rightarrow> mdv_errno \<times> u64 \<times> vm_state \<Rightarrow> (mdv_errno \<times> u64 \<times> vm_state) option" where
  "vm_step fns = (\<lambda>(err, ip, m, st). do {
     op \<leftarrow> m ip;
     let ip = ip + 1 in
     if op = 0 then Some (err, ip, m, st)
     else if op = 1 then do {
       ext \<leftarrow> m ip;
       size \<leftarrow> load_bytes m (ip + 1) 4;
       let datum = \<lparr> d_external = (ext \<noteq> 0), d_size = le_word size, d_data = At (ip + 1 + 4) \<rparr> in do {
         (err, st) \<leftarrow> mdv_vm_stack_push m datum st;
         Some (err, if err \<noteq> MDV_OK then 0
                    else ip + 1 + 4 + of_nat (stored_size (d_external datum) (d_size datum)), m, st) } }
     else if op = 0xFF then Some (err, 0, m, st)
     else if op = 2 then do {
       fn \<leftarrow> load_bytes m ip 2;
       let id = le_value fn in
       if id \<ge> length fns then Some (MDV_NO_IMPL, 0, m, st)
       else do {
         (err, m, st) \<leftarrow> (fns ! id) (m, st);
         Some (err, if err \<noteq> MDV_OK then 0 else ip + 2, m, st) } }
     else Some (MDV_FAILED, 0, m, st) })"

partial_function (option) vm_loop :: "mdv_vm_fn list \<Rightarrow> mdv_errno \<times> u64 \<times> vm_state \<Rightarrow> (mdv_errno \<times> vm_state) option" where
  "vm_loop fns c = do {
     (err, ip, s) \<leftarrow> vm_step fns c;
     if ip = 0 then Some (err, s) else vm_loop fns (err, ip, s) }"

definition mdv_vm_run :: "mdv_vm_fn list \<Rightarrow> u64 \<Rightarrow> vm_state \<Rightarrow> (mdv_errno \<times> vm_state) option" where
  "mdv_vm_run fns program s = vm_loop fns (MDV_OK, program, s)"


section \<open>A machine on byte strings\<close>

text \<open>Byte strings, topmost first, laid out as data that is not external.\<close>

definition frame_bytes :: "bytes \<Rightarrow> bytes" where
  "frame_bytes bs = bs @ le_bytes 4 (of_nat (length bs) :: u32) @ [0]"

definition stack_bytes :: "bytes list \<Rightarrow> bytes" where
  "stack_bytes xs = concat (map frame_bytes (rev xs))"

definition stack_room :: "bytes list \<Rightarrow> nat" where
  "stack_room xs = (\<Sum>bs\<leftarrow>xs. length bs + 5)"

definition vm_rep :: "nat \<Rightarrow> bytes list \<Rightarrow> mdv_stack_base \<Rightarrow> bool" where
  "vm_rep cap xs st \<longleftrightarrow> st_capacity st = cap \<and> st_data st = stack_bytes xs \<and> stack_room xs \<le> cap \<and>
     (\<forall>bs \<in> set xs. length bs < 2 ^ 32)"

definition datum_of :: "bytes \<Rightarrow> mdv_vm_datum" where
  "datum_of bs = \<lparr> d_external = False, d_size = of_nat (length bs), d_data = Local bs \<rparr>"

lemma length_frame_bytes [simp]: "length (frame_bytes bs) = length bs + 5"
  by (simp add: frame_bytes_def)

lemma stack_bytes_simps [simp]:
  "stack_bytes [] = []" "stack_bytes (bs # xs) = stack_bytes xs @ frame_bytes bs"
  by (simp_all add: stack_bytes_def)

lemma length_stack_bytes [simp]: "length (stack_bytes xs) = stack_room xs"
  by (induction xs) (simp_all add: stack_room_def)

lemma stack_room_simps [simp]: "stack_room [] = 0" "stack_room (bs # xs) = length bs + 5 + stack_room xs"
  by (simp_all add: stack_room_def)

lemma unat_length_u32: "n < 2 ^ 32 \<Longrightarrow> unat (of_nat n :: u32) = n"
  by (simp add: unat_of_nat)

lemma le_word_length [simp]: "le_word (le_bytes 4 (w :: u32)) = w"
  by simp

text \<open>The stack operations on laid-out byte strings.\<close>

lemma push_rep:
  assumes "vm_rep cap xs st" "length bs < 2 ^ 32" "ptr_bytes m p (length bs) = Some bs"
  shows "\<exists>err st'. mdv_vm_stack_push m \<lparr> d_external = False, d_size = of_nat (length bs), d_data = p \<rparr> st = Some (err, st') \<and>
    (if stack_room (bs # xs) \<le> cap then err = MDV_OK \<and> vm_rep cap (bs # xs) st' else err = MDV_STACK_OVERFLOW)"
  using assms
  by (auto simp: vm_rep_def mdv_vm_stack_push_def stored_size_def datum_bytes_def unat_length_u32
      mdv_stack_push_def frame_bytes_def)

lemma pop_rep:
  assumes "vm_rep cap (bs # xs) st"
  shows "mdv_vm_stack_pop st = (Inr (datum_of bs), st \<lparr> st_data := stack_bytes xs \<rparr>) \<and>
    vm_rep cap xs (st \<lparr> st_data := stack_bytes xs \<rparr>)"
  using assms
  by (simp add: vm_rep_def mdv_vm_stack_pop_def mdv_stack_pop_def frame_bytes_def Let_def stored_size_def
      unat_length_u32 datum_of_def)

lemma pop_empty: "vm_rep cap [] st \<Longrightarrow> mdv_vm_stack_pop st = (Inl MDV_FAILED, st)"
  by (simp add: vm_rep_def mdv_vm_stack_pop_def mdv_stack_pop_def)

lemma top_rep:
  assumes "vm_rep cap (bs # xs) st"
  shows "mdv_vm_stack_top st = Inr (stack_room xs, datum_of bs)"
proof -
  have data: "st_data st = stack_bytes xs @ bs @ le_bytes 4 (of_nat (length bs) :: u32) @ [0]" "length bs < 2 ^ 32"
    using assms by (simp_all add: vm_rep_def frame_bytes_def)
  have "subarray (st_data st) (stack_room xs + length bs) 4 = le_bytes 4 (of_nat (length bs) :: u32)"
    "subarray (st_data st) (stack_room xs) (length bs) = bs"
    "st_data st ! (4 + (stack_room xs + length bs)) = 0"
    by (simp_all add: data(1) subarray_def nth_append)
  then show ?thesis
    using data by (simp add: mdv_vm_stack_top_def Let_def stored_size_def unat_length_u32 datum_of_def)
qed

lemma top_empty: "vm_rep cap [] st \<Longrightarrow> mdv_vm_stack_top st = Inl MDV_FAILED"
  by (simp add: vm_rep_def mdv_vm_stack_top_def)

lemma result_as_bool_rep:
  assumes "vm_rep cap (bs # xs) st"
  shows "mdv_vm_result_as_bool m st = Some (if length bs = 1 then Inr (hd bs \<noteq> 0) else Inl MDV_INVALID_TYPE)"
proof -
  have "length bs < 2 ^ 32" using assms by (simp add: vm_rep_def)
  then have "(of_nat (length bs) :: u32) = 1 \<longleftrightarrow> length bs = 1"
    using unat_length_u32 [of "length bs"] by (metis of_nat_1 unat_1)
  then show ?thesis
    by (simp add: mdv_vm_result_as_bool_def top_rep [OF assms] datum_of_def ptr_bytes_def)
qed

lemma memcmp_lexordp:
  fixes a b :: bytes
  defines "n \<equiv> min (length a) (length b)"
  shows "(memcmp (take n a) (take n b) < 0 \<or> memcmp (take n a) (take n b) = 0 \<and> length a < length b \<longleftrightarrow> ord_class.lexordp a b) \<and>
    (memcmp (take n a) (take n b) > 0 \<or> memcmp (take n a) (take n b) = 0 \<and> length b < length a \<longleftrightarrow> ord_class.lexordp b a)"
  unfolding n_def
proof (induction a b rule: memcmp.induct)
  case (1 x xs y ys)
  then show ?case by (cases x y rule: linorder_cases) auto
qed (auto split: list.splits)

lemma memcmp_eq: "length a = length b \<Longrightarrow> memcmp a b = 0 \<longleftrightarrow> a = b"
  by (induction a b rule: list_induct2) auto

text \<open>What a function does to the byte strings: an error or the new strings.\<close>

type_synonym vm_spec_fn = "bytes list \<Rightarrow> mdv_errno + bytes list"

definition truth :: "bool \<Rightarrow> bytes" where
  "truth b = [if b then 0xFF else 0]"

definition spec_rel :: "(bytes \<Rightarrow> bytes \<Rightarrow> bool) \<Rightarrow> vm_spec_fn" where
  "spec_rel f xs = (case xs of b # a # xs \<Rightarrow> Inr (truth (f a b) # xs) | _ \<Rightarrow> Inl MDV_FAILED)"

definition spec_bytewise :: "(u8 \<Rightarrow> u8 \<Rightarrow> u8) \<Rightarrow> vm_spec_fn" where
  "spec_bytewise f xs = (case xs of
     b # a # xs \<Rightarrow> if length a = length b then Inr (map2 f a b # xs) else Inl MDV_INVALID_ARG
   | _ \<Rightarrow> Inl MDV_FAILED)"

definition spec_not :: vm_spec_fn where
  "spec_not xs = (case xs of a # xs \<Rightarrow> Inr (map NOT a # xs) | [] \<Rightarrow> Inl MDV_FAILED)"

definition implements :: "mdv_vm_fn \<Rightarrow> vm_spec_fn \<Rightarrow> bool" where
  "implements f g \<longleftrightarrow> (\<forall>cap xs m st. vm_rep cap xs st \<longrightarrow>
     (case g xs of
        Inl e \<Rightarrow> e \<noteq> MDV_OK \<and> (\<exists>s. f (m, st) = Some (e, s))
      | Inr ys \<Rightarrow> \<exists>st'. f (m, st) = Some (MDV_OK, m, st') \<and> vm_rep cap ys st'))"

lemma pop_pair_rep:
  assumes "vm_rep cap (b # a # xs) st"
  shows "mdv_vm_stack_pop_pair st = (Inr (datum_of a, datum_of b), st \<lparr> st_data := stack_bytes xs \<rparr>) \<and>
    vm_rep cap xs (st \<lparr> st_data := stack_bytes xs \<rparr>)"
  using pop_rep [OF assms] pop_rep [of cap a xs "st \<lparr> st_data := stack_bytes (a # xs) \<rparr>"]
  by (simp add: mdv_vm_stack_pop_pair_def)

lemma pop_pair_short:
  assumes "vm_rep cap xs st" "length xs < 2"
  shows "\<exists>st'. mdv_vm_stack_pop_pair st = (Inl MDV_FAILED, st')"
proof (cases xs)
  case Nil
  with assms show ?thesis by (simp add: mdv_vm_stack_pop_pair_def pop_empty)
next
  case (Cons b ys)
  with assms have "ys = []" by simp
  with assms Cons pop_rep [of cap b "[]" st] show ?thesis
    by (simp add: mdv_vm_stack_pop_pair_def pop_empty [of cap])
qed

text \<open>A binary function works as soon as its body does on a pair of byte strings.\<close>

lemma with_pair_implements:
  assumes short: "\<And>xs. length xs < 2 \<Longrightarrow> g xs = Inl MDV_FAILED"
    and body: "\<And>cap a b xs m st. vm_rep cap xs st \<Longrightarrow> length a < 2 ^ 32 \<Longrightarrow> length b < 2 ^ 32 \<Longrightarrow>
      stack_room (b # a # xs) \<le> cap \<Longrightarrow>
      (case g (b # a # xs) of
         Inl e \<Rightarrow> e \<noteq> MDV_OK \<and> (\<exists>st'. f m (datum_of a) (datum_of b) st = Some (e, st'))
       | Inr ys \<Rightarrow> \<exists>st'. f m (datum_of a) (datum_of b) st = Some (MDV_OK, st') \<and> vm_rep cap ys st')"
  shows "implements (with_pair f) g"
  unfolding implements_def
proof (intro allI impI)
  fix cap xs m st
  assume rep: "vm_rep cap xs st"
  show "case g xs of Inl e \<Rightarrow> e \<noteq> MDV_OK \<and> (\<exists>s. with_pair f (m, st) = Some (e, s))
    | Inr ys \<Rightarrow> \<exists>st'. with_pair f (m, st) = Some (MDV_OK, m, st') \<and> vm_rep cap ys st'"
  proof (cases "length xs < 2")
    case True
    with pop_pair_short [OF rep] show ?thesis by (auto simp: short with_pair_def)
  next
    case False
    then obtain b a ys where xs: "xs = b # a # ys" by (cases xs; cases "tl xs") auto
    with rep have len: "length a < 2 ^ 32" "length b < 2 ^ 32" "stack_room (b # a # ys) \<le> cap"
      by (simp_all add: vm_rep_def)
    have "vm_rep cap (b # a # ys) st" using rep xs by simp
    note pair = pop_pair_rep [OF this]
    from body [OF conjunct2 [OF pair] len, of m] pair show ?thesis
      by (auto simp: with_pair_def xs split: sum.splits)
  qed
qed

lemma push_bool_rep:
  assumes "vm_rep cap xs st" "stack_room (b # a # xs) \<le> cap"
  shows "\<exists>st'. push_bool m r st = Some (MDV_OK, st') \<and> vm_rep cap (truth r # xs) st'"
  using push_rep [OF assms(1), of "truth r" m "Local (truth r)"] assms(2)
  by (auto simp: push_bool_def truth_def ptr_bytes_def)

lemma data_cmp_rep:
  assumes "length a < 2 ^ 32" "length b < 2 ^ 32"
  shows "data_cmp m (datum_of a) (datum_of b) =
    Some (memcmp (take (min (length a) (length b)) a) (take (min (length a) (length b)) b))"
  using assms
  by (simp add: data_cmp_def datum_of_def ptr_bytes_def word_less_nat_alt unat_length_u32 min_def)

lemma data_size_rep:
  assumes "length a < 2 ^ 32" "length b < 2 ^ 32"
  shows "(d_size (datum_of a) < d_size (datum_of b) \<longleftrightarrow> length a < length b) \<and>
    (d_size (datum_of a) \<le> d_size (datum_of b) \<longleftrightarrow> length a \<le> length b) \<and>
    (d_size (datum_of a) = d_size (datum_of b) \<longleftrightarrow> length a = length b)"
  using assms
  by (simp add: datum_of_def word_less_nat_alt word_le_nat_alt word_eq_iff_unsigned [where ?'a = nat] unat_length_u32)

lemma data_equal_rep:
  assumes "length a < 2 ^ 32" "length b < 2 ^ 32"
  shows "data_equal m (datum_of a) (datum_of b) = Some (a = b)"
proof (cases "length a = length b")
  case True
  then show ?thesis using assms
    by (simp add: data_equal_def datum_of_def ptr_bytes_def unat_length_u32 memcmp_eq)
next
  case False
  with data_size_rep [OF assms] show ?thesis by (auto simp: data_equal_def)
qed

lemma rel_implements:
  assumes "\<And>m a b. length a < 2 ^ 32 \<Longrightarrow> length b < 2 ^ 32 \<Longrightarrow> r m (datum_of a) (datum_of b) = Some (f a b)"
  shows "implements (with_pair (\<lambda>m a b st. do { r \<leftarrow> r m a b; push_bool m r st })) (spec_rel f)"
proof (rule with_pair_implements)
  fix xs :: "bytes list" assume "length xs < 2"
  then show "spec_rel f xs = Inl MDV_FAILED" by (auto simp: spec_rel_def split: list.split)
next
  fix cap a b xs m st
  assume "vm_rep cap xs st" "length a < 2 ^ 32" "length b < 2 ^ 32" "stack_room (b # a # xs) \<le> cap"
  with push_bool_rep [of cap xs st b a m "f a b"] assms [of a b m]
  show "case spec_rel f (b # a # xs) of
      Inl e \<Rightarrow> e \<noteq> MDV_OK \<and> (\<exists>st'. do { r \<leftarrow> r m (datum_of a) (datum_of b); push_bool m r st } = Some (e, st'))
    | Inr ys \<Rightarrow> \<exists>st'. do { r \<leftarrow> r m (datum_of a) (datum_of b); push_bool m r st } = Some (MDV_OK, st') \<and> vm_rep cap ys st'"
    by (simp add: spec_rel_def)
qed

lemma cmp_implements:
  assumes "\<And>a b. length a < 2 ^ 32 \<Longrightarrow> length b < 2 ^ 32 \<Longrightarrow>
    t (memcmp (take (min (length a) (length b)) a) (take (min (length a) (length b)) b)) (datum_of a) (datum_of b) \<longleftrightarrow> f a b"
  shows "implements (with_pair (\<lambda>m a b st. do { c \<leftarrow> data_cmp m a b; push_bool m (t c a b) st })) (spec_rel f)"
proof -
  have "implements (with_pair (\<lambda>m a b st. do { r \<leftarrow> map_option (\<lambda>c. t c a b) (data_cmp m a b); push_bool m r st })) (spec_rel f)"
    by (rule rel_implements) (simp add: data_cmp_rep assms)
  moreover have "(\<lambda>m a b st. do { r \<leftarrow> map_option (\<lambda>c. t c a b) (data_cmp m a b); push_bool m r st }) =
      (\<lambda>m a b st. do { c \<leftarrow> data_cmp m a b; push_bool m (t c a b) st })"
    by (intro ext) (simp split: Option.bind_split)
  ultimately show ?thesis by simp
qed

lemma equal_implements:
  "implements mdv_vmop_equal (spec_rel (=))" "implements mdv_vmop_not_equal (spec_rel (\<noteq>))"
  using rel_implements [of data_equal "(=)"]
    rel_implements [of "\<lambda>m a b. map_option Not (data_equal m a b)" "(\<noteq>)"]
  by (simp_all add: mdv_vmop_equal_def mdv_vmop_not_equal_def data_equal_rep Option.bind_map_option comp_def)

lemma ordered_tests:
  fixes a b :: bytes
  defines "c \<equiv> memcmp (take (min (length a) (length b)) a) (take (min (length a) (length b)) b)"
  assumes "length a < 2 ^ 32" "length b < 2 ^ 32"
  shows "(c > 0 \<or> c = 0 \<and> d_size (datum_of a) > d_size (datum_of b) \<longleftrightarrow> ord_class.lexordp b a) \<and>
    (c > 0 \<or> c = 0 \<and> d_size (datum_of a) \<ge> d_size (datum_of b) \<longleftrightarrow> \<not> ord_class.lexordp a b) \<and>
    (c < 0 \<or> c = 0 \<and> d_size (datum_of a) < d_size (datum_of b) \<longleftrightarrow> ord_class.lexordp a b) \<and>
    (c < 0 \<or> c = 0 \<and> d_size (datum_of a) \<le> d_size (datum_of b) \<longleftrightarrow> \<not> ord_class.lexordp b a)"
  unfolding data_size_rep [OF assms(2,3), THEN conjunct1] data_size_rep [OF assms(3,2), THEN conjunct1]
    data_size_rep [OF assms(2,3), THEN conjunct2, THEN conjunct1] data_size_rep [OF assms(3,2), THEN conjunct2, THEN conjunct1]
  using memcmp_lexordp [of a b] unfolding c_def by linarith

lemma ordered_implements:
  "implements mdv_vmop_greater (spec_rel (\<lambda>a b. ord_class.lexordp b a))"
  "implements mdv_vmop_greater_or_equal (spec_rel (\<lambda>a b. \<not> ord_class.lexordp a b))"
  "implements mdv_vmop_less (spec_rel ord_class.lexordp)"
  "implements mdv_vmop_less_or_equal (spec_rel (\<lambda>a b. \<not> ord_class.lexordp b a))"
  unfolding mdv_vmop_greater_def mdv_vmop_greater_or_equal_def mdv_vmop_less_def mdv_vmop_less_or_equal_def
  by (rule cmp_implements; use ordered_tests in blast)+

lemma bytewise_implements: "implements (bytewise f) (spec_bytewise f)"
  unfolding bytewise_def
proof (rule with_pair_implements)
  fix xs :: "bytes list" assume "length xs < 2"
  then show "spec_bytewise f xs = Inl MDV_FAILED" by (auto simp: spec_bytewise_def split: list.split)
next
  fix cap a b xs m st
  assume rep: "vm_rep cap xs st" "length a < 2 ^ 32" "length b < 2 ^ 32" "stack_room (b # a # xs) \<le> cap"
  show "case spec_bytewise f (b # a # xs) of
      Inl e \<Rightarrow> e \<noteq> MDV_OK \<and> (\<exists>st'. (if d_size (datum_of a) \<noteq> d_size (datum_of b) then Some (MDV_INVALID_ARG, st)
        else do {
          x \<leftarrow> ptr_bytes m (d_data (datum_of a)) (unat (d_size (datum_of a)));
          y \<leftarrow> ptr_bytes m (d_data (datum_of b)) (unat (d_size (datum_of a)));
          mdv_vm_stack_push m \<lparr> d_external = False, d_size = d_size (datum_of a), d_data = Local (map2 f x y) \<rparr> st }) = Some (e, st'))
    | Inr ys \<Rightarrow> \<exists>st'. (if d_size (datum_of a) \<noteq> d_size (datum_of b) then Some (MDV_INVALID_ARG, st)
        else do {
          x \<leftarrow> ptr_bytes m (d_data (datum_of a)) (unat (d_size (datum_of a)));
          y \<leftarrow> ptr_bytes m (d_data (datum_of b)) (unat (d_size (datum_of a)));
          mdv_vm_stack_push m \<lparr> d_external = False, d_size = d_size (datum_of a), d_data = Local (map2 f x y) \<rparr> st }) = Some (MDV_OK, st')
          \<and> vm_rep cap ys st'"
  proof (cases "length a = length b")
    case True
    with push_rep [OF rep(1), of "map2 f a b" m "Local (map2 f a b)"] rep(2-) show ?thesis
      by (auto simp: spec_bytewise_def datum_of_def ptr_bytes_def unat_length_u32)
  next
    case False
    with data_size_rep [OF rep(2,3)] show ?thesis by (simp add: spec_bytewise_def)
  qed
qed

lemma not_implements: "implements mdv_vmop_not spec_not"
  unfolding implements_def
proof (intro allI impI)
  fix cap xs m st
  assume rep: "vm_rep cap xs st"
  show "case spec_not xs of Inl e \<Rightarrow> e \<noteq> MDV_OK \<and> (\<exists>s. mdv_vmop_not (m, st) = Some (e, s))
    | Inr ys \<Rightarrow> \<exists>st'. mdv_vmop_not (m, st) = Some (MDV_OK, m, st') \<and> vm_rep cap ys st'"
  proof (cases xs)
    case Nil
    with rep show ?thesis by (simp add: spec_not_def mdv_vmop_not_def top_empty)
  next
    case (Cons a ys)
    have "vm_rep cap (map NOT a # ys) (st \<lparr> st_data := blit (st_data st) (stack_room ys) (map NOT a) \<rparr>)"
      using rep Cons by (simp add: vm_rep_def blit_def frame_bytes_def)
    with top_rep [of cap a ys st] rep Cons show ?thesis
      by (simp add: spec_not_def mdv_vmop_not_def datum_of_def)
  qed
qed

end
