(* ===== verification/Mdv_Vm_Run.thy ===== *)
theory Mdv_Vm_Run
  imports Mdv_Vm
begin

text \<open>
  The interpreter of \<^verbatim>\<open>mdv_platform/mdv_vm.c\<close> against a machine on instruction lists.
  A program image in memory is a sequence of encoded instructions closed by the
  end mark; the functions a program may call are given by the contract of the
  locale \<open>vm_functions\<close>. Also: no program whatsoever makes the stack exceed its
  capacity.
\<close>


section \<open>Instructions\<close>

datatype vm_instr = Nop | Push bytes | Call u16

primrec encode :: "vm_instr \<Rightarrow> bytes" where
  "encode Nop = [0]"
| "encode (Push bs) = [1, 0] @ le_bytes 4 (of_nat (length bs) :: u32) @ bs"
| "encode (Call f) = [2] @ le_bytes 2 f"

definition program_image :: "vm_instr list \<Rightarrow> bytes" where
  "program_image is = concat (map encode is) @ [0xFF]"

primrec instr_ok :: "vm_instr \<Rightarrow> bool" where
  "instr_ok Nop = True"
| "instr_ok (Push bs) \<longleftrightarrow> length bs < 2 ^ 32"
| "instr_ok (Call f) = True"

text \<open>The image lies in memory at a nonzero address and does not wrap.\<close>

definition loaded :: "memory \<Rightarrow> u64 \<Rightarrow> bytes \<Rightarrow> bool" where
  "loaded m p bs \<longleftrightarrow> 0 < unat p \<and> unat p + length bs < 2 ^ 64 \<and> load_bytes m p (length bs) = Some bs"

primrec spec_step :: "vm_spec_fn list \<Rightarrow> nat \<Rightarrow> vm_instr \<Rightarrow> vm_spec_fn" where
  "spec_step fs cap Nop xs = Inr xs"
| "spec_step fs cap (Push bs) xs = (if stack_room (bs # xs) \<le> cap then Inr (bs # xs) else Inl MDV_STACK_OVERFLOW)"
| "spec_step fs cap (Call f) xs = (if unat f < length fs then (fs ! unat f) xs else Inl MDV_NO_IMPL)"

primrec spec_run :: "vm_spec_fn list \<Rightarrow> nat \<Rightarrow> vm_instr list \<Rightarrow> vm_spec_fn" where
  "spec_run fs cap [] xs = Inr xs"
| "spec_run fs cap (i # is) xs =
     (case spec_step fs cap i xs of Inl e \<Rightarrow> Inl e | Inr ys \<Rightarrow> spec_run fs cap is ys)"


section \<open>Reading the image\<close>

lemma load_bytes_add:
  "load_bytes m p (a + b) = do { x \<leftarrow> load_bytes m p a; y \<leftarrow> load_bytes m (p + of_nat a) b; Some (x @ y) }"
  by (induction a arbitrary: p) (simp_all add: add.assoc Option.bind_assoc)

lemma length_load_bytes: "load_bytes m p n = Some bs \<Longrightarrow> length bs = n"
  by (induction n arbitrary: p bs) (auto split: Option.bind_splits)

lemma unat_add_small: "unat (p :: u64) + n < 2 ^ 64 \<Longrightarrow> unat (p + of_nat n) = unat p + n"
  by (simp add: unat_word_ariths unat_of_nat mod_less)

lemma loaded_append:
  assumes "loaded m p (xs @ ys)"
  shows "load_bytes m p (length xs) = Some xs \<and> loaded m (p + of_nat (length xs)) ys"
proof -
  from assms have load: "load_bytes m p (length xs + length ys) = Some (xs @ ys)"
    and fits: "0 < unat p" "unat p + length xs + length ys < 2 ^ 64" by (simp_all add: loaded_def)
  from load obtain x y where "load_bytes m p (length xs) = Some x" "load_bytes m (p + of_nat (length xs)) (length ys) = Some y"
    "x @ y = xs @ ys" by (auto simp: load_bytes_add split: Option.bind_splits)
  moreover from this have "length x = length xs" by (auto dest: length_load_bytes)
  ultimately show ?thesis using fits by (simp add: loaded_def unat_add_small)
qed

lemma loaded_Cons:
  "loaded m p (b # bs) \<Longrightarrow> m p = Some b \<and> loaded m (p + 1) bs"
  using loaded_append [of m p "[b]" bs] by (auto split: Option.bind_splits)

lemma loaded_nonzero: "loaded m p bs \<Longrightarrow> p \<noteq> 0"
  by (auto simp: loaded_def)

lemma le_value_u16 [simp]: "le_value (le_bytes 2 (w :: u16)) = unat w"
  using unat_bounds by (simp add: le_value_le_bytes)


section \<open>The interpreter on an image\<close>

text \<open>The contract of the functions: each works on byte strings as its specification says.\<close>

locale vm_functions =
  fixes fns :: "mdv_vm_fn list" and specs :: "vm_spec_fn list"
  assumes same_length: "length fns = length specs"
    and each_implements: "i < length fns \<Longrightarrow> implements (fns ! i) (specs ! i)"
begin

lemma step_run:
  assumes "loaded m p (encode i @ rest)" "instr_ok i" "vm_rep cap xs st"
  shows "case spec_step specs cap i xs of
      Inl e \<Rightarrow> \<exists>s. vm_step fns (MDV_OK, p, m, st) = Some (e, 0, s)
    | Inr ys \<Rightarrow> \<exists>st'. vm_step fns (MDV_OK, p, m, st) = Some (MDV_OK, p + of_nat (length (encode i)), m, st') \<and> vm_rep cap ys st'"
proof (cases i)
  case Nop
  with assms loaded_Cons [of m p 0 rest] show ?thesis by (simp add: vm_step_def)
next
  case (Push bs)
  have at: "m p = Some 1" "loaded m (p + 1) (0 # le_bytes 4 (of_nat (length bs) :: u32) @ bs @ rest)"
    using assms(1) Push loaded_Cons [of m p 1] by simp_all
  from loaded_Cons [OF at(2)] have ext: "m (p + 1) = Some 0"
    "loaded m (p + 1 + 1) (le_bytes 4 (of_nat (length bs) :: u32) @ bs @ rest)" by simp_all
  from loaded_append [OF ext(2)] have len: "load_bytes m (p + 1 + 1) 4 = Some (le_bytes 4 (of_nat (length bs) :: u32))"
    "loaded m (p + 1 + 1 + 4) (bs @ rest)" by simp_all
  from loaded_append [OF len(2)] have "ptr_bytes m (At (p + 1 + 1 + 4)) (length bs) = Some bs"
    by (simp add: ptr_bytes_def)
  with push_rep [OF assms(3), of bs m "At (p + 1 + 1 + 4)"] assms(2) Push obtain err st' where
    "mdv_vm_stack_push m \<lparr> d_external = False, d_size = of_nat (length bs), d_data = At (p + 1 + 1 + 4) \<rparr> st = Some (err, st')"
    "if stack_room (bs # xs) \<le> cap then err = MDV_OK \<and> vm_rep cap (bs # xs) st' else err = MDV_STACK_OVERFLOW"
    by auto
  then show ?thesis using at ext len assms(2) Push
    by (auto simp: vm_step_def Let_def stored_size_def unat_length_u32 add.assoc)
next
  case (Call f)
  have at: "m p = Some 2" "load_bytes m (p + 1) 2 = Some (le_bytes 2 f)"
    using assms(1) Call loaded_Cons [of m p 2] loaded_append [of m "p + 1" "le_bytes 2 f" rest] by simp_all
  show ?thesis
  proof (cases "unat f < length fns")
    case True
    with each_implements [of "unat f"] assms(3) have
      "case (specs ! unat f) xs of Inl e \<Rightarrow> e \<noteq> MDV_OK \<and> (\<exists>s. (fns ! unat f) (m, st) = Some (e, s))
        | Inr ys \<Rightarrow> \<exists>st'. (fns ! unat f) (m, st) = Some (MDV_OK, m, st') \<and> vm_rep cap ys st'"
      by (simp add: implements_def)
    with True at Call same_length show ?thesis
      by (auto simp: vm_step_def Let_def add.assoc split: sum.splits)
  next
    case False
    with at Call same_length show ?thesis by (simp add: vm_step_def Let_def)
  qed
qed

lemma loop_run:
  assumes "loaded m p (program_image is)" "\<forall>i \<in> set is. instr_ok i" "vm_rep cap xs st"
  shows "case spec_run specs cap is xs of
      Inl e \<Rightarrow> \<exists>s. vm_loop fns (MDV_OK, p, m, st) = Some (e, s)
    | Inr ys \<Rightarrow> \<exists>st'. vm_loop fns (MDV_OK, p, m, st) = Some (MDV_OK, m, st') \<and> vm_rep cap ys st'"
  using assms
proof (induction "is" arbitrary: p xs st)
  case Nil
  then have "m p = Some 0xFF" using loaded_Cons [of m p "0xFF" "[]"] by (simp add: program_image_def)
  with Nil show ?case by (simp add: vm_loop.simps [of fns "(MDV_OK, p, m, st)"] vm_step_def)
next
  case (Cons i js)
  have image: "program_image (i # js) = encode i @ program_image js" by (simp add: program_image_def)
  have step: "case spec_step specs cap i xs of
      Inl e \<Rightarrow> \<exists>s. vm_step fns (MDV_OK, p, m, st) = Some (e, 0, s)
    | Inr ys \<Rightarrow> \<exists>st'. vm_step fns (MDV_OK, p, m, st) = Some (MDV_OK, p + of_nat (length (encode i)), m, st') \<and> vm_rep cap ys st'"
    by (rule step_run) (use Cons.prems image in simp_all)
  have tail: "loaded m (p + of_nat (length (encode i))) (program_image js)"
    using Cons.prems(1) image loaded_append by metis
  show ?case
  proof (cases "spec_step specs cap i xs")
    case (Inl e)
    with step show ?thesis by (auto simp: vm_loop.simps [of fns "(MDV_OK, p, m, st)"])
  next
    case (Inr ys)
    with step obtain st' where st': "vm_step fns (MDV_OK, p, m, st) = Some (MDV_OK, p + of_nat (length (encode i)), m, st')"
      "vm_rep cap ys st'" by auto
    have "vm_loop fns (MDV_OK, p, m, st) = vm_loop fns (MDV_OK, p + of_nat (length (encode i)), m, st')"
      using st'(1) loaded_nonzero [OF tail] by (subst vm_loop.simps) simp
    with Cons.IH [OF tail _ st'(2)] Cons.prems(2) Inr show ?thesis by (auto split: sum.splits)
  qed
qed

end


section \<open>Bounds for every program\<close>

text \<open>A call keeps the capacity and stays within it, whatever it finds on the stack.\<close>

definition within :: "nat \<Rightarrow> mdv_stack_base \<Rightarrow> bool" where
  "within cap st \<longleftrightarrow> st_capacity st = cap \<and> length (st_data st) \<le> cap"

definition keeps_within :: "mdv_vm_fn \<Rightarrow> bool" where
  "keeps_within f \<longleftrightarrow> (\<forall>cap m st e m' st'. within cap st \<and> f (m, st) = Some (e, m', st') \<longrightarrow> within cap st')"

lemma stack_push_within:
  "within cap st \<Longrightarrow> mdv_stack_push bs st = Some st' \<Longrightarrow> within cap st'"
  by (auto simp: within_def mdv_stack_push_def split: if_splits)

lemma stack_pop_within:
  "within cap st \<Longrightarrow> mdv_stack_pop n st = Some (bs, st') \<Longrightarrow> within cap st'"
  by (auto simp: within_def mdv_stack_pop_def Let_def split: if_splits)

lemma push_within:
  "within cap st \<Longrightarrow> mdv_vm_stack_push m d st = Some (e, st') \<Longrightarrow> within cap st'"
  by (auto simp: mdv_vm_stack_push_def split: if_splits Option.bind_splits option.splits)
    (metis stack_push_within)+

lemma pop_within:
  "within cap st \<Longrightarrow> mdv_vm_stack_pop st = (r, st') \<Longrightarrow> within cap st'"
  by (auto simp: mdv_vm_stack_pop_def Let_def split: if_splits option.splits prod.splits)
    (metis stack_pop_within)+

lemma pop_pair_within:
  "within cap st \<Longrightarrow> mdv_vm_stack_pop_pair st = (r, st') \<Longrightarrow> within cap st'"
  by (auto simp: mdv_vm_stack_pop_pair_def split: prod.splits sum.splits dest: pop_within)

lemma with_pair_keeps:
  assumes "\<And>cap m a b st e st'. within cap st \<Longrightarrow> f m a b st = Some (e, st') \<Longrightarrow> within cap st'"
  shows "keeps_within (with_pair f)"
  unfolding keeps_within_def with_pair_def
  by (auto split: prod.splits sum.splits dest: pop_pair_within assms)

lemma vmops_keep_within:
  "keeps_within mdv_vmop_equal" "keeps_within mdv_vmop_not_equal" "keeps_within mdv_vmop_greater"
  "keeps_within mdv_vmop_greater_or_equal" "keeps_within mdv_vmop_less" "keeps_within mdv_vmop_less_or_equal"
  "keeps_within mdv_vmop_and" "keeps_within mdv_vmop_or"
  unfolding mdv_vmop_equal_def mdv_vmop_not_equal_def mdv_vmop_greater_def mdv_vmop_greater_or_equal_def
    mdv_vmop_less_def mdv_vmop_less_or_equal_def mdv_vmop_and_def mdv_vmop_or_def bytewise_def push_bool_def
  by (rule with_pair_keeps; auto split: Option.bind_splits if_splits dest: push_within)+

lemma not_keeps_within: "keeps_within mdv_vmop_not"
  unfolding keeps_within_def
proof (intro allI impI)
  fix cap m st e m' st'
  assume "within cap st \<and> mdv_vmop_not (m, st) = Some (e, m', st')"
  moreover have "pos + length bs \<le> length (st_data st)"
    if "mdv_vm_stack_top st = Inr (pos, op)" "d_data op = Local bs" for pos op bs
    using that by (auto simp: mdv_vm_stack_top_def Let_def subarray_def split: if_splits)
  ultimately show "within cap st'"
    by (fastforce simp: mdv_vmop_not_def within_def split: sum.splits vm_ptr.splits Option.bind_splits)
qed

lemma step_within:
  assumes "\<forall>f \<in> set fns. keeps_within f" "within cap st" "vm_step fns (err, ip, m, st) = Some (err', ip', m', st')"
  shows "within cap st'"
proof -
  have "within cap st2" if "i < length fns" "(fns ! i) (m, st) = Some (e, m2, st2)" for i e m2 st2
    using assms(1,2) that nth_mem unfolding keeps_within_def by blast
  with assms(2,3) show ?thesis
    by (auto simp: vm_step_def Let_def not_le split: if_splits Option.bind_splits dest: push_within)
qed

lemma loop_within:
  assumes "\<forall>f \<in> set fns. keeps_within f" "within cap (snd (snd (snd c)))" "vm_loop fns c = Some (e, m, st)"
  shows "within cap st"
proof -
  have "(\<forall>f \<in> set fns. keeps_within f) \<longrightarrow> within cap (snd (snd (snd c))) \<longrightarrow> within cap (snd (snd r))"
    if "vm_loop fns c = Some r" for r
  proof (rule vm_loop.raw_induct [OF _ that])
    fix loop gs c y
    assume 1: "\<And>gs c y. loop gs c = Some y \<Longrightarrow>
        (\<forall>f \<in> set gs. keeps_within f) \<longrightarrow> within cap (snd (snd (snd c))) \<longrightarrow> within cap (snd (snd y))"
      "do { (err, ip, s) \<leftarrow> vm_step gs c; if ip = 0 then Some (err, s) else loop gs (err, ip, s) } = Some y"
    obtain err ip m st where step: "vm_step gs c = Some (err, ip, m, st)"
      and rest: "(if ip = 0 then Some (err, m, st) else loop gs (err, ip, m, st)) = Some y"
      using 1(2) by (auto split: Option.bind_splits)
    show "(\<forall>f \<in> set gs. keeps_within f) \<longrightarrow> within cap (snd (snd (snd c))) \<longrightarrow> within cap (snd (snd y))"
    proof (intro impI)
      assume keep: "\<forall>f \<in> set gs. keeps_within f" and "within cap (snd (snd (snd c)))"
      then have "within cap st"
        using step_within [OF keep, of cap "snd (snd (snd c))" "fst c" "fst (snd c)" "fst (snd (snd c))"] step by simp
      then show "within cap (snd (snd y))"
        using rest 1(1) [of gs "(err, ip, m, st)" y] keep by (auto split: if_splits)
    qed
  qed
  from this [OF assms(3)] assms(1,2) show ?thesis by simp
qed

end
