(* ===== verification/Mdv_Predicate.thy ===== *)
theory Mdv_Predicate
  imports Mdv_Vm_Run Mdv_Vector
begin

text \<open>
  The predicates of \<^verbatim>\<open>mdv_storage/mdv_predicate.c\<close>: the table of machine functions and the
  compiled expression a predicate carries. The properties of the stack machine
  are stated here for this table, the one the storage runs programs with.
\<close>

definition MDV_PREDICATE_FNS :: "mdv_vm_fn list" where
  "MDV_PREDICATE_FNS =
     [mdv_vmop_equal, mdv_vmop_not_equal, mdv_vmop_greater, mdv_vmop_greater_or_equal,
      mdv_vmop_less, mdv_vmop_less_or_equal, mdv_vmop_and, mdv_vmop_or, mdv_vmop_not]"

definition MDV_EMPTY_PREDICATE :: bytes where
  "MDV_EMPTY_PREDICATE = [1, 0, 1, 0, 0, 0, 0xFF, 0xFF]"

record mdv_predicate =
  pr_rc :: int
  pr_expr :: "u8 mdv_vector"
  pr_fns :: "mdv_vm_fn list"

text \<open>
  The expression is not looked at. The arguments are the outcomes of the
  allocations (the predicate, the vector, its data) and the contents of fresh
  memory; the vector has room for the program, so that the append does not
  allocate.
\<close>

definition mdv_predicate_parse :: "bool \<Rightarrow> bool \<Rightarrow> bool \<Rightarrow> u8 \<Rightarrow> string option \<Rightarrow> mdv_predicate option" where
  "mdv_predicate_parse predicate_ok vector_ok data_ok junk expression =
     (if \<not> predicate_ok then None
      else
        case mdv_vector_create vector_ok data_ok junk (length MDV_EMPTY_PREDICATE) 1 of
          None \<Rightarrow> None
        | Some v \<Rightarrow>
            case mdv_vector_append False junk MDV_EMPTY_PREDICATE v of
              None \<Rightarrow> None
            | Some (_, v) \<Rightarrow> Some \<lparr> pr_rc = 1, pr_expr = v, pr_fns = MDV_PREDICATE_FNS \<rparr>)"

definition mdv_predicate_retain :: "mdv_predicate \<Rightarrow> mdv_predicate" where
  "mdv_predicate_retain p = p \<lparr> pr_rc := pr_rc p + 1 \<rparr>"

text \<open>The last release gives the vector back too.\<close>

definition mdv_predicate_release :: "mdv_predicate \<Rightarrow> int \<times> (u8 vector_ptr option + mdv_predicate)" where
  "mdv_predicate_release p =
     (let rc = pr_rc p - 1 in
      (rc, if rc = 0 then Inl (snd (mdv_vector_release (Vector_ptr (pr_expr p)))) else Inr (p \<lparr> pr_rc := rc \<rparr>)))"

definition mdv_predicate_expr :: "mdv_predicate \<Rightarrow> bytes" where
  "mdv_predicate_expr p = v_data (pr_expr p)"


section \<open>The functions of the table\<close>

definition predicate_specs :: "vm_spec_fn list" where
  "predicate_specs =
     [spec_rel (=), spec_rel (\<noteq>), spec_rel (\<lambda>a b. ord_class.lexordp b a), spec_rel (\<lambda>a b. \<not> ord_class.lexordp a b),
      spec_rel ord_class.lexordp, spec_rel (\<lambda>a b. \<not> ord_class.lexordp b a),
      spec_bytewise (AND), spec_bytewise (OR), spec_not]"

lemma predicate_fns_implement: "list_all2 implements MDV_PREDICATE_FNS predicate_specs"
  using equal_implements ordered_implements not_implements
    bytewise_implements [of "(AND)"] bytewise_implements [of "(OR)"]
  by (simp add: MDV_PREDICATE_FNS_def predicate_specs_def mdv_vmop_and_def mdv_vmop_or_def)

interpretation pvm: vm_functions MDV_PREDICATE_FNS predicate_specs
  using predicate_fns_implement by unfold_locales (auto simp: list_all2_conv_all_nth)

lemma append_with_room:
  assumes "v_size v + length items \<le> v_capacity v" "v_capacity v < 2 ^ 64" "length (v_data v) = v_capacity v"
  shows "mdv_vector_append ok junk items v =
    Some (Some (v_size v), v \<lparr> v_data := blit (v_data v) (v_size v) items, v_size := v_size v + length items \<rparr>)"
proof -
  have "(v_size v + length items) mod 2 ^ 64 = v_size v + length items" using assms(1,2) by (intro mod_less) linarith
  moreover have "grow (v_size v + length items) (v_capacity v) = Some (v_capacity v)"
    using assms(1) by (subst grow.simps) simp
  ultimately show ?thesis
    using assms(1,3) by (simp only: mdv_vector_append_def mdv_vector_resize_if_required_def) (simp add: put_items_def)
qed

lemma predicate_parse_result:
  "mdv_predicate_parse ok1 ok2 ok3 junk expr =
    (if ok1 \<and> ok2 \<and> ok3
     then Some \<lparr> pr_rc = 1, pr_expr = \<lparr> v_rc = 1, v_capacity = 8, v_size = 8, v_item_size = 1, v_data = MDV_EMPTY_PREDICATE \<rparr>,
                pr_fns = MDV_PREDICATE_FNS \<rparr>
     else None)"
  by (simp add: mdv_predicate_parse_def mdv_vector_create_def block_items_def append_with_room blit_def MDV_EMPTY_PREDICATE_def)

lemma predicate_fns_within: "\<forall>f \<in> set MDV_PREDICATE_FNS. keeps_within f"
  using vmops_keep_within not_keeps_within by (simp add: MDV_PREDICATE_FNS_def)


section \<open>Properties\<close>

text \<open>
  C38. Refinement: a program image of NOP, PUSH (inline data) and CALL
  instructions runs to its end, however it is placed in memory. It stops with the
  error code of the machine on byte strings where that machine fails (overflow,
  too few or unequal operands, an unknown function) and otherwise leaves on the
  byte stack exactly the strings of that machine, with comparisons in
  lexicographic order and bytewise connectives; memory is not written.
\<close>

theorem vm_run_refines:
  assumes "loaded m p (program_image is)" "\<forall>i \<in> set is. instr_ok i" "vm_rep cap xs st"
  shows "case spec_run predicate_specs cap is xs of
      Inl e \<Rightarrow> \<exists>s. mdv_vm_run MDV_PREDICATE_FNS p (m, st) = Some (e, s)
    | Inr ys \<Rightarrow> \<exists>st'. mdv_vm_run MDV_PREDICATE_FNS p (m, st) = Some (MDV_OK, m, st') \<and> vm_rep cap ys st'"
  unfolding mdv_vm_run_def using assms by (rule pvm.loop_run)

definition bytes_at :: "u64 \<Rightarrow> bytes \<Rightarrow> memory" where
  "bytes_at p bs a = (if unat (a - p) < length bs then Some (bs ! unat (a - p)) else None)"

lemma load_bytes_at:
  assumes "k + n \<le> length bs" "length bs < 2 ^ 64"
  shows "load_bytes (bytes_at p bs) (p + of_nat k) n = Some (take n (drop k bs))"
  using assms
proof (induction n arbitrary: k)
  case (Suc n)
  have "load_bytes (bytes_at p bs) (p + of_nat k + 1) n = Some (take n (drop (Suc k) bs))"
    using Suc.IH [of "Suc k"] Suc.prems by (simp add: ac_simps)
  moreover have "bytes_at p bs (p + of_nat k) = Some (bs ! k)"
    using Suc.prems by (simp add: bytes_at_def unat_of_nat)
  moreover have "take (Suc n) (drop k bs) = bs ! k # take n (drop (Suc k) bs)"
    using Suc.prems by (simp add: Cons_nth_drop_Suc [symmetric])
  ultimately show ?case by simp
qed simp

lemma loaded_bytes_at: "0 < unat p \<Longrightarrow> unat p + length bs < 2 ^ 64 \<Longrightarrow> loaded (bytes_at p bs) p bs"
  using load_bytes_at [of 0 "length bs" bs p] by (simp add: loaded_def)

lemma vm_run_refines_witness:
  "\<exists>st'. mdv_vm_run MDV_PREDICATE_FNS 1 (bytes_at 1 (program_image [Push [1, 2], Push [1], Call 2]), \<lparr> st_capacity = 64, st_data = [] \<rparr>)
    = Some (MDV_OK, bytes_at 1 (program_image [Push [1, 2], Push [1], Call 2]), st') \<and> vm_rep 64 [[0xFF]] st'"
proof -
  let ?is = "[Push [1, 2], Push [1], Call 2]"
  have "spec_run predicate_specs 64 ?is [] = Inr [[0xFF]]"
    by (simp add: predicate_specs_def spec_rel_def truth_def)
  moreover have "vm_rep 64 [] \<lparr> st_capacity = 64, st_data = [] \<rparr>" by (simp add: vm_rep_def)
  moreover have "loaded (bytes_at 1 (program_image ?is)) 1 (program_image ?is)"
    by (rule loaded_bytes_at) (simp_all add: program_image_def)
  ultimately show ?thesis
    using vm_run_refines [of "bytes_at 1 (program_image ?is)" 1 ?is 64 "[]" "\<lparr> st_capacity = 64, st_data = [] \<rparr>"] by simp
qed

text \<open>
  C39. Bounds: whatever bytes are in memory and on the stack, a run that ends
  leaves the capacity as it was and no more bytes on the stack than it.
\<close>

theorem vm_run_within:
  assumes "length (st_data st) \<le> st_capacity st" "mdv_vm_run MDV_PREDICATE_FNS p (m, st) = Some (e, m', st')"
  shows "st_capacity st' = st_capacity st \<and> length (st_data st') \<le> st_capacity st'"
  using loop_within [OF predicate_fns_within, of "st_capacity st" "(MDV_OK, p, m, st)" e m' st'] assms
  by (simp add: mdv_vm_run_def within_def)

lemma vm_run_within_witness:
  "\<exists>e m' st'. mdv_vm_run MDV_PREDICATE_FNS 1 (bytes_at 1 [3], \<lparr> st_capacity = 4, st_data = [] \<rparr>) = Some (e, m', st') \<and>
    length (st_data st') \<le> 4"
proof -
  have "mdv_vm_run MDV_PREDICATE_FNS 1 (bytes_at 1 [3], \<lparr> st_capacity = 4, st_data = [] \<rparr>) =
      Some (MDV_FAILED, bytes_at 1 [3], \<lparr> st_capacity = 4, st_data = [] \<rparr>)"
    by (simp add: mdv_vm_run_def vm_loop.simps vm_step_def bytes_at_def)
  with vm_run_within [OF _ this] show ?thesis by auto
qed

text \<open>
  Every expression makes a predicate whose program, placed anywhere in
  memory, ends normally on a stack with room for six bytes and leaves the result
  true; parsing fails only for want of memory.
\<close>

lemma predicate_always_true:
  assumes "vm_rep cap [] st" "6 \<le> cap" "mdv_predicate_parse ok1 ok2 ok3 junk expr = Some pr" "loaded m p (mdv_predicate_expr pr)"
  shows "\<exists>st'. mdv_vm_run (pr_fns pr) p (m, st) = Some (MDV_OK, m, st') \<and> mdv_vm_result_as_bool m st' = Some (Inr True)"
proof -
  have pr: "mdv_predicate_expr pr = MDV_EMPTY_PREDICATE" "pr_fns pr = MDV_PREDICATE_FNS"
    using assms(3) by (auto simp: predicate_parse_result mdv_predicate_expr_def split: if_splits)
  have "MDV_EMPTY_PREDICATE = program_image [Push [0xFF]]"
    by (simp add: MDV_EMPTY_PREDICATE_def program_image_def numeral_eq_Suc)
  with pr assms pvm.loop_run [of m p "[Push [0xFF]]" cap "[]" st] obtain st' where
    "mdv_vm_run (pr_fns pr) p (m, st) = Some (MDV_OK, m, st')" "vm_rep cap [[0xFF]] st'"
    by (auto simp: mdv_vm_run_def)
  with result_as_bool_rep [of cap "[0xFF]" "[]" st' m] show ?thesis by simp
qed

end
