(* ===== verification/Mdv_Mst.thy ===== *)
theory Mdv_Mst
  imports Mdv_Prelude "HOL-Library.Monad_Syntax"
begin

text \<open>
  The minimum spanning tree of \<^verbatim>\<open>mdv_platform/generic/mdv_mst.c\<close> (Boruvka's algorithm):
  the links, the subsets of nodes with their circular lists, one pass that finds
  the closest link of every subset, one pass that joins the subsets. Pointers to
  nodes, links and subsets are positions in their arrays. None stands for a null
  or out-of-range pointer, or for a loop that does not end.
\<close>

record mdv_mstlink =
  ln_src :: nat
  ln_dst :: nat
  ln_weight :: u32
  ln_mst :: u32

record mdv_mstset =
  ms_set_id :: nat
  ms_link :: "nat option"
  ms_next :: "nat option"

definition at :: "'a list \<Rightarrow> nat \<Rightarrow> 'a option" where
  "at xs i = (if i < length xs then Some (xs ! i) else None)"

partial_function (option) union_subsets_loop ::
  "nat \<Rightarrow> nat option \<Rightarrow> nat option \<Rightarrow> mdv_mstset list \<Rightarrow> (nat option \<times> mdv_mstset list) option" where
  "union_subsets_loop id1 p subset2_end subsets = (case p of
     None \<Rightarrow> Some (subset2_end, subsets)
   | Some i \<Rightarrow> do {
       s \<leftarrow> at subsets i;
       if ms_set_id s = id1 then Some (subset2_end, subsets)
       else union_subsets_loop id1 (ms_next s) (Some i) (subsets[i := s \<lparr> ms_set_id := id1 \<rparr>]) })"

definition mdv_union_subsets :: "mdv_mstset list \<Rightarrow> nat \<Rightarrow> nat \<Rightarrow> mdv_mstset list option" where
  "mdv_union_subsets subsets id1 id2 = do {
     s1 \<leftarrow> at subsets id1;
     (subset2_end, subsets) \<leftarrow> union_subsets_loop id1 (Some id2) None (subsets[id1 := s1 \<lparr> ms_next := Some id2 \<rparr>]);
     e \<leftarrow> subset2_end;
     s \<leftarrow> at subsets e;
     Some (subsets[e := s \<lparr> ms_next := Some (case ms_next s1 of Some n \<Rightarrow> n | None \<Rightarrow> id1) \<rparr>]) }"

text \<open>The differences of weights and of positions are taken at 32 bits and read as signed.\<close>

definition int_of_diff :: "u32 \<Rightarrow> u32 \<Rightarrow> int" where
  "int_of_diff a b = sint (a - b)"

definition mdv_mstlink_cmp :: "mdv_mstlink \<Rightarrow> mdv_mstlink \<Rightarrow> int" where
  "mdv_mstlink_cmp a b =
     (let w = int_of_diff (ln_weight a) (ln_weight b) in
      if w \<noteq> 0 then w
      else
        let (a1, a2) = (if ln_src a < ln_dst a then (ln_src a, ln_dst a) else (ln_dst a, ln_src a));
            (b1, b2) = (if ln_src b < ln_dst b then (ln_src b, ln_dst b) else (ln_dst b, ln_src b));
            w = int_of_diff (of_nat a1) (of_nat b1)
        in if w \<noteq> 0 then w else int_of_diff (of_nat a2) (of_nat b2))"

definition set_link :: "nat \<Rightarrow> nat \<Rightarrow> mdv_mstset list \<Rightarrow> mdv_mstset list option" where
  "set_link r i subsets = do { s \<leftarrow> at subsets r; Some (subsets[r := s \<lparr> ms_link := Some i \<rparr>]) }"

text \<open>Taking link i for a subset unless it has a link that is not worse.\<close>

definition closest :: "mdv_mstlink list \<Rightarrow> nat \<Rightarrow> nat \<Rightarrow> mdv_mstset list \<Rightarrow> mdv_mstset list option" where
  "closest links i r subsets = do {
     s \<leftarrow> at subsets r;
     link \<leftarrow> at links i;
     worse \<leftarrow> (case ms_link s of
        None \<Rightarrow> Some True
      | Some j \<Rightarrow> do { old \<leftarrow> at links j; Some (mdv_mstlink_cmp old link > 0) });
     if worse then set_link r i subsets else Some subsets }"

definition search_step :: "mdv_mstlink list \<Rightarrow> nat \<Rightarrow> mdv_mstset list \<Rightarrow> mdv_mstset list option" where
  "search_step links i subsets = do {
     link \<leftarrow> at links i;
     src \<leftarrow> at subsets (ln_src link);
     dst \<leftarrow> at subsets (ln_dst link);
     if ms_set_id src = ms_set_id dst then Some subsets
     else do {
       subsets \<leftarrow> closest links i (ms_set_id src) subsets;
       closest links i (ms_set_id dst) subsets } }"

primrec for_each :: "(nat \<Rightarrow> 's \<Rightarrow> 's option) \<Rightarrow> nat list \<Rightarrow> 's \<Rightarrow> 's option" where
  "for_each f [] s = Some s"
| "for_each f (i # is) s = do { s \<leftarrow> f i s; for_each f is s }"

text \<open>The state of the second pass: subsets, links, number of trees, number of links taken.\<close>

type_synonym mst_state = "mdv_mstset list \<times> mdv_mstlink list \<times> nat \<times> nat"

definition join_step :: "nat \<Rightarrow> mst_state \<Rightarrow> mst_state option" where
  "join_step i = (\<lambda>(subsets, links, num_trees, mst_size). do {
     s \<leftarrow> at subsets i;
     case ms_link s of
       None \<Rightarrow> Some (subsets, links, num_trees, mst_size)
     | Some l \<Rightarrow> do {
         link \<leftarrow> at links l;
         src \<leftarrow> at subsets (ln_src link);
         dst \<leftarrow> at subsets (ln_dst link);
         if ms_set_id src = ms_set_id dst then Some (subsets, links, num_trees, mst_size)
         else do {
           subsets \<leftarrow> mdv_union_subsets subsets (ms_set_id src) (ms_set_id dst);
           Some (subsets, links[l := link \<lparr> ln_mst := 1 \<rparr>], num_trees - 1, mst_size + 1) } } })"

partial_function (option) mst_loop :: "nat \<Rightarrow> mst_state \<Rightarrow> mst_state option" where
  "mst_loop nodes_count st = (case st of (subsets, links, num_trees, mst_size) \<Rightarrow>
     if num_trees > 1 then do {
       subsets \<leftarrow> for_each (search_step links) [0..<length links] (map (\<lambda>s. s \<lparr> ms_link := None \<rparr>) subsets);
       (subsets, links, num_trees', mst_size) \<leftarrow> for_each join_step [0..<nodes_count] (subsets, links, num_trees, mst_size);
       if num_trees' = num_trees then Some (subsets, links, num_trees', 0)
       else mst_loop nodes_count (subsets, links, num_trees', mst_size) }
     else Some (subsets, links, num_trees, mst_size))"

text \<open>The number of links and the marked links; the flag is the outcome of the allocation.\<close>

definition mdv_mst_find :: "bool \<Rightarrow> nat \<Rightarrow> mdv_mstlink list \<Rightarrow> (nat \<times> mdv_mstlink list) option" where
  "mdv_mst_find alloc_ok nodes_count links =
     (if \<not> alloc_ok then Some (0, links)
      else do {
        (_, links, _, mst_size) \<leftarrow> mst_loop nodes_count
          (map (\<lambda>i. \<lparr> ms_set_id = i, ms_link = None, ms_next = None \<rparr>) [0..<nodes_count],
           map (\<lambda>l. l \<lparr> ln_mst := 0 \<rparr>) links, nodes_count, 0);
        Some (mst_size, links) })"

end
