(* ===== verification/Mdv_Mst_Sets.thy ===== *)
theory Mdv_Mst_Sets
  imports Mdv_Mst
begin

text \<open>
  The subsets of the spanning tree algorithm: every subset is a circular list of
  its nodes through the root (a subset of one node has no next), all of them
  carrying the root as identifier. Joining two subsets splices the lists.
\<close>

abbreviation col :: "mdv_mstset list \<Rightarrow> nat \<Rightarrow> nat" where
  "col ss i \<equiv> ms_set_id (ss ! i)"

abbreviation nxt :: "mdv_mstset list \<Rightarrow> nat \<Rightarrow> nat option" where
  "nxt ss i \<equiv> ms_next (ss ! i)"

fun chain :: "mdv_mstset list \<Rightarrow> nat list \<Rightarrow> nat option \<Rightarrow> bool" where
  "chain ss [] fin = True"
| "chain ss [x] fin \<longleftrightarrow> nxt ss x = fin"
| "chain ss (x # y # zs) fin \<longleftrightarrow> nxt ss x = Some y \<and> chain ss (y # zs) fin"

definition first :: "nat list \<Rightarrow> nat option \<Rightarrow> nat option" where
  "first xs fin = (case xs of [] \<Rightarrow> fin | x # _ \<Rightarrow> Some x)"

lemma first_simps [simp]: "first [] fin = fin" "first (x # xs) fin = Some x"
  by (simp_all add: first_def)

lemma chain_Cons: "chain ss (x # xs) fin \<longleftrightarrow> nxt ss x = first xs fin \<and> chain ss xs fin"
  by (cases xs) simp_all

lemma chain_append:
  "chain ss (xs @ ys) fin \<longleftrightarrow> chain ss xs (first ys fin) \<and> chain ss ys fin"
proof (induction xs)
  case (Cons x xs)
  have "first (xs @ ys) fin = first xs (first ys fin)" by (cases xs) simp_all
  with Cons show ?case by (simp add: chain_Cons)
qed simp

lemma chain_cong:
  assumes "\<And>i. i \<in> set xs \<Longrightarrow> nxt ss i = nxt ss' i"
  shows "chain ss xs fin = chain ss' xs fin"
  using assms by (induction xs) (simp_all add: chain_Cons)

lemma chain_set_last:
  assumes "chain ss (xs @ [x]) fin" "x \<notin> set xs" "nxt ss' x = fin'" "\<And>i. i \<in> set xs \<Longrightarrow> nxt ss' i = nxt ss i"
  shows "chain ss' (xs @ [x]) fin'"
  using assms chain_cong [of xs ss ss'] by (simp add: chain_append)

text \<open>The circular list of a subset.\<close>

definition ring :: "mdv_mstset list \<Rightarrow> nat \<Rightarrow> nat list \<Rightarrow> bool" where
  "ring ss r ts \<longleftrightarrow> distinct (r # ts) \<and> set (r # ts) = {i. i < length ss \<and> col ss i = r} \<and>
     chain ss (r # ts) (if ts = [] then None else Some r)"

definition sets_ok :: "mdv_mstset list \<Rightarrow> bool" where
  "sets_ok ss \<longleftrightarrow> (\<forall>i < length ss. col ss i < length ss \<and> col ss (col ss i) = col ss i) \<and>
     (\<forall>r < length ss. col ss r = r \<longrightarrow> (\<exists>ts. ring ss r ts))"


section \<open>The recolouring loop\<close>

definition recolour :: "nat \<Rightarrow> nat list \<Rightarrow> mdv_mstset list \<Rightarrow> mdv_mstset list" where
  "recolour c xs ss = fold (\<lambda>i ss. ss[i := (ss ! i) \<lparr> ms_set_id := c \<rparr>]) xs ss"

lemma length_recolour [simp]: "length (recolour c xs ss) = length ss"
  unfolding recolour_def by (induction xs arbitrary: ss) simp_all

lemma recolour_nth:
  assumes "j < length ss"
  shows "recolour c xs ss ! j = (if j \<in> set xs then (ss ! j) \<lparr> ms_set_id := c \<rparr> else ss ! j)"
  using assms
proof (induction xs arbitrary: ss)
  case (Cons x xs)
  have "recolour c (x # xs) ss = recolour c xs (ss[x := (ss ! x) \<lparr> ms_set_id := c \<rparr>])"
    by (simp add: recolour_def)
  with Cons show ?case by (cases "x < length ss") (auto simp: nth_list_update list_update_beyond)
qed (simp add: recolour_def)

lemma union_loop_run:
  assumes "distinct xs" "set xs \<subseteq> {..<length ss}" "\<forall>i \<in> set xs. col ss i \<noteq> c" "chain ss xs fin"
    and "\<forall>j. fin = Some j \<longrightarrow> j < length ss \<and> (j \<in> set xs \<or> col ss j = c)"
  shows "union_subsets_loop c (first xs fin) e ss = Some (if xs = [] then e else Some (last xs), recolour c xs ss)"
  using assms
proof (induction xs arbitrary: e ss)
  case Nil
  then show ?case
    by (cases fin) (simp_all add: union_subsets_loop.simps [of c None] union_subsets_loop.simps [of c "Some _"] at_def recolour_def)
next
  case (Cons x xs)
  let ?ss = "ss[x := (ss ! x) \<lparr> ms_set_id := c \<rparr>]"
  have x: "x < length ss" "col ss x \<noteq> c" "nxt ss x = first xs fin" "x \<notin> set xs"
    using Cons.prems by (simp_all add: chain_Cons)
  have "union_subsets_loop c (first xs fin) (Some x) ?ss = Some (if xs = [] then Some x else Some (last xs), recolour c xs ?ss)"
  proof (rule Cons.IH)
    have "chain ?ss xs fin = chain ss xs fin" by (rule chain_cong) (use x(1) in \<open>simp add: nth_list_update\<close>)
    then show "chain ?ss xs fin" using Cons.prems(4) by (simp add: chain_Cons)
    show "\<forall>i \<in> set xs. col ?ss i \<noteq> c" using Cons.prems(3) x(1,4) by (auto simp: nth_list_update)
    show "\<forall>j. fin = Some j \<longrightarrow> j < length ?ss \<and> (j \<in> set xs \<or> col ?ss j = c)"
      using Cons.prems(5) x(1) by (auto simp: nth_list_update)
  qed (use Cons.prems in auto)
  with x show ?case
    by (subst union_subsets_loop.simps) (auto simp: at_def recolour_def)
qed


section \<open>Joining two subsets\<close>

lemma splice_ring:
  assumes ts: "ring ss r ts" and us: "ring ss q us" and "r \<noteq> q" and len: "length ss' = length ss"
    and col': "\<And>i. i < length ss \<Longrightarrow> col ss' i = (if col ss i = q then r else col ss i)"
    and nxt': "\<And>i. i < length ss \<Longrightarrow> nxt ss' i =
      (if i = last (q # us) then Some (case nxt ss r of Some n \<Rightarrow> n | None \<Rightarrow> r) else if i = r then Some q else nxt ss i)"
  shows "ring ss' r ((q # us) @ ts)"
proof -
  have mem: "set (r # ts) = {i. i < length ss \<and> col ss i = r}" "set (q # us) = {i. i < length ss \<and> col ss i = q}"
    "distinct (r # ts)" "distinct (q # us)"
    and chains: "chain ss (r # ts) (if ts = [] then None else Some r)" "chain ss (q # us) (if us = [] then None else Some q)"
    using ts us by (simp_all only: ring_def)
  have disj: "set (r # ts) \<inter> set (q # us) = {}" unfolding mem(1,2) using \<open>r \<noteq> q\<close> by blast
  have last: "last (q # us) \<in> set (q # us)" by (rule last_in_set) simp
  have lt: "i < length ss" if "i \<in> set (r # ts) \<union> set (q # us)" for i
    using that unfolding mem(1,2) by blast
  have "Some (case nxt ss r of Some n \<Rightarrow> n | None \<Rightarrow> r) = first ts (Some r)"
    using chains(1) by (cases ts) auto
  with nxt' have nxt_last: "nxt ss' (last (q # us)) = first ts (Some r)" using lt last by simp
  have nxt_r: "nxt ss' r = Some q"
    using nxt' [of r] lt [of r] last disj by (auto simp del: last.simps)
  have "chain ss ts (Some r)" using chains(1) by (cases ts) (simp_all add: chain_Cons)
  moreover have "chain ss' ts (Some r) = chain ss ts (Some r)"
  proof (rule chain_cong)
    fix i assume "i \<in> set ts"
    then have "i \<noteq> last (q # us)" "i \<noteq> r" "i < length ss" using last disj mem(3) lt by auto
    then show "nxt ss' i = nxt ss i" using nxt' by simp
  qed
  moreover have "chain ss' (q # us) (first ts (Some r))"
  proof -
    obtain ys y where ys: "q # us = ys @ [y]" by (metis append_butlast_last_id list.discI)
    then have y: "last (q # us) = y" by (metis last_snoc)
    have "chain ss' (ys @ [y]) (first ts (Some r))"
    proof (rule chain_set_last)
      show "chain ss (ys @ [y]) (if us = [] then None else Some q)" using chains(2) unfolding ys .
      show dist: "y \<notin> set ys" using mem(4) unfolding ys by simp
      show "nxt ss' y = first ts (Some r)" using nxt_last unfolding y .
      fix i assume i: "i \<in> set ys"
      then have "i \<in> set (q # us)" unfolding ys by simp
      then have "i \<noteq> r" "i < length ss" using disj lt by auto
      moreover have "i \<noteq> last (q # us)" unfolding y using i dist by auto
      ultimately show "nxt ss' i = nxt ss i" using nxt' by simp
    qed
    then show ?thesis unfolding ys .
  qed
  ultimately have "chain ss' (r # (q # us) @ ts) (Some r)"
    using nxt_r chain_append [of ss' "q # us" ts "Some r"] by simp
  moreover have "set (r # (q # us) @ ts) = {i. i < length ss' \<and> col ss' i = r}"
  proof -
    have "set (r # (q # us) @ ts) = set (r # ts) \<union> set (q # us)" by auto
    also have "\<dots> = {i. i < length ss' \<and> col ss' i = r}" unfolding mem(1,2) len using col' by auto
    finally show ?thesis .
  qed
  moreover have "distinct (r # (q # us) @ ts)" using mem(3,4) disj by auto
  ultimately show ?thesis by (simp only: ring_def) simp
qed

lemma splice_sets_ok:
  assumes ok: "sets_ok ss" and ts: "ring ss r ts" and us: "ring ss q us" and "r \<noteq> q" and len: "length ss' = length ss"
    and roots: "r < length ss" "col ss r = r"
    and col': "\<And>i. i < length ss \<Longrightarrow> col ss' i = (if col ss i = q then r else col ss i)"
    and nxt': "\<And>i. i < length ss \<Longrightarrow> nxt ss' i =
      (if i = last (q # us) then Some (case nxt ss r of Some n \<Rightarrow> n | None \<Rightarrow> r) else if i = r then Some q else nxt ss i)"
  shows "sets_ok ss'"
  unfolding sets_ok_def len
proof (intro conjI allI impI)
  have ok': "col ss i < length ss" "col ss (col ss i) = col ss i" if "i < length ss" for i
    using ok that unfolding sets_ok_def by blast+
  have q: "q < length ss" "col ss q = q" using us by (auto simp: ring_def)
  fix i assume i: "i < length ss"
  show "col ss' i < length ss" using col' [OF i] ok' [OF i] roots(1) by simp
  show "col ss' (col ss' i) = col ss' i"
    using col' [OF i] col' [OF ok'(1) [OF i]] col' [OF roots(1)] ok'(2) [OF i] roots(2) \<open>r \<noteq> q\<close> by simp
  assume root: "col ss' i = i"
  show "\<exists>vs. ring ss' i vs"
  proof (cases "i = r")
    case True
    then show ?thesis using splice_ring [OF ts us \<open>r \<noteq> q\<close> len col' nxt'] by blast
  next
    case False
    with root col' [OF i] have i_root: "col ss i = i" "i \<noteq> q" by (auto split: if_splits)
    with ok i obtain vs where vs: "ring ss i vs" unfolding sets_ok_def by blast
    have "last (q # us) \<in> set (q # us)" by (rule last_in_set) simp
    then have last: "col ss (last (q # us)) = q" using us unfolding ring_def by blast
    have mem: "x < length ss" "col ss x = i" if "x \<in> set (i # vs)" for x
      using that vs unfolding ring_def by blast+
    have "chain ss' (i # vs) fin = chain ss (i # vs) fin" for fin
    proof (rule chain_cong)
      fix x assume x: "x \<in> set (i # vs)"
      then have "x \<noteq> last (q # us)" "x \<noteq> r" using mem(2) [OF x] last i_root False roots(2) by auto
      then show "nxt ss' x = nxt ss x" using nxt' [OF mem(1) [OF x]] by simp
    qed
    moreover have "{x. x < length ss' \<and> col ss' x = i} = {x. x < length ss \<and> col ss x = i}"
      using len col' i_root False by auto
    ultimately have "ring ss' i vs" using vs by (simp only: ring_def)
    then show ?thesis ..
  qed
qed

lemma union_run:
  assumes ok: "sets_ok ss" and r: "r < length ss" "col ss r = r" and q: "q < length ss" "col ss q = q" and "r \<noteq> q"
  obtains ss' where "mdv_union_subsets ss r q = Some ss'" "sets_ok ss'" "length ss' = length ss"
    "\<And>i. i < length ss \<Longrightarrow> col ss' i = (if col ss i = q then r else col ss i)"
    "\<And>i. i < length ss \<Longrightarrow> ms_link (ss' ! i) = ms_link (ss ! i)"
proof -
  obtain ts where ts: "ring ss r ts" using ok r unfolding sets_ok_def by blast
  obtain us where us: "ring ss q us" using ok q unfolding sets_ok_def by blast
  let ?ss0 = "ss[r := (ss ! r) \<lparr> ms_next := Some q \<rparr>]"
  let ?ss1 = "recolour r (q # us) ?ss0" and ?e = "last (q # us)"
  let ?n = "case nxt ss r of Some n \<Rightarrow> n | None \<Rightarrow> r"
  let ?ss' = "?ss1[?e := (?ss1 ! ?e) \<lparr> ms_next := Some ?n \<rparr>]"
  have mem: "set (r # ts) = {i. i < length ss \<and> col ss i = r}" "set (q # us) = {i. i < length ss \<and> col ss i = q}"
    "distinct (r # ts)" "distinct (q # us)"
    using ts us by (simp_all only: ring_def)
  have disj: "set (r # ts) \<inter> set (q # us) = {}" unfolding mem(1,2) using \<open>r \<noteq> q\<close> by blast
  have e: "?e \<in> set (q # us)" by (rule last_in_set) simp
  then have e_lt: "?e < length ss" "col ss ?e = q" unfolding mem(2) by blast+
  have in_q: "i < length ss \<and> i \<noteq> r \<and> col ss i = q" if "i \<in> set (q # us)" for i
    using that disj mem(2) by (metis (mono_tags, lifting) disjoint_iff list.set_intros(1) mem_Collect_eq)
  have "union_subsets_loop r (first (q # us) (if us = [] then None else Some q)) None ?ss0 =
      Some (if q # us = [] then None else Some ?e, ?ss1)"
  proof (rule union_loop_run)
    have "chain ?ss0 (q # us) (if us = [] then None else Some q) = chain ss (q # us) (if us = [] then None else Some q)"
      by (rule chain_cong) (use in_q r(1) in \<open>auto simp: nth_list_update\<close>)
    then show "chain ?ss0 (q # us) (if us = [] then None else Some q)" using us by (simp only: ring_def)
    show "\<forall>i \<in> set (q # us). col ?ss0 i \<noteq> r"
      using in_q r(1) \<open>r \<noteq> q\<close> by (metis nth_list_update_neq)
    show "set (q # us) \<subseteq> {..<length ?ss0}" using in_q by auto
  qed (use mem(4) q(1) in \<open>auto split: if_splits\<close>)
  then have "union_subsets_loop r (Some q) None ?ss0 = Some (Some ?e, ?ss1)" by simp
  then have run: "mdv_union_subsets ss r q = Some ?ss'"
    using r(1) e_lt by (simp add: mdv_union_subsets_def at_def)
  have in_iff: "i \<in> set (q # us) \<longleftrightarrow> col ss i = q" if "i < length ss" for i
    unfolding mem(2) using that by simp
  have col': "col ?ss' i = (if col ss i = q then r else col ss i)" if "i < length ss" for i
    using that e_lt r(1) in_iff [OF that] by (auto simp: nth_list_update recolour_nth simp del: last.simps list.set)
  have link': "ms_link (?ss' ! i) = ms_link (ss ! i)" if "i < length ss" for i
    using that e_lt r(1) by (auto simp: nth_list_update recolour_nth simp del: last.simps list.set)
  have nxt': "nxt ?ss' i = (if i = ?e then Some ?n else if i = r then Some q else nxt ss i)" if "i < length ss" for i
    using that e_lt r(1) by (auto simp: nth_list_update recolour_nth simp del: last.simps list.set)
  have "sets_ok ?ss'"
    by (rule splice_sets_ok [OF ok ts us \<open>r \<noteq> q\<close> _ r col' nxt']) simp_all
  show thesis
    by (rule that [OF run \<open>sets_ok ?ss'\<close> _ col' link']) simp_all
qed

end
