(* ===== verification/Mdv_Mst_Graph.thy ===== *)
theory Mdv_Mst_Graph
  imports Main
begin

text \<open>
  The graph argument behind the spanning tree of \<^verbatim>\<open>mdv_platform/generic/mdv_mst.c\<close>,
  apart from its data structures: connectivity by a set of links, the number of
  connected parts, and why links that no lighter links bypass weigh no more than
  any other set of links that connects the nodes.
\<close>


section \<open>Connectivity\<close>

definition joins :: "('e \<Rightarrow> nat \<times> nat) \<Rightarrow> 'e set \<Rightarrow> nat \<Rightarrow> nat \<Rightarrow> bool" where
  "joins ends F u v \<longleftrightarrow> (\<exists>e \<in> F. ends e = (u, v) \<or> ends e = (v, u))"

definition conn :: "('e \<Rightarrow> nat \<times> nat) \<Rightarrow> 'e set \<Rightarrow> nat \<Rightarrow> nat \<Rightarrow> bool" where
  "conn ends F = (joins ends F)\<^sup>*\<^sup>*"

lemma conn_refl [simp, intro]: "conn ends F u u"
  by (simp add: conn_def)

lemma conn_sym: "conn ends F u v \<Longrightarrow> conn ends F v u"
  unfolding conn_def
  by (induction rule: rtranclp_induct) (auto simp: joins_def intro: converse_rtranclp_into_rtranclp)

lemma conn_commute: "conn ends F u v \<longleftrightarrow> conn ends F v u"
  using conn_sym by metis

lemma conn_trans: "conn ends F u v \<Longrightarrow> conn ends F v w \<Longrightarrow> conn ends F u w"
  by (auto simp: conn_def)

lemma conn_link: "e \<in> F \<Longrightarrow> conn ends F (fst (ends e)) (snd (ends e))"
  unfolding conn_def joins_def by (rule r_into_rtranclp) (auto intro!: bexI [of _ e])

lemma conn_mono: "conn ends F u v \<Longrightarrow> F \<subseteq> G \<Longrightarrow> conn ends G u v"
  unfolding conn_def by (erule rtranclp_mono [THEN predicate2D, rotated]) (unfold joins_def, blast)

lemma conn_empty [simp]: "conn ends {} u v \<longleftrightarrow> u = v"
  by (auto simp: conn_def joins_def elim: converse_rtranclpE)

lemma conn_crossing:
  assumes "conn ends F u v" "u \<in> S" "v \<notin> S"
  shows "\<exists>e \<in> F. (fst (ends e) \<in> S) \<noteq> (snd (ends e) \<in> S)"
  using assms(1,3) unfolding conn_def
proof (induction rule: rtranclp_induct)
  case (step y z)
  then show ?case by (cases "y \<in> S") (force simp: joins_def)+
qed (use assms(2) in simp)

lemma conn_insert:
  assumes "ends e = (a, b)"
  shows "conn ends (insert e F) u v \<longleftrightarrow>
    conn ends F u v \<or> conn ends F u a \<and> conn ends F b v \<or> conn ends F u b \<and> conn ends F a v"
    (is "?L u v \<longleftrightarrow> ?R u v")
proof
  assume "?L u v"
  then show "?R u v"
    unfolding conn_def [of ends "insert e F"]
  proof (induction rule: rtranclp_induct)
    case (step y z)
    then have "conn ends F y z \<or> (y = a \<and> z = b) \<or> (y = b \<and> z = a)"
      using assms by (auto simp: joins_def conn_def intro!: r_into_rtranclp)
    with step.IH show ?case using conn_trans [of ends F] conn_sym [of ends F] by (metis conn_refl)
  qed simp
next
  have "conn ends (insert e F) a b" using conn_link [of e "insert e F" ends] assms by simp
  moreover have "conn ends F x y \<Longrightarrow> conn ends (insert e F) x y" for x y
    by (rule conn_mono) auto
  moreover assume "?R u v"
  ultimately show "?L u v" using conn_trans [of ends "insert e F"] conn_sym [of ends "insert e F"] by metis
qed


section \<open>The number of parts\<close>

text \<open>A node is counted when it is the least of its part.\<close>

definition least_nodes :: "('e \<Rightarrow> nat \<times> nat) \<Rightarrow> nat \<Rightarrow> 'e set \<Rightarrow> nat set" where
  "least_nodes ends n F = {i. i < n \<and> (\<forall>j < i. \<not> conn ends F j i)}"

definition parts :: "('e \<Rightarrow> nat \<times> nat) \<Rightarrow> nat \<Rightarrow> 'e set \<Rightarrow> nat" where
  "parts ends n F = card (least_nodes ends n F)"

lemma finite_least_nodes [simp]: "finite (least_nodes ends n F)"
  by (rule finite_subset [of _ "{..<n}"]) (auto simp: least_nodes_def)

lemma least_node_exists:
  assumes "a < n"
  obtains r where "r \<in> least_nodes ends n F" "conn ends F r a" "r \<le> a"
proof -
  let ?r = "LEAST r. conn ends F r a"
  have r: "conn ends F ?r a" by (rule LeastI [of _ a]) simp
  have "?r \<le> a" by (rule Least_le) simp
  moreover have "\<not> conn ends F j ?r" if "j < ?r" for j
    using that not_less_Least [of j "\<lambda>r. conn ends F r a"] conn_trans [OF _ r] by blast
  ultimately show thesis using r assms that [of ?r] by (auto simp: least_nodes_def)
qed

lemma least_nodes_unique:
  assumes "r \<in> least_nodes ends n F" "s \<in> least_nodes ends n F" "conn ends F r s"
  shows "r = s"
  using assms conn_sym [OF assms(3)] by (cases r s rule: linorder_cases) (auto simp: least_nodes_def)

lemma parts_pos: "0 < n \<Longrightarrow> 0 < parts ends n F"
  using least_node_exists [of 0 n ends F] by (metis card_gt_0_iff empty_iff finite_least_nodes parts_def)

lemma parts_same:
  assumes "ends e = (a, b)" "conn ends F a b"
  shows "parts ends n (insert e F) = parts ends n F"
proof -
  have "conn ends (insert e F) = conn ends F"
    using conn_insert [of ends e a b F] assms conn_trans [of ends F] conn_sym [of ends F] by (intro ext) metis
  then show ?thesis by (simp add: parts_def least_nodes_def)
qed

lemma parts_join:
  assumes "ends e = (a, b)" "\<not> conn ends F a b" "a < n" "b < n"
  shows "parts ends n (insert e F) + 1 = parts ends n F"
proof -
  obtain ra where ra: "ra \<in> least_nodes ends n F" "conn ends F ra a" using least_node_exists [OF assms(3)] .
  obtain rb where rb: "rb \<in> least_nodes ends n F" "conn ends F rb b" using least_node_exists [OF assms(4)] .
  have "ra \<noteq> rb" using ra rb assms(2) conn_trans [of ends F a rb b] conn_sym [of ends F] by metis
  have *: "conn ends (insert e F) u v \<longleftrightarrow> conn ends F u v \<or> conn ends F u ra \<and> conn ends F rb v \<or> conn ends F u rb \<and> conn ends F ra v" for u v
    using conn_insert [of ends e a b F u v] assms(1) ra(2) rb(2) conn_trans [of ends F] conn_sym [of ends F] by metis
  have "least_nodes ends n (insert e F) = least_nodes ends n F - {max ra rb}" (is "?N = _")
  proof (intro set_eqI iffI)
    fix i assume i: "i \<in> ?N"
    then have "i \<in> least_nodes ends n F" by (auto simp: least_nodes_def *)
    moreover have "conn ends (insert e F) (min ra rb) (max ra rb)"
      by (auto simp: * min_def max_def)
    then have "i \<noteq> max ra rb" using i \<open>ra \<noteq> rb\<close> by (auto simp: least_nodes_def min_def max_def split: if_splits)
    ultimately show "i \<in> least_nodes ends n F - {max ra rb}" by simp
  next
    fix i assume i: "i \<in> least_nodes ends n F - {max ra rb}"
    have "\<not> conn ends (insert e F) j i" if "j < i" for j
    proof
      assume "conn ends (insert e F) j i"
      moreover have "\<not> conn ends F j i" using i that by (auto simp: least_nodes_def)
      ultimately consider "conn ends F j ra" "conn ends F rb i" | "conn ends F j rb" "conn ends F ra i"
        by (auto simp: *)
      then show False
      proof cases
        case 1
        then have "i = rb" using least_nodes_unique [of i ends n F rb] i rb conn_sym by blast
        moreover have "ra \<le> j" using 1(1) ra(1) by (metis (mono_tags, lifting) least_nodes_def mem_Collect_eq not_le)
        ultimately show False using i that by (auto simp: max_def split: if_splits)
      next
        case 2
        then have "i = ra" using least_nodes_unique [of i ends n F ra] i ra conn_sym by blast
        moreover have "rb \<le> j" using 2(1) rb(1) by (metis (mono_tags, lifting) least_nodes_def mem_Collect_eq not_le)
        ultimately show False using i that by (auto simp: max_def split: if_splits)
      qed
    qed
    with i show "i \<in> ?N" by (auto simp: least_nodes_def)
  qed
  moreover have "max ra rb \<in> least_nodes ends n F" using ra rb by (auto simp: max_def)
  ultimately show ?thesis
    using card_Suc_Diff1 [of "least_nodes ends n F" "max ra rb"] by (simp add: parts_def)
qed

lemma connected_parts:
  assumes "parts ends n F \<le> 1" "u < n" "v < n"
  shows "conn ends F u v"
proof -
  obtain r where r: "r \<in> least_nodes ends n F" "conn ends F r u" using least_node_exists [OF assms(2)] .
  obtain s where s: "s \<in> least_nodes ends n F" "conn ends F s v" using least_node_exists [OF assms(3)] .
  have "r = s" using r(1) s(1) assms(1) card_le_Suc0_iff_eq [OF finite_least_nodes, of ends n F] by (auto simp: parts_def)
  with r(2) s(2) show ?thesis using conn_sym conn_trans by metis
qed


section \<open>Light links\<close>

lemma sum_by_thresholds:
  fixes w :: "'e \<Rightarrow> nat"
  assumes "finite A" "\<forall>e \<in> A. w e \<le> B"
  shows "sum w A = (\<Sum>t \<in> {1..B}. card {e \<in> A. t \<le> w e})"
proof -
  have "w e = (\<Sum>t \<in> {1..B}. if t \<le> w e then 1 else 0)" if "e \<in> A" for e
  proof -
    have "{t \<in> {1..B}. t \<le> w e} = {1..w e}" using assms(2) that by auto
    then show ?thesis by (simp add: sum.If_cases Int_def)
  qed
  then have "sum w A = (\<Sum>e \<in> A. \<Sum>t \<in> {1..B}. if t \<le> w e then 1 else 0)" by (rule sum.cong [OF refl])
  also have "\<dots> = (\<Sum>t \<in> {1..B}. \<Sum>e \<in> A. if t \<le> w e then 1 else 0)" by (rule sum.swap)
  also have "\<dots> = (\<Sum>t \<in> {1..B}. card {e \<in> A. t \<le> w e})"
    using assms(1) by (simp add: sum.If_cases Int_def)
  finally show ?thesis .
qed

text \<open>
  Links ordered by a key that decides between any two of them and respects their
  weights. A link is light if no links with smaller keys connect its ends.
\<close>

locale weighted_links =
  fixes E :: "'e set" and ends :: "'e \<Rightarrow> nat \<times> nat" and key :: "'e \<Rightarrow> 'k::linorder" and weight :: "'e \<Rightarrow> nat"
  assumes finite_E: "finite E" and key_inj: "inj_on key E"
    and key_weight: "e \<in> E \<Longrightarrow> f \<in> E \<Longrightarrow> weight e < weight f \<Longrightarrow> key e < key f"
begin

definition light :: "'e \<Rightarrow> bool" where
  "light e \<longleftrightarrow> e \<in> E \<and> \<not> conn ends {f \<in> E. key f < key e} (fst (ends e)) (snd (ends e))"

text \<open>The lightest link that leaves a set of nodes is light.\<close>

lemma lightest_leaving:
  assumes "e \<in> E" "(fst (ends e) \<in> S) \<noteq> (snd (ends e) \<in> S)"
    and "\<forall>f \<in> E. (fst (ends f) \<in> S) \<noteq> (snd (ends f) \<in> S) \<longrightarrow> key e \<le> key f"
  shows "light e"
proof (rule ccontr)
  assume "\<not> light e"
  then have c: "conn ends {f \<in> E. key f < key e} (fst (ends e)) (snd (ends e))" using assms(1) by (simp add: light_def)
  then have "\<exists>f \<in> {f \<in> E. key f < key e}. (fst (ends f) \<in> S) \<noteq> (snd (ends f) \<in> S)"
    using assms(2) conn_crossing [OF c, of S] conn_crossing [OF conn_sym [OF c], of S] by blast
  with assms(3) show False by fastforce
qed

lemma light_links_count:
  assumes "M \<subseteq> E" "\<forall>e \<in> M. light e" "L \<subseteq> E" "\<forall>f \<in> L. \<forall>e \<in> M. key f < key e"
    and "\<forall>e \<in> E. fst (ends e) < n \<and> snd (ends e) < n"
  shows "card M + parts ends n (L \<union> M) = parts ends n L"
proof -
  have "finite M" using assms(1) finite_E finite_subset by blast
  then show ?thesis using assms(1,2,4)
  proof (induction M rule: finite_ranking_induct [where f = key])
    case (insert x S)
    show ?case
    proof (cases "x \<in> S")
      case True
      with insert show ?thesis by (simp add: insert_absorb)
    next
      case False
      have "key y < key x" if "y \<in> L \<union> S" for y
        using insert.hyps insert.prems that False key_inj
        by (metis Un_iff inj_on_contraD insertCI order_le_imp_less_or_eq subsetD)
      then have "L \<union> S \<subseteq> {f \<in> E. key f < key x}" using insert.prems assms(3) by auto
      moreover have "light x" using insert.prems by simp
      ultimately have "\<not> conn ends (L \<union> S) (fst (ends x)) (snd (ends x))"
        using conn_mono unfolding light_def by metis
      then have "parts ends n (insert x (L \<union> S)) + 1 = parts ends n (L \<union> S)"
        by (rule parts_join [rotated]) (use insert.prems assms(5) in auto)
      with insert False show ?thesis by simp
    qed
  qed simp
qed

lemma connecting_links_count:
  assumes "finite F" "\<forall>e \<in> F. fst (ends e) < n \<and> snd (ends e) < n"
  shows "parts ends n L \<le> card F + parts ends n (L \<union> F)"
  using assms
proof (induction F rule: finite_induct)
  case (insert x F)
  have "parts ends n (L \<union> F) \<le> 1 + parts ends n (insert x (L \<union> F))"
  proof (cases "conn ends (L \<union> F) (fst (ends x)) (snd (ends x))")
    case True
    then show ?thesis using parts_same [of ends x "fst (ends x)" "snd (ends x)" "L \<union> F" n] by simp
  next
    case False
    then show ?thesis
      using parts_join [of ends x "fst (ends x)" "snd (ends x)" "L \<union> F" n] insert.prems by simp
  qed
  with insert show ?case by simp
qed simp

lemma parts_connected:
  assumes "\<forall>u < n. \<forall>v < n. conn ends F u v"
  shows "parts ends n F \<le> 1"
proof -
  have "least_nodes ends n F \<subseteq> {0}"
  proof
    fix i assume i: "i \<in> least_nodes ends n F"
    then have "i < n" by (simp add: least_nodes_def)
    with assms i show "i \<in> {0}" by (cases i) (auto simp: least_nodes_def)
  qed
  then have "card (least_nodes ends n F) \<le> card {0 :: nat}" by (rule card_mono [rotated]) simp
  then show ?thesis by (simp add: parts_def)
qed

lemma light_links_minimal:
  assumes M: "M \<subseteq> E" "\<forall>e \<in> M. light e"
    and F: "F \<subseteq> E" "\<forall>u < n. \<forall>v < n. conn ends F u v"
    and n: "0 < n" "\<forall>e \<in> E. fst (ends e) < n \<and> snd (ends e) < n"
  shows "sum weight M \<le> sum weight F"
proof -
  have fin: "finite M" "finite F" using M(1) F(1) finite_E finite_subset by blast+
  obtain B where "\<forall>e \<in> E. weight e \<le> B" using finite_E by (metis Max_ge finite_imageI imageI)
  then have B: "\<forall>e \<in> M. weight e \<le> B" "\<forall>e \<in> F. weight e \<le> B" using M(1) F(1) by blast+
  have "card {e \<in> M. t \<le> weight e} \<le> card {e \<in> F. t \<le> weight e}" for t
  proof -
    let ?L = "{e \<in> E. weight e < t}" and ?M = "{e \<in> M. t \<le> weight e}" and ?F = "{e \<in> F. t \<le> weight e}"
    have "card ?M + parts ends n (?L \<union> ?M) = parts ends n ?L"
    proof (rule light_links_count)
      show "\<forall>f \<in> ?L. \<forall>e \<in> ?M. key f < key e"
        using M(1) key_weight by (metis (mono_tags, lifting) mem_Collect_eq order_less_le_trans subsetD)
    qed (use M n in auto)
    moreover have "parts ends n ?L \<le> card ?F + parts ends n (?L \<union> ?F)"
      by (rule connecting_links_count) (use fin F(1) n(2) in auto)
    moreover have "parts ends n (?L \<union> ?F) \<le> 1"
    proof (rule parts_connected, intro allI impI)
      fix u v assume "u < n" "v < n"
      with F(2) have "conn ends F u v" by simp
      then show "conn ends (?L \<union> ?F) u v" by (rule conn_mono) (use F(1) in auto)
    qed
    moreover have "0 < parts ends n (?L \<union> ?M)" using n(1) by (rule parts_pos)
    ultimately show ?thesis by linarith
  qed
  then show ?thesis
    unfolding sum_by_thresholds [OF fin(1) B(1)] sum_by_thresholds [OF fin(2) B(2)] by (intro sum_mono)
qed

end

end
