(* ===== verification/Mdv_Mst_Run.thy ===== *)
theory Mdv_Mst_Run
  imports Mdv_Mst_Sets Mdv_Mst_Graph "HOL-Library.Product_Lexorder"
begin

text \<open>
  The two passes and the outer loop of the spanning tree algorithm, put together
  from the circular lists and the graph argument: the algorithm always returns,
  finds a spanning tree exactly when there is one, and the tree is minimal.
\<close>


section \<open>Links as a weighted graph\<close>

definition link_ends :: "mdv_mstlink list \<Rightarrow> nat \<Rightarrow> nat \<times> nat" where
  "link_ends links i = (ln_src (links ! i), ln_dst (links ! i))"

definition link_weight :: "mdv_mstlink list \<Rightarrow> nat \<Rightarrow> nat" where
  "link_weight links i = unat (ln_weight (links ! i))"

definition link_rank :: "mdv_mstlink \<Rightarrow> nat \<times> nat \<times> nat" where
  "link_rank l = (unat (ln_weight l), min (ln_src l) (ln_dst l), max (ln_src l) (ln_dst l))"

text \<open>Links of one rank are told apart by their positions.\<close>

definition link_key :: "mdv_mstlink list \<Rightarrow> nat \<Rightarrow> (nat \<times> nat \<times> nat) \<times> nat" where
  "link_key links i = (link_rank (links ! i), i)"

definition marked :: "mdv_mstlink list \<Rightarrow> nat set" where
  "marked links = {i. i < length links \<and> ln_mst (links ! i) \<noteq> 0}"

text \<open>
  Links between the n nodes whose weights differ so little that the comparison, which
  reads their 32-bit difference as signed, does not wrap.
\<close>

definition links_ok :: "nat \<Rightarrow> mdv_mstlink list \<Rightarrow> bool" where
  "links_ok n links \<longleftrightarrow> n < 2 ^ 31 \<and> (\<forall>l \<in> set links. ln_src l < n \<and> ln_dst l < n) \<and>
     (\<forall>a \<in> set links. \<forall>b \<in> set links. \<bar>int (unat (ln_weight a)) - int (unat (ln_weight b))\<bar> < 2 ^ 31)"

interpretation mst: weighted_links "{..<length links}" "link_ends links" "link_key links" "link_weight links" for links
  by unfold_locales (auto simp: inj_on_def link_key_def link_weight_def link_rank_def)

definition connected :: "nat \<Rightarrow> mdv_mstlink list \<Rightarrow> nat set \<Rightarrow> bool" where
  "connected n links F \<longleftrightarrow> (\<forall>u < n. \<forall>v < n. conn (link_ends links) F u v)"

lemma int_of_diff_small:
  assumes "\<bar>int (unat a) - int (unat b)\<bar> < 2 ^ 31"
  shows "int_of_diff a b = int (unat a) - int (unat b)"
proof -
  have bounds: "- (2 ^ 31) \<le> int (unat a) - int (unat b)" "int (unat a) - int (unat b) < 2 ^ 31"
    using assms by linarith+
  have "a - b = of_int (int (unat a) - int (unat b))" by simp
  then have "sint (a - b) = signed_take_bit 31 (int (unat a) - int (unat b))"
    by (simp only: signed_of_int) simp
  also have "\<dots> = int (unat a) - int (unat b)"
    using bounds by (rule signed_take_bit_int_eq_self)
  finally show ?thesis by (simp add: int_of_diff_def)
qed

lemma ordered_ends: "(if x < y then (x, y) else (y, x)) = (min x y, max x (y :: nat))"
  by (auto simp: min_def max_def)

lemma lexicographic_sign:
  "(if int w - int w' \<noteq> 0 then int w - int w' else if int x - int x' \<noteq> 0 then int x - int x' else int y - int y') > 0
    \<longleftrightarrow> (w', x', y') < (w, x, y)"
  by auto

lemma cmp_rank:
  assumes "links_ok n links" "a \<in> set links" "b \<in> set links"
  shows "mdv_mstlink_cmp a b > 0 \<longleftrightarrow> link_rank b < link_rank a"
proof -
  have small: "min (ln_src l) (ln_dst l) < 2 ^ 31" "max (ln_src l) (ln_dst l) < 2 ^ 31" if "l \<in> set links" for l
    using assms(1) that by (fastforce simp: links_ok_def)+
  have close: "\<bar>int (unat (ln_weight a)) - int (unat (ln_weight b))\<bar> < 2 ^ 31"
    using assms by (simp add: links_ok_def)
  have unat: "unat (of_nat k :: u32) = k" if "k < 2 ^ 31" for k
    using that by (simp add: unat_of_nat)
  have diff: "int_of_diff (of_nat j) (of_nat k) = int j - int k" if "j < 2 ^ 31" "k < 2 ^ 31" for j k
  proof -
    have "int j < 2 ^ 31" "int k < 2 ^ 31" using that by simp_all
    then have "\<bar>int j - int k\<bar> < 2 ^ 31" by linarith
    then show ?thesis using that int_of_diff_small [of "of_nat j" "of_nat k"] by (simp only: unat)
  qed
  show ?thesis
    unfolding mdv_mstlink_cmp_def ordered_ends link_rank_def Let_def prod.case
      int_of_diff_small [OF close]
      diff [OF small(1) [OF assms(2)] small(1) [OF assms(3)]] diff [OF small(2) [OF assms(2)] small(2) [OF assms(3)]]
    by (rule lexicographic_sign)
qed


section \<open>Loops over positions\<close>

lemma for_each_append: "for_each f (xs @ ys) s = do { s \<leftarrow> for_each f xs s; for_each f ys s }"
  by (induction xs arbitrary: s) simp_all

lemma for_each_inv:
  assumes "P 0 s" "\<And>i s. i < m \<Longrightarrow> P i s \<Longrightarrow> \<exists>s'. f i s = Some s' \<and> P (Suc i) s'"
  shows "\<exists>s'. for_each f [0..<m] s = Some s' \<and> P m s'"
  using assms(2)
proof (induction m)
  case (Suc m)
  from Suc.IH Suc.prems obtain s' where "for_each f [0..<m] s = Some s'" "P m s'" by (meson less_SucI)
  moreover from Suc.prems [of m s'] this obtain s'' where "f m s' = Some s''" "P (Suc m) s''" by auto
  ultimately show ?case by (simp add: for_each_append)
qed (use assms(1) in simp)


section \<open>The search for the closest links\<close>

text \<open>For a colouring c of the nodes, link i leaves the subset r.\<close>

definition leaves :: "mdv_mstlink list \<Rightarrow> (nat \<Rightarrow> nat) \<Rightarrow> nat \<Rightarrow> nat \<Rightarrow> bool" where
  "leaves links c r i \<longleftrightarrow> (c (ln_src (links ! i)) = r) \<noteq> (c (ln_dst (links ! i)) = r)"

text \<open>The least of the first k links that leave r.\<close>

definition best :: "mdv_mstlink list \<Rightarrow> (nat \<Rightarrow> nat) \<Rightarrow> nat \<Rightarrow> nat \<Rightarrow> nat option \<Rightarrow> bool" where
  "best links c k r l \<longleftrightarrow> (case l of
     None \<Rightarrow> \<forall>i < k. \<not> leaves links c r i
   | Some e \<Rightarrow> e < k \<and> leaves links c r e \<and> (\<forall>i < k. leaves links c r i \<longrightarrow> link_key links e \<le> link_key links i))"

text \<open>The subsets apart from their closest links.\<close>

definition same_sets :: "mdv_mstset list \<Rightarrow> mdv_mstset list \<Rightarrow> bool" where
  "same_sets ss ss' \<longleftrightarrow> map (\<lambda>s. (ms_set_id s, ms_next s)) ss' = map (\<lambda>s. (ms_set_id s, ms_next s)) ss"

lemma same_setsD:
  assumes "same_sets ss ss'"
  shows "length ss' = length ss" "i < length ss \<Longrightarrow> col ss' i = col ss i" "i < length ss \<Longrightarrow> nxt ss' i = nxt ss i"
proof -
  show len: "length ss' = length ss" using assms by (metis length_map same_sets_def)
  assume "i < length ss"
  then have "map (\<lambda>s. (ms_set_id s, ms_next s)) ss' ! i = map (\<lambda>s. (ms_set_id s, ms_next s)) ss ! i"
    using assms by (simp add: same_sets_def)
  then show "col ss' i = col ss i" "nxt ss' i = nxt ss i" using \<open>i < length ss\<close> len by simp_all
qed

lemma same_sets_ok:
  assumes "same_sets ss ss'" "sets_ok ss"
  shows "sets_ok ss'"
proof -
  note same = same_setsD [OF assms(1)]
  have "ring ss' r ts" if "ring ss r ts" for r ts
  proof -
    have "chain ss' (r # ts) fin = chain ss (r # ts) fin" for fin
      by (rule chain_cong, rule same(3)) (use that in \<open>auto simp only: ring_def\<close>)
    moreover have "{i. i < length ss' \<and> col ss' i = r} = {i. i < length ss \<and> col ss i = r}"
      using same(1,2) by auto
    ultimately show ?thesis using that by (simp only: ring_def)
  qed
  then show ?thesis
    using assms(2) same(1,2) unfolding sets_ok_def by metis
qed

lemma best_cong:
  assumes "links_ok n links" "\<And>x. x < n \<Longrightarrow> c x = c' x" "k \<le> length links"
  shows "best links c k r l = best links c' k r l"
proof -
  have "leaves links c r i = leaves links c' r i" if "i < k" for i
    using assms that by (simp add: leaves_def links_ok_def)
  then show ?thesis by (auto simp: best_def split: option.split)
qed

lemma best_Suc_other: "best links c k r l \<Longrightarrow> \<not> leaves links c r k \<Longrightarrow> best links c (Suc k) r l"
  by (cases l) (auto simp: best_def less_Suc_eq)

lemma best_Suc_leaving:
  assumes "best links c k r l" "leaves links c r k"
  shows "best links c (Suc k) r
    (Some (case l of None \<Rightarrow> k | Some e \<Rightarrow> if link_key links k < link_key links e then k else e))"
  using assms by (cases l) (auto simp: best_def less_Suc_eq intro: order_trans less_imp_le)

lemma closest_run:
  assumes "links_ok n links" "k < length links" "r < length ss" "best links c k r (ms_link (ss ! r))" "leaves links c r k"
  shows "\<exists>ss'. closest links k r ss = Some ss' \<and> same_sets ss ss' \<and> best links c (Suc k) r (ms_link (ss' ! r)) \<and>
    (\<forall>i. i \<noteq> r \<longrightarrow> ss' ! i = ss ! i)"
proof -
  let ?new = "ss[r := (ss ! r) \<lparr> ms_link := Some k \<rparr>]"
  have same: "same_sets ss ?new" "same_sets ss ss"
    using assms(3) by (auto simp: same_sets_def nth_list_update intro!: nth_equalityI)
  show ?thesis
  proof (cases "ms_link (ss ! r)")
    case None
    then show ?thesis
      using assms best_Suc_leaving [OF assms(4,5)] same
      by (intro exI [of _ ?new]) (simp add: closest_def set_link_def at_def)
  next
    case (Some e)
    then have "e < k" using assms(4) by (simp add: best_def)
    then have "mdv_mstlink_cmp (links ! e) (links ! k) > 0 \<longleftrightarrow> link_key links k < link_key links e"
      using cmp_rank [OF assms(1), of "links ! e" "links ! k"] assms(2) by (auto simp: link_key_def)
    then show ?thesis
      using assms best_Suc_leaving [OF assms(4,5)] same Some \<open>e < k\<close>
      by (cases "link_key links k < link_key links e")
        (auto simp: closest_def set_link_def at_def intro!: exI [of _ ?new] exI [of _ ss])
  qed
qed

lemma search_step_run:
  assumes "links_ok n links" "k < length links" "length ss = n" "\<And>i. i < n \<Longrightarrow> col ss i < n"
    and "\<And>r. r < n \<Longrightarrow> best links (col ss) k r (ms_link (ss ! r))"
  shows "\<exists>ss'. search_step links k ss = Some ss' \<and> same_sets ss ss' \<and>
    (\<forall>r < n. best links (col ss) (Suc k) r (ms_link (ss' ! r)))"
proof -
  let ?l = "links ! k" and ?c = "col ss"
  let ?a = "?c (ln_src ?l)" and ?b = "?c (ln_dst ?l)"
  have ends: "ln_src ?l < n" "ln_dst ?l < n" using assms(1,2) by (simp_all add: links_ok_def)
  have leaves_iff: "leaves links ?c r k \<longleftrightarrow> (?a = r) \<noteq> (?b = r)" for r by (simp add: leaves_def)
  show ?thesis
  proof (cases "?a = ?b")
    case True
    then have "\<forall>r < n. best links ?c (Suc k) r (ms_link (ss ! r))"
      using assms(5) best_Suc_other by (simp add: leaves_iff)
    then show ?thesis using True ends assms(2,3)
      by (intro exI [of _ ss]) (simp add: search_step_def at_def same_sets_def)
  next
    case False
    have a: "?a < length ss" "best links ?c k ?a (ms_link (ss ! ?a))" "leaves links ?c ?a k"
      using assms(3-5) ends False by (simp_all add: leaves_iff)
    obtain ss1 where ss1: "closest links k ?a ss = Some ss1" "same_sets ss ss1"
        "best links ?c (Suc k) ?a (ms_link (ss1 ! ?a))" "\<forall>i. i \<noteq> ?a \<longrightarrow> ss1 ! i = ss ! i"
      using closest_run [OF assms(1,2) a] by blast
    have b: "?b < length ss1" "best links ?c k ?b (ms_link (ss1 ! ?b))" "leaves links ?c ?b k"
      using assms(3-5) ends False ss1(4) same_setsD(1) [OF ss1(2)] by (simp_all add: leaves_iff)
    obtain ss2 where ss2: "closest links k ?b ss1 = Some ss2" "same_sets ss1 ss2"
        "best links ?c (Suc k) ?b (ms_link (ss2 ! ?b))" "\<forall>i. i \<noteq> ?b \<longrightarrow> ss2 ! i = ss1 ! i"
      using closest_run [OF assms(1,2) b] by blast
    have "best links ?c (Suc k) r (ms_link (ss2 ! r))" if "r < n" for r
    proof -
      consider "r = ?b" | "r = ?a" | "r \<noteq> ?a" "r \<noteq> ?b" by blast
      then show ?thesis
      proof cases
        case 1
        then show ?thesis using ss2(3) by simp
      next
        case 2
        then have "ss2 ! r = ss1 ! r" using ss2(4) False by simp
        with 2 show ?thesis using ss1(3) by simp
      next
        case 3
        then have "ss2 ! r = ss ! r" "\<not> leaves links ?c r k" using ss1(4) ss2(4) by (simp_all add: leaves_iff)
        then show ?thesis using best_Suc_other [OF assms(5) [OF that]] by simp
      qed
    qed
    moreover have "search_step links k ss = Some ss2"
      using ss1(1) ss2(1) False ends assms(2,3) by (simp add: search_step_def at_def)
    moreover have "same_sets ss ss2" using ss1(2) ss2(2) by (simp add: same_sets_def)
    ultimately show ?thesis by blast
  qed
qed

lemma search_run:
  assumes "links_ok n links" "length ss = n" "\<And>i. i < n \<Longrightarrow> col ss i < n"
  shows "\<exists>ss'. for_each (search_step links) [0..<length links] (map (\<lambda>s. s \<lparr> ms_link := None \<rparr>) ss) = Some ss' \<and>
    same_sets ss ss' \<and> (\<forall>r < n. best links (col ss) (length links) r (ms_link (ss' ! r)))"
proof (rule for_each_inv [where P = "\<lambda>k ss'. same_sets ss ss' \<and> (\<forall>r < n. best links (col ss) k r (ms_link (ss' ! r)))"])
  show "same_sets ss (map (\<lambda>s. s \<lparr> ms_link := None \<rparr>) ss) \<and>
      (\<forall>r < n. best links (col ss) 0 r (ms_link (map (\<lambda>s. s \<lparr> ms_link := None \<rparr>) ss ! r)))"
    using assms(2) by (simp add: same_sets_def best_def)
next
  fix k ss1
  assume k: "k < length links" and inv: "same_sets ss ss1 \<and> (\<forall>r < n. best links (col ss) k r (ms_link (ss1 ! r)))"
  note same = same_setsD [OF conjunct1 [OF inv]]
  have best: "best links (col ss1) j r l = best links (col ss) j r l" if "j \<le> length links" for j r l
    by (rule best_cong [OF assms(1)]) (use same(2) assms(2) that in auto)
  have "\<exists>ss2. search_step links k ss1 = Some ss2 \<and> same_sets ss1 ss2 \<and>
      (\<forall>r < n. best links (col ss1) (Suc k) r (ms_link (ss2 ! r)))"
  proof (rule search_step_run [OF assms(1) k])
    show "length ss1 = n" using same(1) assms(2) by simp
    show "col ss1 i < n" if "i < n" for i using same(2) assms(2,3) that by simp
    show "best links (col ss1) k r (ms_link (ss1 ! r))" if "r < n" for r
      using inv best [of k] k that by simp
  qed
  then obtain ss2 where ss2: "search_step links k ss1 = Some ss2" "same_sets ss1 ss2"
    "\<forall>r < n. best links (col ss1) (Suc k) r (ms_link (ss2 ! r))" by blast
  then have "same_sets ss ss2" "\<forall>r < n. best links (col ss) (Suc k) r (ms_link (ss2 ! r))"
    using inv best [of "Suc k"] k by (simp_all add: same_sets_def)
  with ss2(1) show "\<exists>ss2. search_step links k ss1 = Some ss2 \<and> same_sets ss ss2 \<and>
      (\<forall>r < n. best links (col ss) (Suc k) r (ms_link (ss2 ! r)))" by blast
qed

end
