(* ===== verification/Mdv_Mst_Tree.thy ===== *)
theory Mdv_Mst_Tree
  imports Mdv_Mst_Run
begin

text \<open>
  The joining pass and the outer loop of the spanning tree algorithm: the marked
  links stay light and connect exactly the nodes of one subset, so that the loop
  ends with a minimum spanning tree or with the certainty that there is none.
\<close>


section \<open>The joining pass\<close>

definition same_links :: "mdv_mstlink list \<Rightarrow> mdv_mstlink list \<Rightarrow> bool" where
  "same_links L links \<longleftrightarrow> map (\<lambda>l. l \<lparr> ln_mst := 0 \<rparr>) links = map (\<lambda>l. l \<lparr> ln_mst := 0 \<rparr>) L"

lemma same_linksD:
  assumes "same_links L links"
  shows "length links = length L"
    "i < length L \<Longrightarrow> ln_src (links ! i) = ln_src (L ! i) \<and> ln_dst (links ! i) = ln_dst (L ! i) \<and>
      ln_weight (links ! i) = ln_weight (L ! i)"
proof -
  show len: "length links = length L" using assms by (metis length_map same_links_def)
  assume "i < length L"
  then have "map (\<lambda>l. l \<lparr> ln_mst := 0 \<rparr>) links ! i = map (\<lambda>l. l \<lparr> ln_mst := 0 \<rparr>) L ! i"
    using assms by (simp add: same_links_def)
  then have "(links ! i) \<lparr> ln_mst := 0 \<rparr> = (L ! i) \<lparr> ln_mst := 0 \<rparr>" using \<open>i < length L\<close> len by simp
  then show "ln_src (links ! i) = ln_src (L ! i) \<and> ln_dst (links ! i) = ln_dst (L ! i) \<and>
      ln_weight (links ! i) = ln_weight (L ! i)"
    by (metis mdv_mstlink.ext_inject mdv_mstlink.surjective mdv_mstlink.update_convs(4))
qed

definition tree_inv :: "nat \<Rightarrow> mdv_mstlink list \<Rightarrow> mst_state \<Rightarrow> bool" where
  "tree_inv n L = (\<lambda>(ss, links, num_trees, mst_size).
     length ss = n \<and> sets_ok ss \<and> same_links L links \<and>
     (\<forall>u < n. \<forall>v < n. col ss u = col ss v \<longleftrightarrow> conn (link_ends L) (marked links) u v) \<and>
     (\<forall>e \<in> marked links. mst.light L e) \<and>
     mst_size = card (marked links) \<and> num_trees = n - card (marked links))"

lemma marked_set_mst:
  "l < length links \<Longrightarrow> marked (links[l := (links ! l) \<lparr> ln_mst := 1 \<rparr>]) = insert l (marked links)"
  by (auto simp: marked_def nth_list_update)

lemma same_links_mark:
  assumes "same_links L links" "l < length links"
  shows "same_links L (links[l := (links ! l) \<lparr> ln_mst := 1 \<rparr>])"
proof -
  have "map (\<lambda>l. l \<lparr> ln_mst := 0 \<rparr>) (links[l := (links ! l) \<lparr> ln_mst := 1 \<rparr>]) = map (\<lambda>l. l \<lparr> ln_mst := 0 \<rparr>) links"
    using assms(2) by (auto simp: nth_list_update intro!: nth_equalityI)
  with assms(1) show ?thesis by (simp add: same_links_def)
qed

lemma finite_marked [simp]: "finite (marked links)"
  by (rule finite_subset [of _ "{..<length links}"]) (auto simp: marked_def)

lemma marked_parts:
  assumes "links_ok n L" "same_links L links" "\<forall>e \<in> marked links. mst.light L e"
  shows "card (marked links) + parts (link_ends L) n (marked links) = n"
proof -
  have "least_nodes (link_ends L) n {} = {..<n}" by (auto simp: least_nodes_def)
  then have "parts (link_ends L) n {} = n" by (simp add: parts_def)
  moreover have "card (marked links) + parts (link_ends L) n ({} \<union> marked links) = parts (link_ends L) n {}"
    by (rule mst.light_links_count)
      (use assms in \<open>auto simp: marked_def links_ok_def link_ends_def same_linksD(1) [OF assms(2)]\<close>)
  ultimately show ?thesis by simp
qed

text \<open>The closest link of a subset is light, whatever has been joined since the search.\<close>

lemma best_light:
  assumes "best L c (length L) r (Some e)"
  shows "e < length L \<and> mst.light L e"
proof -
  have e: "e < length L" "leaves L c r e" "\<forall>i < length L. leaves L c r i \<longrightarrow> link_key L e \<le> link_key L i"
    using assms by (auto simp: best_def)
  have "mst.light L e"
    by (rule mst.lightest_leaving [where S = "{x. c x = r}"]) (use e in \<open>auto simp: leaves_def link_ends_def\<close>)
  with e(1) show ?thesis by simp
qed

lemma join_step_run:
  assumes ok: "links_ok n L" and inv: "tree_inv n L (ss, links, nt, sz)" and i: "i < n"
    and best: "best L c (length L) i (ms_link (ss ! i))"
  shows "\<exists>ss' links' nt' sz'. join_step i (ss, links, nt, sz) = Some (ss', links', nt', sz') \<and>
    tree_inv n L (ss', links', nt', sz') \<and> (\<forall>j < n. ms_link (ss' ! j) = ms_link (ss ! j)) \<and>
    (nt' < nt \<or> ss' = ss \<and> nt' = nt \<and>
      (\<forall>l. ms_link (ss ! i) = Some l \<longrightarrow> col ss (ln_src (L ! l)) = col ss (ln_dst (L ! l))))"
proof (cases "ms_link (ss ! i)")
  case None
  then show ?thesis using inv i
    by (intro exI [of _ ss] exI [of _ links] exI [of _ nt] exI [of _ sz]) (simp add: join_step_def at_def tree_inv_def)
next
  case (Some l)
  have l: "l < length L" "mst.light L l" using best_light [of L c i l] best Some by simp_all
  have len: "length ss = n" "sets_ok ss" "same_links L links" using inv by (simp_all add: tree_inv_def)
  note same = same_linksD [OF len(3)]
  let ?s = "ln_src (L ! l)" and ?d = "ln_dst (L ! l)"
  have ends: "?s < n" "?d < n" using ok l(1) by (simp_all add: links_ok_def)
  show ?thesis
  proof (cases "col ss ?s = col ss ?d")
    case True
    then show ?thesis using inv i l same Some ends len
      by (intro exI [of _ ss] exI [of _ links] exI [of _ nt] exI [of _ sz]) (simp add: join_step_def at_def)
  next
    case False
    have root: "col ss x < n" "col ss (col ss x) = col ss x" if "x < n" for x
      using len that unfolding sets_ok_def by blast+
    obtain ss' where ss': "mdv_union_subsets ss (col ss ?s) (col ss ?d) = Some ss'" "sets_ok ss'" "length ss' = length ss"
      and col': "\<And>i. i < length ss \<Longrightarrow> col ss' i = (if col ss i = col ss ?d then col ss ?s else col ss i)"
      and link': "\<And>i. i < length ss \<Longrightarrow> ms_link (ss' ! i) = ms_link (ss ! i)"
      by (rule union_run [OF len(2), of "col ss ?s" "col ss ?d"]) (use root ends len(1) False in simp_all)
    let ?links = "links[l := (links ! l) \<lparr> ln_mst := 1 \<rparr>]"
    have marked: "marked ?links = insert l (marked links)" using l same(1) by (simp add: marked_set_mst)
    have conn: "col ss u = col ss v \<longleftrightarrow> conn (link_ends L) (marked links) u v" if "u < n" "v < n" for u v
      using inv that by (simp add: tree_inv_def)
    have new: "l \<notin> marked links"
      using conn_link [of l "marked links" "link_ends L"] conn [OF ends] False by (auto simp: link_ends_def)
    have light: "\<forall>e \<in> marked ?links. mst.light L e" using inv l(2) by (simp add: tree_inv_def marked)
    have same': "same_links L ?links" using len(3) l(1) same(1) by (simp add: same_links_mark)
    have "card (marked ?links) \<le> n" using marked_parts [OF ok same' light] by linarith
    then have count: "n - card (marked ?links) = nt - 1" "0 < nt" "card (marked ?links) = sz + 1"
      using inv new by (simp_all add: tree_inv_def marked)
    have "col ss' u = col ss' v \<longleftrightarrow> conn (link_ends L) (marked ?links) u v" if "u < n" "v < n" for u v
    proof -
      have "conn (link_ends L) (marked ?links) u v \<longleftrightarrow>
          col ss u = col ss v \<or> col ss u = col ss ?s \<and> col ss ?d = col ss v \<or> col ss u = col ss ?d \<and> col ss ?s = col ss v"
        using conn_insert [of "link_ends L" l ?s ?d "marked links" u v]
        by (simp only: marked link_ends_def conn [OF that] conn [OF that(1) ends(1)] conn [OF that(1) ends(2)]
            conn [OF ends(1) that(2)] conn [OF ends(2) that(2)])
      moreover have "col ss' u = (if col ss u = col ss ?d then col ss ?s else col ss u)"
        "col ss' v = (if col ss v = col ss ?d then col ss ?s else col ss v)" using col' len(1) that by simp_all
      ultimately show ?thesis using False by auto
    qed
    then have "tree_inv n L (ss', ?links, nt - 1, sz + 1)"
      using ss' len(1) same' light count by (simp add: tree_inv_def)
    moreover have "join_step i (ss, links, nt, sz) = Some (ss', ?links, nt - 1, sz + 1)"
      using Some i l(1) same ends len(1) False ss'(1) by (simp add: join_step_def at_def)
    ultimately show ?thesis using link' len(1) count(2)
      by (intro exI [of _ ss'] exI [of _ ?links] exI [of _ "nt - 1"] exI [of _ "sz + 1"]) simp
  qed
qed

lemma same_links_graph:
  assumes "same_links L links"
  shows "links_ok n links = links_ok n L" "k \<le> length L \<Longrightarrow> best links c k r l = best L c k r l"
proof -
  note same = same_linksD [OF assms]
  show "links_ok n links = links_ok n L"
    using same by (simp add: links_ok_def all_set_conv_all_nth)
  assume "k \<le> length L"
  then have "leaves links c r i = leaves L c r i" "link_key links i = link_key L i" if "i < k" for i
    using same that by (simp_all add: leaves_def link_key_def link_rank_def)
  then show "best links c k r l = best L c k r l"
    by (auto simp: best_def split: option.split)
qed


section \<open>Rounds\<close>

text \<open>A round joins at least two subsets, unless no link leaves any of them.\<close>

lemma join_run:
  assumes ok: "links_ok n L" and inv: "tree_inv n L (ss, links, nt, sz)"
    and best: "\<forall>r < n. best L (col ss) (length L) r (ms_link (ss ! r))"
  shows "\<exists>ss' links' nt' sz'. for_each join_step [0..<n] (ss, links, nt, sz) = Some (ss', links', nt', sz') \<and>
    tree_inv n L (ss', links', nt', sz') \<and>
    (nt' < nt \<or> nt' = nt \<and> (\<forall>l < length L. col ss (ln_src (L ! l)) = col ss (ln_dst (L ! l))))"
proof -
  let ?P = "\<lambda>k (ss', links', nt', sz'). tree_inv n L (ss', links', nt', sz') \<and>
    (\<forall>j < n. ms_link (ss' ! j) = ms_link (ss ! j)) \<and> (nt' < nt \<or> ss' = ss \<and> nt' = nt \<and> (\<forall>j < k. ms_link (ss ! j) = None))"
  have "\<exists>st'. for_each join_step [0..<n] (ss, links, nt, sz) = Some st' \<and> ?P n st'"
  proof (rule for_each_inv [where P = ?P])
    show "?P 0 (ss, links, nt, sz)" using inv by simp
  next
    fix i and st :: mst_state
    obtain ss1 links1 nt1 sz1 where st: "st = (ss1, links1, nt1, sz1)" by (cases st)
    assume i: "i < n" and "?P i st"
    then have P: "tree_inv n L (ss1, links1, nt1, sz1)" "\<forall>j < n. ms_link (ss1 ! j) = ms_link (ss ! j)"
      "nt1 < nt \<or> ss1 = ss \<and> nt1 = nt \<and> (\<forall>j < i. ms_link (ss ! j) = None)" by (simp_all add: st)
    have "best L (col ss) (length L) i (ms_link (ss1 ! i))" using best P(2) i by simp
    from join_step_run [OF ok P(1) i this] obtain ss2 links2 nt2 sz2 where
      step: "join_step i (ss1, links1, nt1, sz1) = Some (ss2, links2, nt2, sz2)" "tree_inv n L (ss2, links2, nt2, sz2)"
        "\<forall>j < n. ms_link (ss2 ! j) = ms_link (ss1 ! j)"
      and prog: "nt2 < nt1 \<or> ss2 = ss1 \<and> nt2 = nt1 \<and>
        (\<forall>l. ms_link (ss1 ! i) = Some l \<longrightarrow> col ss1 (ln_src (L ! l)) = col ss1 (ln_dst (L ! l)))" by blast
    have "nt2 < nt \<or> ss2 = ss \<and> nt2 = nt \<and> (\<forall>j < Suc i. ms_link (ss ! j) = None)"
    proof (cases "nt2 < nt")
      case False
      with P(3) prog have same: "ss1 = ss" "nt1 = nt" "ss2 = ss" "nt2 = nt" "\<forall>j < i. ms_link (ss ! j) = None"
        "\<forall>l. ms_link (ss ! i) = Some l \<longrightarrow> col ss (ln_src (L ! l)) = col ss (ln_dst (L ! l))" by auto
      have "ms_link (ss ! i) = None"
      proof (rule ccontr)
        assume "ms_link (ss ! i) \<noteq> None"
        then obtain l where l: "ms_link (ss ! i) = Some l" by blast
        with best i have "leaves L (col ss) i l" by (auto simp: best_def)
        with same(6) l show False by (auto simp: leaves_def)
      qed
      with same show ?thesis by (auto simp: less_Suc_eq)
    qed simp
    with step P(2) show "\<exists>st'. join_step i st = Some st' \<and> ?P (Suc i) st'"
      by (intro exI [of _ "(ss2, links2, nt2, sz2)"]) (simp add: st)
  qed
  then obtain ss' links' nt' sz' where "for_each join_step [0..<n] (ss, links, nt, sz) = Some (ss', links', nt', sz')"
    and P: "?P n (ss', links', nt', sz')" by auto
  moreover have "\<forall>l < length L. col ss (ln_src (L ! l)) = col ss (ln_dst (L ! l))" if "nt' = nt"
  proof (intro allI impI, rule ccontr)
    fix l assume l: "l < length L" and diff: "col ss (ln_src (L ! l)) \<noteq> col ss (ln_dst (L ! l))"
    let ?r = "col ss (ln_src (L ! l))"
    have "ln_src (L ! l) < n" using ok l by (simp add: links_ok_def)
    moreover have "length ss = n" "sets_ok ss" using inv by (simp_all add: tree_inv_def)
    ultimately have "?r < n" unfolding sets_ok_def by blast
    then have "best L (col ss) (length L) ?r None" using best P that by auto
    with l diff show False by (auto simp: best_def leaves_def)
  qed
  moreover have "tree_inv n L (ss', links', nt', sz')" "nt' < nt \<or> nt' = nt" using P by auto
  ultimately show ?thesis by blast
qed

lemma connected_marked:
  assumes "links_ok n L" "tree_inv n L (ss, links, nt, sz)"
  shows "connected n L (marked links) \<longleftrightarrow> nt \<le> 1"
proof -
  have "card (marked links) + parts (link_ends L) n (marked links) = n"
    using marked_parts [OF assms(1)] assms(2) by (simp add: tree_inv_def)
  then have "nt = parts (link_ends L) n (marked links)" using assms(2) by (simp add: tree_inv_def)
  then show ?thesis
    using mst.parts_connected [of n L "marked links"] connected_parts [of "link_ends L" n "marked links"]
    by (auto simp: connected_def)
qed

lemma no_leaving_links:
  assumes "links_ok n L" "tree_inv n L (ss, links, nt, sz)" "nt > 1"
    and "\<forall>l < length L. col ss (ln_src (L ! l)) = col ss (ln_dst (L ! l))"
  shows "\<not> connected n L {..<length L}"
proof
  assume "connected n L {..<length L}"
  moreover obtain u v where uv: "u < n" "v < n" "\<not> conn (link_ends L) (marked links) u v"
    using connected_marked [OF assms(1,2)] assms(3) by (auto simp: connected_def)
  ultimately have "conn (link_ends L) {..<length L} u v" by (simp add: connected_def)
  moreover have "col ss u \<noteq> col ss v" using assms(2) uv by (simp add: tree_inv_def)
  ultimately obtain l where "l < length L" "(fst (link_ends L l) \<in> {x. col ss x = col ss u}) \<noteq> (snd (link_ends L l) \<in> {x. col ss x = col ss u})"
    using conn_crossing [of "link_ends L" "{..<length L}" u v "{x. col ss x = col ss u}"] by auto
  with assms(4) show False by (auto simp: link_ends_def)
qed

definition mst_result :: "nat \<Rightarrow> mdv_mstlink list \<Rightarrow> mdv_mstlink list \<Rightarrow> nat \<Rightarrow> bool" where
  "mst_result n L links sz \<longleftrightarrow> same_links L links \<and>
     (if connected n L {..<length L}
      then sz = n - 1 \<and> card (marked links) = sz \<and> connected n L (marked links) \<and> (\<forall>e \<in> marked links. mst.light L e)
      else sz = 0)"

lemma loop_done:
  assumes "links_ok n L" "tree_inv n L (ss, links, nt, sz)" "nt \<le> 1"
  shows "mst_result n L links sz"
proof -
  have inv: "same_links L links" "\<forall>e \<in> marked links. mst.light L e" "sz = card (marked links)" "nt = n - card (marked links)"
    using assms(2) by (simp_all add: tree_inv_def)
  have conn: "connected n L (marked links)" using connected_marked [OF assms(1,2)] assms(3) by simp
  have "marked links \<subseteq> {..<length L}" using same_linksD(1) [OF inv(1)] by (auto simp: marked_def)
  then have "connected n L {..<length L}" using conn conn_mono unfolding connected_def by metis
  moreover have "card (marked links) = n - 1"
  proof (cases n)
    case (Suc k)
    then have "0 < parts (link_ends L) n (marked links)" by (simp add: parts_pos)
    with marked_parts [OF assms(1) inv(1,2)] inv(4) assms(3) show ?thesis by linarith
  qed (use marked_parts [OF assms(1) inv(1,2)] in simp)
  ultimately show ?thesis using inv conn by (simp add: mst_result_def)
qed

lemma round_run:
  assumes "links_ok n L" "tree_inv n L (ss, links, nt, sz)"
  shows "\<exists>ss1 ss2 links2 nt2 sz2.
    for_each (search_step links) [0..<length links] (map (\<lambda>s. s \<lparr> ms_link := None \<rparr>) ss) = Some ss1 \<and>
    for_each join_step [0..<n] (ss1, links, nt, sz) = Some (ss2, links2, nt2, sz2) \<and>
    tree_inv n L (ss2, links2, nt2, sz2) \<and>
    (nt2 < nt \<or> nt2 = nt \<and> (\<forall>l < length L. col ss (ln_src (L ! l)) = col ss (ln_dst (L ! l))))"
proof -
  have inv: "length ss = n" "sets_ok ss" "same_links L links" using assms(2) by (simp_all add: tree_inv_def)
  have lt: "col ss i < n" if "i < n" for i using inv(1,2) that unfolding sets_ok_def by blast
  have "links_ok n links" using assms(1) same_links_graph(1) [OF inv(3)] by simp
  from search_run [OF this inv(1) lt] obtain ss1 where
    ss1: "for_each (search_step links) [0..<length links] (map (\<lambda>s. s \<lparr> ms_link := None \<rparr>) ss) = Some ss1" "same_sets ss ss1"
      "\<forall>r < n. best links (col ss) (length links) r (ms_link (ss1 ! r))" by blast
  note same = same_setsD [OF ss1(2)]
  have "best L (col ss1) (length L) r l = best links (col ss) (length links) r l" for r l
    using best_cong [OF assms(1), of "col ss1" "col ss" "length L" r l] same(2) inv(1)
      same_links_graph(2) [OF inv(3), of "length L"] same_linksD(1) [OF inv(3)] by simp
  with ss1(3) have best: "\<forall>r < n. best L (col ss1) (length L) r (ms_link (ss1 ! r))" by simp
  have "tree_inv n L (ss1, links, nt, sz)"
    using assms(2) same inv(1) same_sets_ok [OF ss1(2) inv(2)] by (simp add: tree_inv_def)
  from join_run [OF assms(1) this best] obtain ss2 links2 nt2 sz2 where
    "for_each join_step [0..<n] (ss1, links, nt, sz) = Some (ss2, links2, nt2, sz2)" "tree_inv n L (ss2, links2, nt2, sz2)"
    "nt2 < nt \<or> nt2 = nt \<and> (\<forall>l < length L. col ss1 (ln_src (L ! l)) = col ss1 (ln_dst (L ! l)))" by blast
  moreover have "col ss1 (ln_src (L ! l)) = col ss (ln_src (L ! l))" "col ss1 (ln_dst (L ! l)) = col ss (ln_dst (L ! l))"
    if "l < length L" for l
    using that assms(1) same(2) inv(1) by (simp_all add: links_ok_def)
  ultimately show ?thesis using ss1(1) by metis
qed

lemma mst_loop_run:
  assumes "links_ok n L" "tree_inv n L (ss, links, nt, sz)"
  shows "\<exists>ss' links' nt' sz'. mst_loop n (ss, links, nt, sz) = Some (ss', links', nt', sz') \<and> mst_result n L links' sz'"
  using assms(2)
proof (induction nt arbitrary: ss links sz rule: less_induct)
  case (less nt)
  show ?case
  proof (cases "nt > 1")
    case False
    with loop_done [OF assms(1) less.prems] show ?thesis by (subst mst_loop.simps) simp
  next
    case True
    from round_run [OF assms(1) less.prems] obtain ss1 ss2 links2 nt2 sz2 where
      search: "for_each (search_step links) [0..<length links] (map (\<lambda>s. s \<lparr> ms_link := None \<rparr>) ss) = Some ss1"
      and join: "for_each join_step [0..<n] (ss1, links, nt, sz) = Some (ss2, links2, nt2, sz2)"
      and inv: "tree_inv n L (ss2, links2, nt2, sz2)"
      and prog: "nt2 < nt \<or> nt2 = nt \<and> (\<forall>l < length L. col ss (ln_src (L ! l)) = col ss (ln_dst (L ! l)))" by blast
    have loop: "mst_loop n (ss, links, nt, sz) =
        (if nt2 = nt then Some (ss2, links2, nt2, 0) else mst_loop n (ss2, links2, nt2, sz2))"
      using True by (subst mst_loop.simps) (simp add: search join)
    show ?thesis
    proof (cases "nt2 = nt")
      case same: True
      with prog no_leaving_links [OF assms(1) less.prems True] have "\<not> connected n L {..<length L}" by simp
      moreover have "same_links L links2" using inv by (simp add: tree_inv_def)
      ultimately show ?thesis using loop same by (simp add: mst_result_def)
    next
      case False
      with prog less.IH [of nt2 ss2 links2 sz2] inv loop show ?thesis by simp
    qed
  qed
qed


section \<open>The algorithm\<close>

lemma start_inv:
  "tree_inv n L (map (\<lambda>i. \<lparr> ms_set_id = i, ms_link = None, ms_next = None \<rparr>) [0..<n], map (\<lambda>l. l \<lparr> ln_mst := 0 \<rparr>) L, n, 0)"
    (is "tree_inv n L (?ss, ?links, n, 0)")
proof -
  have none: "marked ?links = {}" by (auto simp: marked_def)
  have "ring ?ss r []" if "r < n" for r
    using that by (auto simp: ring_def)
  then have "sets_ok ?ss" by (auto simp: sets_ok_def)
  moreover have "same_links L ?links" by (simp add: same_links_def)
  ultimately show ?thesis by (simp add: tree_inv_def none)
qed

lemma mst_find_run:
  assumes "links_ok n links"
  shows "\<exists>sz links'. mdv_mst_find True n links = Some (sz, links') \<and> mst_result n links links' sz"
  using mst_loop_run [OF assms start_inv] by (auto simp: mdv_mst_find_def)

text \<open>
  C15. When its memory could be allocated and no two weights differ by 2^31 or
  more, the search for a spanning tree always returns. It changes nothing of the
  links but their marks. If the links connect the nodes, it returns one less than
  the number of nodes, that many links are marked, and they connect the nodes;
  otherwise it returns zero.
\<close>

theorem mst_find_spanning:
  assumes "links_ok n links"
  shows "\<exists>sz links'. mdv_mst_find True n links = Some (sz, links') \<and> same_links links links' \<and>
    (if connected n links {..<length links}
     then sz = n - 1 \<and> card (marked links') = sz \<and> connected n links (marked links')
     else sz = 0)"
  using mst_find_run [OF assms] unfolding mst_result_def by (metis (no_types, lifting))

definition two_links :: "mdv_mstlink list" where
  "two_links = [\<lparr> ln_src = 0, ln_dst = 1, ln_weight = 5, ln_mst = 0 \<rparr>, \<lparr> ln_src = 1, ln_dst = 0, ln_weight = 3, ln_mst = 0 \<rparr>]"

lemma two_links_ok: "links_ok 2 two_links"
  by (simp add: links_ok_def two_links_def)

lemma two_links_connected: "k < 2 \<Longrightarrow> k \<in> F \<Longrightarrow> connected 2 two_links F"
  using conn_link [of k F "link_ends two_links"] conn_sym
  by (fastforce simp: connected_def link_ends_def two_links_def less_2_cases_iff)

lemma mst_find_spanning_witness:
  "\<exists>sz links'. mdv_mst_find True 2 two_links = Some (sz, links') \<and> sz = 1 \<and> card (marked links') = 1"
  using mst_find_spanning [OF two_links_ok] two_links_connected [of 0 "{..<length two_links}"]
  by (auto simp: two_links_def)

text \<open>Two weights so far apart that their difference, read as signed, has the wrong sign.\<close>

definition far_links :: "mdv_mstlink list" where
  "far_links = [\<lparr> ln_src = 0, ln_dst = 1, ln_weight = 0, ln_mst = 0 \<rparr>, \<lparr> ln_src = 0, ln_dst = 1, ln_weight = 0x80000001, ln_mst = 0 \<rparr>]"

lemma far_links_cmp: "mdv_mstlink_cmp (far_links ! 0) (far_links ! 1) > 0"
  by (simp add: mdv_mstlink_cmp_def int_of_diff_def far_links_def Let_def)

lemma far_links_search:
  "for_each (search_step far_links) [0..<2] [\<lparr> ms_set_id = 0, ms_link = None, ms_next = None \<rparr>, \<lparr> ms_set_id = 1, ms_link = None, ms_next = None \<rparr>] =
     Some [\<lparr> ms_set_id = 0, ms_link = Some 1, ms_next = None \<rparr>, \<lparr> ms_set_id = 1, ms_link = Some 1, ms_next = None \<rparr>]"
  using far_links_cmp by (simp add: upt_conv_Cons search_step_def closest_def set_link_def at_def far_links_def)

lemma far_links_join:
  "for_each join_step [0..<2] ([\<lparr> ms_set_id = 0, ms_link = Some 1, ms_next = None \<rparr>, \<lparr> ms_set_id = 1, ms_link = Some 1, ms_next = None \<rparr>], far_links, 2, 0) =
     Some ([\<lparr> ms_set_id = 0, ms_link = Some 1, ms_next = Some 1 \<rparr>, \<lparr> ms_set_id = 0, ms_link = Some 1, ms_next = Some 0 \<rparr>],
       far_links[1 := (far_links ! 1) \<lparr> ln_mst := 1 \<rparr>], 1, 1)"
  by (simp add: upt_conv_Cons join_step_def mdv_union_subsets_def at_def far_links_def union_subsets_loop.simps [of 0 "Some (Suc 0)"]
      union_subsets_loop.simps [of 0 None])

lemma far_links_find: "mdv_mst_find True 2 far_links = Some (1, far_links[1 := (far_links ! 1) \<lparr> ln_mst := 1 \<rparr>])"
proof -
  have start: "map (\<lambda>i. \<lparr> ms_set_id = i, ms_link = None, ms_next = None \<rparr>) [0..<2] =
      [\<lparr> ms_set_id = 0, ms_link = None, ms_next = None \<rparr>, \<lparr> ms_set_id = 1, ms_link = None, ms_next = None \<rparr>]"
    "map (\<lambda>l. l \<lparr> ln_mst := 0 \<rparr>) far_links = far_links" "length far_links = 2"
    by (simp_all add: upt_conv_Cons far_links_def)
  show ?thesis
    unfolding mdv_mst_find_def start
    by (simp add: mst_loop.simps [of 2 "(_, _, 2, 0)"] mst_loop.simps [of 2 "(_, _, Suc 0, Suc 0)"] start
        far_links_search [unfolded One_nat_def] far_links_join [unfolded One_nat_def])
qed

text \<open>
  C14. Minimality: when no two weights differ by 2^31 or more and the links
  connect the nodes, the marked links weigh no more than any other set of links
  that connects the nodes. The condition on the weights is needed: the comparison
  takes their 32-bit difference as signed, and of two parallel links with the
  weights 0 and 0x80000001 the heavier one is marked.
\<close>

theorem mst_find_minimal:
  assumes "links_ok n links" "0 < n" "F \<subseteq> {..<length links}" "connected n links F"
    and "mdv_mst_find True n links = Some (sz, links')"
  shows "(\<Sum>e \<in> marked links'. link_weight links e) \<le> (\<Sum>e \<in> F. link_weight links e) \<and>
    (\<exists>L'. mdv_mst_find True 2 far_links = Some (1, L') \<and> connected 2 far_links {0} \<and>
      (\<Sum>e \<in> {0}. link_weight far_links e) < (\<Sum>e \<in> marked L'. link_weight far_links e))"
proof (rule conjI)
  have "connected n links {..<length links}" using assms(3,4) conn_mono unfolding connected_def by metis
  with mst_find_run [OF assms(1)] assms(5) have res: "same_links links links'" "\<forall>e \<in> marked links'. mst.light links e"
    by (auto simp: mst_result_def)
  show "(\<Sum>e \<in> marked links'. link_weight links e) \<le> (\<Sum>e \<in> F. link_weight links e)"
  proof (rule mst.light_links_minimal)
    show "marked links' \<subseteq> {..<length links}" using same_linksD(1) [OF res(1)] by (auto simp: marked_def)
    show "\<forall>e \<in> {..<length links}. fst (link_ends links e) < n \<and> snd (link_ends links e) < n"
      using assms(1) by (simp add: links_ok_def link_ends_def)
  qed (use res assms in \<open>auto simp: connected_def\<close>)
  have "marked (far_links[1 := (far_links ! 1) \<lparr> ln_mst := 1 \<rparr>]) = {1}"
    by (auto simp: marked_def far_links_def nth_Cons' split: if_splits)
  moreover have "connected 2 far_links {0}"
    using conn_link [of 0 "{0}" "link_ends far_links"] conn_sym
    by (fastforce simp: connected_def link_ends_def far_links_def less_2_cases_iff)
  ultimately show "\<exists>L'. mdv_mst_find True 2 far_links = Some (1, L') \<and> connected 2 far_links {0} \<and>
      (\<Sum>e \<in> {0}. link_weight far_links e) < (\<Sum>e \<in> marked L'. link_weight far_links e)"
    using far_links_find by (simp add: link_weight_def far_links_def)
qed

lemma mst_find_minimal_witness:
  "\<exists>sz links'. mdv_mst_find True 2 two_links = Some (sz, links') \<and> (\<Sum>e \<in> marked links'. link_weight two_links e) \<le> 3"
proof -
  obtain sz links' where run: "mdv_mst_find True 2 two_links = Some (sz, links')" using mst_find_run [OF two_links_ok] by blast
  have "(\<Sum>e \<in> marked links'. link_weight two_links e) \<le> (\<Sum>e \<in> {1}. link_weight two_links e)"
    by (rule mst_find_minimal [OF two_links_ok _ _ two_links_connected [of 1] run, THEN conjunct1]) (simp_all add: two_links_def)
  with run show ?thesis by (auto simp: link_weight_def two_links_def)
qed

end
