(* ===== verification/Mdv_Binn.thy ===== *)
theory Mdv_Binn
  imports Mdv_Prelude "HOL-Library.Monad_Syntax"
begin

text \<open>
  The binary containers of mdv_thirdparty/binn: the writer that appends values
  to a growing buffer and puts the header in front of them, and the reader that
  walks through a serialised container. A C int is an integer. A result of None
  is a memory access outside the buffer or an integer overflow; failures the code
  reports are values. Bytes a reallocation leaves undetermined are zero here, and
  nothing depends on them.
\<close>

section \<open>Type codes\<close>

abbreviation (input) BINN_STORAGE_NOBYTES :: int where "BINN_STORAGE_NOBYTES \<equiv> 0x00"
abbreviation (input) BINN_STORAGE_BYTE :: int where "BINN_STORAGE_BYTE \<equiv> 0x20"
abbreviation (input) BINN_STORAGE_WORD :: int where "BINN_STORAGE_WORD \<equiv> 0x40"
abbreviation (input) BINN_STORAGE_DWORD :: int where "BINN_STORAGE_DWORD \<equiv> 0x60"
abbreviation (input) BINN_STORAGE_QWORD :: int where "BINN_STORAGE_QWORD \<equiv> 0x80"
abbreviation (input) BINN_STORAGE_STRING :: int where "BINN_STORAGE_STRING \<equiv> 0xA0"
abbreviation (input) BINN_STORAGE_BLOB :: int where "BINN_STORAGE_BLOB \<equiv> 0xC0"
abbreviation (input) BINN_STORAGE_CONTAINER :: int where "BINN_STORAGE_CONTAINER \<equiv> 0xE0"
abbreviation (input) BINN_STORAGE_VIRTUAL :: int where "BINN_STORAGE_VIRTUAL \<equiv> 0x80000"

abbreviation (input) BINN_LIST :: int where "BINN_LIST \<equiv> 0xE0"
abbreviation (input) BINN_MAP :: int where "BINN_MAP \<equiv> 0xE1"
abbreviation (input) BINN_OBJECT :: int where "BINN_OBJECT \<equiv> 0xE2"
abbreviation (input) BINN_NULL :: int where "BINN_NULL \<equiv> 0x00"
abbreviation (input) BINN_TRUE :: int where "BINN_TRUE \<equiv> 0x01"
abbreviation (input) BINN_FALSE :: int where "BINN_FALSE \<equiv> 0x02"
abbreviation (input) BINN_UINT8 :: int where "BINN_UINT8 \<equiv> 0x20"
abbreviation (input) BINN_INT8 :: int where "BINN_INT8 \<equiv> 0x21"
abbreviation (input) BINN_UINT16 :: int where "BINN_UINT16 \<equiv> 0x40"
abbreviation (input) BINN_INT16 :: int where "BINN_INT16 \<equiv> 0x41"
abbreviation (input) BINN_UINT32 :: int where "BINN_UINT32 \<equiv> 0x60"
abbreviation (input) BINN_INT32 :: int where "BINN_INT32 \<equiv> 0x61"
abbreviation (input) BINN_UINT64 :: int where "BINN_UINT64 \<equiv> 0x80"
abbreviation (input) BINN_INT64 :: int where "BINN_INT64 \<equiv> 0x81"
abbreviation (input) BINN_STRING :: int where "BINN_STRING \<equiv> 0xA0"
abbreviation (input) BINN_FLOAT32 :: int where "BINN_FLOAT32 \<equiv> 0x62"
abbreviation (input) BINN_FLOAT64 :: int where "BINN_FLOAT64 \<equiv> 0x82"
abbreviation (input) BINN_BLOB :: int where "BINN_BLOB \<equiv> 0xC0"
abbreviation (input) BINN_BOOL :: int where "BINN_BOOL \<equiv> 0x80061"

definition binn_get_type_info :: "int \<Rightarrow> int" where
  "binn_get_type_info long_type =
     (let short = (\<lambda>t. if t \<le> 0xff then t AND 0xE0 else drop_bit 8 (t AND 0xE000)) in
      if long_type < 0 then -1
      else if long_type \<le> 0xffff then short long_type
      else if long_type AND BINN_STORAGE_VIRTUAL \<noteq> 0 then short (long_type AND 0xffff)
      else -1)"

definition binn_get_write_storage :: "int \<Rightarrow> int" where
  "binn_get_write_storage type =
     (if type \<in> {0xA6, 0xA7} then BINN_STORAGE_STRING
      else if type = BINN_BOOL then BINN_STORAGE_NOBYTES
      else binn_get_type_info type)"

datatype binn_family = BINN_FAMILY_NONE | BINN_FAMILY_NULL | BINN_FAMILY_INT | BINN_FAMILY_FLOAT
  | BINN_FAMILY_STRING | BINN_FAMILY_BLOB | BINN_FAMILY_BOOL | BINN_FAMILY_BINN

definition type_family :: "int \<Rightarrow> binn_family" where
  "type_family type =
     (if type \<in> {BINN_LIST, BINN_MAP, BINN_OBJECT} then BINN_FAMILY_BINN
      else if type \<in> {BINN_INT8, BINN_INT16, BINN_INT32, BINN_INT64, BINN_UINT8, BINN_UINT16, BINN_UINT32, BINN_UINT64}
        then BINN_FAMILY_INT
      else if type \<in> {BINN_FLOAT32, BINN_FLOAT64, 0xA6, 0xA7} then BINN_FAMILY_FLOAT
      else if type \<in> {BINN_STRING, 0xB001, 0xB005, 0xB002, 0xB003, 0xB004} then BINN_FAMILY_STRING
      else if type \<in> {BINN_BLOB, 0xD001, 0xD002, 0xD003, 0xD004} then BINN_FAMILY_BLOB
      else if type \<in> {0xA4, 0x83, 0xA2, 0xA3, 0xA1} then BINN_FAMILY_STRING
      else if type = BINN_BOOL then BINN_FAMILY_BOOL
      else if type = BINN_NULL then BINN_FAMILY_NULL
      else BINN_FAMILY_NONE)"

text \<open>An integer of a given type at an address, whose bytes are stored little-endian.\<close>

definition int_width :: "int \<Rightarrow> nat" where
  "int_width type =
     (if type \<in> {BINN_INT8, BINN_UINT8} then 1 else if type \<in> {BINN_INT16, BINN_UINT16} then 2
      else if type \<in> {BINN_INT32, BINN_UINT32} then 4 else 8)"

datatype int_sign = BINN_SIGNED_INT | BINN_UNSIGNED_INT | Not_an_int

definition int_type :: "int \<Rightarrow> int_sign" where
  "int_type type =
     (if type \<in> {BINN_INT8, BINN_INT16, BINN_INT32, BINN_INT64} then BINN_SIGNED_INT
      else if type \<in> {BINN_UINT8, BINN_UINT16, BINN_UINT32, BINN_UINT64} then BINN_UNSIGNED_INT
      else Not_an_int)"

definition read_int :: "int \<Rightarrow> bytes \<Rightarrow> int option" where
  "read_int type bs =
     (let n = int_width type; v = int (le_value (take n bs)) in
      if length bs < n then None
      else Some (if int_type type = BINN_SIGNED_INT \<and> v \<ge> 2 ^ (8 * n - 1) then v - 2 ^ (8 * n) else v))"


section \<open>Writing\<close>

record binn =
  b_type :: int
  pbuf :: bytes
  used_size :: nat
  b_count :: nat
  b_ptr :: nat
  b_size :: nat
  dirty :: bool

abbreviation (input) MAX_BINN_HEADER :: nat where "MAX_BINN_HEADER \<equiv> 9"
abbreviation (input) MIN_BINN_SIZE :: nat where "MIN_BINN_SIZE \<equiv> 3"
abbreviation (input) CHUNK_SIZE :: nat where "CHUNK_SIZE \<equiv> 256"
abbreviation (input) INT_MAX :: nat where "INT_MAX \<equiv> 0x7FFFFFFF"

text \<open>Creation with a buffer of its own; ok says whether the buffer could be allocated.\<close>

definition binn_create :: "bool \<Rightarrow> int \<Rightarrow> int \<Rightarrow> binn option" where
  "binn_create ok type size0 =
     (if type \<notin> {BINN_LIST, BINN_MAP, BINN_OBJECT} \<or> size0 < 0 then None
      else
        let size0 = (if nat size0 < MIN_BINN_SIZE then CHUNK_SIZE else nat size0) in
        if \<not> ok then None
        else Some \<lparr> b_type = type, pbuf = replicate size0 0, used_size = MAX_BINN_HEADER, b_count = 0,
                    b_ptr = 0, b_size = 0, dirty = True \<rparr>)"

definition binn_create_list :: "bool \<Rightarrow> binn option" where
  "binn_create_list ok = binn_create ok BINN_LIST 0"

definition binn_create_map :: "bool \<Rightarrow> binn option" where
  "binn_create_map ok = binn_create ok BINN_MAP 0"

definition binn_create_object :: "bool \<Rightarrow> binn option" where
  "binn_create_object ok = binn_create ok BINN_OBJECT 0"

text \<open>Doubling a zero size never ends and doubling past the largest int overflows.\<close>

function CalcAllocation :: "nat \<Rightarrow> nat \<Rightarrow> nat option" where
  "CalcAllocation needed_size alloc_size =
     (if alloc_size < needed_size
      then if alloc_size = 0 \<or> 2 * alloc_size > INT_MAX then None else CalcAllocation needed_size (2 * alloc_size)
      else Some alloc_size)"
  by pat_completeness auto

termination
  by (relation "measure (\<lambda>(n, a). n - a)") auto

declare CalcAllocation.simps [simp del]

definition CheckAllocation :: "bool \<Rightarrow> nat \<Rightarrow> binn \<Rightarrow> (bool \<times> binn) option" where
  "CheckAllocation ok add_size item =
     (if used_size item + add_size > INT_MAX then None
      else if used_size item + add_size > length (pbuf item)
      then do {
        alloc_size \<leftarrow> CalcAllocation (used_size item + add_size) (length (pbuf item));
        Some (if ok then (True, item \<lparr> pbuf := pbuf item @ replicate (alloc_size - length (pbuf item)) 0 \<rparr>)
              else (False, item))
      }
      else Some (True, item))"

definition compress_int :: "int \<Rightarrow> int \<Rightarrow> bytes \<Rightarrow> (int \<times> int) option" where
  "compress_int storage_type type psource =
     (if storage_type = BINN_STORAGE_BYTE then Some (storage_type, type)
      else do {
        v \<leftarrow> read_int type psource;
        let type2 = (if v < 0
          then (if v \<ge> - 0x80 then BINN_INT8 else if v \<ge> - 0x8000 then BINN_INT16
                else if v \<ge> - 0x80000000 then BINN_INT32 else 0)
          else (if v \<le> 0xFF then BINN_UINT8 else if v \<le> 0xFFFF then BINN_UINT16
                else if v \<le> 0xFFFFFFFF then BINN_UINT32 else 0));
        Some (if type2 \<noteq> 0 \<and> type2 \<noteq> type then (binn_get_write_storage type2, type2) else (storage_type, type))
      })"

definition strlen :: "bytes \<Rightarrow> nat option" where
  "strlen s = (if 0 \<in> set s then Some (length (takeWhile (\<lambda>b. b \<noteq> 0) s)) else None)"

definition strlen2 :: "bytes option \<Rightarrow> nat option" where
  "strlen2 s = (case s of None \<Rightarrow> Some 0 | Some t \<Rightarrow> strlen t)"

text \<open>The number of value bytes and the room to ask for; an inner None is a refusal.\<close>

definition value_size :: "int \<Rightarrow> bytes option \<Rightarrow> int \<Rightarrow> (nat \<times> nat) option option" where
  "value_size storage_type pvalue size0 =
     (if storage_type = BINN_STORAGE_NOBYTES then Some (Some (0, 0))
      else if storage_type = BINN_STORAGE_BYTE then Some (Some (1, 1))
      else if storage_type = BINN_STORAGE_WORD then Some (Some (2, 2))
      else if storage_type = BINN_STORAGE_DWORD then Some (Some (4, 4))
      else if storage_type = BINN_STORAGE_QWORD then Some (Some (8, 8))
      else if storage_type = BINN_STORAGE_BLOB then Some (if size0 < 0 then None else Some (nat size0, nat size0 + 4))
      else if storage_type = BINN_STORAGE_STRING then
        (if size0 < 0 then Some None
         else do {
           n \<leftarrow> (if size0 = 0 then strlen2 pvalue else Some (nat size0));
           Some (Some (n, n + 5))
         })
      else if storage_type = BINN_STORAGE_CONTAINER then Some (if size0 \<le> 0 then None else Some (nat size0, nat size0))
      else Some None)"

text \<open>A length or count: one byte up to 127, otherwise four bytes with the top bit set.\<close>

definition size_bytes :: "nat \<Rightarrow> bytes" where
  "size_bytes n = (if n > 127 then rev (le_bytes 4 (of_nat n OR 0x80000000 :: u32)) else [of_nat n])"

definition value_bytes :: "int \<Rightarrow> int \<Rightarrow> bytes \<Rightarrow> nat \<Rightarrow> bytes" where
  "value_bytes storage_type type pvalue n =
     (if storage_type = BINN_STORAGE_CONTAINER then take n pvalue
      else (if type > 255 then rev (le_bytes 2 (of_int type :: u16)) else [of_int type]) @
        (if storage_type = BINN_STORAGE_NOBYTES then []
         else if storage_type \<in> {BINN_STORAGE_BLOB, BINN_STORAGE_STRING}
         then size_bytes n @ take n pvalue @ (if storage_type = BINN_STORAGE_STRING then [0] else [])
         else rev (take n pvalue)))"

definition append_bytes :: "bytes \<Rightarrow> binn \<Rightarrow> binn option" where
  "append_bytes bs item =
     (if used_size item + length bs \<le> length (pbuf item)
      then Some (item \<lparr> pbuf := blit (pbuf item) (used_size item) bs, used_size := used_size item + length bs, dirty := True \<rparr>)
      else None)"

text \<open>The second half of AddValue: the value in the form chosen for it.\<close>

definition put_value :: "bool \<Rightarrow> int \<Rightarrow> int \<Rightarrow> bytes option \<Rightarrow> int \<Rightarrow> binn \<Rightarrow> (bool \<times> binn) option" where
  "put_value ok storage_type type pvalue size0 item = do {
     let src = (case pvalue of None \<Rightarrow> [] | Some bs \<Rightarrow> bs);
     sizes \<leftarrow> value_size storage_type pvalue size0;
     case sizes of
       None \<Rightarrow> Some (False, item)
     | Some (n, arg_size) \<Rightarrow> do {
         (room, item) \<leftarrow> CheckAllocation ok (arg_size + 2) item;
         if \<not> room then Some (False, item)
         else if length src < n then None
         else map_option (Pair True) (append_bytes (value_bytes storage_type type src n) item)
       }
   }"

definition AddValue :: "bool \<Rightarrow> int \<Rightarrow> bytes option \<Rightarrow> int \<Rightarrow> binn \<Rightarrow> (bool \<times> binn) option" where
  "AddValue ok type pvalue size0 item =
     (let storage_type = binn_get_type_info type in
      if pvalue = None \<and> \<not> (storage_type = BINN_STORAGE_NOBYTES \<or>
           storage_type \<in> {BINN_STORAGE_BLOB, BINN_STORAGE_STRING} \<and> size0 = 0)
      then Some (False, item)
      else if type_family type = BINN_FAMILY_INT then do {
        (storage_type, type) \<leftarrow> compress_int storage_type type (case pvalue of None \<Rightarrow> [] | Some bs \<Rightarrow> bs);
        put_value ok storage_type type pvalue size0 item
      }
      else put_value ok storage_type type pvalue size0 item)"

definition binn_list_add_raw :: "bool \<Rightarrow> int \<Rightarrow> bytes option \<Rightarrow> int \<Rightarrow> binn \<Rightarrow> (bool \<times> binn) option" where
  "binn_list_add_raw ok type pvalue size0 item =
     (if b_type item \<noteq> BINN_LIST then Some (False, item)
      else do {
        (added, item) \<leftarrow> AddValue ok type pvalue size0 item;
        Some (if added then (True, item \<lparr> b_count := b_count item + 1 \<rparr>) else (False, item))
      })"

definition GetWriteConvertedData :: "int \<Rightarrow> bytes option \<Rightarrow> int \<Rightarrow> int option option" where
  "GetWriteConvertedData type pvalue size0 =
     (if pvalue = None \<and> \<not> (type \<in> {BINN_NULL, BINN_TRUE, BINN_FALSE} \<or> type \<in> {BINN_STRING, BINN_BLOB} \<and> size0 = 0)
      then Some None
      else if type = BINN_BOOL then
        (case pvalue of
           Some bs \<Rightarrow> if length bs < 4 then None
             else Some (Some (if le_value (take 4 bs) = 0 then BINN_FALSE else BINN_TRUE))
         | None \<Rightarrow> None)
      else Some (Some type))"

definition binn_list_add :: "bool \<Rightarrow> int \<Rightarrow> bytes option \<Rightarrow> int \<Rightarrow> binn \<Rightarrow> (bool \<times> binn) option" where
  "binn_list_add ok type pvalue size0 item = do {
     converted \<leftarrow> GetWriteConvertedData type pvalue size0;
     case converted of None \<Rightarrow> Some (False, item) | Some type \<Rightarrow> binn_list_add_raw ok type pvalue size0 item
   }"

text \<open>The header ends where the values begin and is written backwards: count, size, type.\<close>

definition binn_save_header :: "binn \<Rightarrow> binn" where
  "binn_save_header item =
     (let size0 = used_size item - MAX_BINN_HEADER + 3 + (if b_count item > 127 then 3 else 0);
          size1 = (if size0 > 127 then size0 + 3 else size0);
          header = of_int (b_type item) # size_bytes size1 @ size_bytes (b_count item);
          p = MAX_BINN_HEADER - length header
      in item \<lparr> pbuf := blit (pbuf item) p header, b_ptr := p, b_size := size1, dirty := False \<rparr>)"

text \<open>The serialised container that binn_ptr and binn_size of a writable item name.\<close>

definition binn_ptr_item :: "binn \<Rightarrow> binn" where
  "binn_ptr_item item = (if dirty item then binn_save_header item else item)"

definition binn_serialised :: "binn \<Rightarrow> bytes" where
  "binn_serialised item = (let item = binn_ptr_item item in subarray (pbuf item) (b_ptr item) (b_size item))"


section \<open>Reading\<close>

definition rd :: "bytes \<Rightarrow> nat \<Rightarrow> u8 option" where
  "rd m p = (if p < length m then Some (m ! p) else None)"

definition rds :: "bytes \<Rightarrow> nat \<Rightarrow> nat \<Rightarrow> bytes option" where
  "rds m p n = (if p + n \<le> length m then Some (subarray m p n) else None)"

text \<open>A length or count at p, and where the bytes after it begin; the limit, where there is one,
  is the last address that may be read.\<close>

definition read_size :: "bytes \<Rightarrow> nat option \<Rightarrow> nat \<Rightarrow> (nat \<times> nat) option option" where
  "read_size m plimit p =
     (if plimit \<noteq> None \<and> p > the plimit then Some None
      else do {
        byte \<leftarrow> rd m p;
        if byte AND 0x80 \<noteq> 0 then
          (if plimit \<noteq> None \<and> p + 3 > the plimit then Some None
           else do {
             bs \<leftarrow> rds m p 4;
             Some (Some (le_value (rev bs) mod 2 ^ 31, p + 4))
           })
        else Some (Some (unat byte, p + 1))
      })"

definition AdvanceDataPos :: "bytes \<Rightarrow> nat \<Rightarrow> nat \<Rightarrow> nat option option" where
  "AdvanceDataPos m plimit p =
     (if p > plimit then Some None
      else do {
        byte \<leftarrow> rd m p;
        let storage_type = uint byte AND 0xE0;
        let p = p + 1 + (if byte AND 0x10 \<noteq> 0 then 1 else 0);
        after \<leftarrow>
          (if storage_type = BINN_STORAGE_NOBYTES then Some (Some p)
           else if storage_type = BINN_STORAGE_BYTE then Some (Some (p + 1))
           else if storage_type = BINN_STORAGE_WORD then Some (Some (p + 2))
           else if storage_type = BINN_STORAGE_DWORD then Some (Some (p + 4))
           else if storage_type = BINN_STORAGE_QWORD then Some (Some (p + 8))
           else if storage_type \<in> {BINN_STORAGE_BLOB, BINN_STORAGE_STRING} then
             map_option (map_option (\<lambda>(n, q). q + n + (if storage_type = BINN_STORAGE_STRING then 1 else 0)))
               (read_size m (Some plimit) p)
           else map_option (map_option (\<lambda>(n, q). p + n - 1)) (read_size m (Some plimit) p));
        Some (case after of None \<Rightarrow> None | Some q \<Rightarrow> if q > plimit then None else Some q)
      })"

text \<open>The header of a container: type, count, size and length of the header. A size that is not
  zero limits the reading and is kept.\<close>

definition IsValidBinnHeader :: "bytes \<Rightarrow> nat \<Rightarrow> nat \<Rightarrow> (int \<times> nat \<times> nat \<times> nat) option option" where
  "IsValidBinnHeader m pb psize = do {
     let plimit = (if psize > 0 then Some (pb + psize - 1) else None);
     byte \<leftarrow> rd m pb;
     if uint byte AND 0xE0 \<noteq> BINN_STORAGE_CONTAINER \<or> byte AND 0x10 \<noteq> 0 \<or>
        uint byte \<notin> {BINN_LIST, BINN_MAP, BINN_OBJECT} then Some None
     else do {
       sz \<leftarrow> read_size m plimit (pb + 1);
       case sz of None \<Rightarrow> Some None
       | Some (size0, p) \<Rightarrow> do {
           ct \<leftarrow> read_size m plimit p;
           case ct of None \<Rightarrow> Some None
           | Some (count0, p) \<Rightarrow>
               if size0 < MIN_BINN_SIZE then Some None
               else Some (Some (uint byte, count0, if psize = 0 then size0 else psize, p - pb))
         }
     }
   }"

text \<open>A value read from a container. Its address is in the buffer, or it is the value's own union.\<close>

datatype value_ptr = Null_value | In_buffer nat | In_union

record binn_value =
  v_type :: int
  v_ptr :: value_ptr
  v_size :: nat
  v_count :: nat
  v_union :: bytes

definition set_union :: "bytes \<Rightarrow> binn_value \<Rightarrow> binn_value" where
  "set_union bs v = v \<lparr> v_union := blit (v_union v) 0 bs, v_ptr := In_union \<rparr>"

definition get_storage :: "bytes \<Rightarrow> int \<Rightarrow> nat \<Rightarrow> nat \<Rightarrow> binn_value \<Rightarrow> binn_value option option" where
  "get_storage m storage_type p2 p v =
     (if storage_type = BINN_STORAGE_NOBYTES then Some (Some v)
      else if storage_type = BINN_STORAGE_BYTE then
        map_option (\<lambda>b. Some (v \<lparr> v_union := blit (v_union v) 0 [b], v_ptr := In_buffer p \<rparr>)) (rd m p)
      else if storage_type = BINN_STORAGE_WORD then map_option (\<lambda>bs. Some (set_union (rev bs) v)) (rds m p 2)
      else if storage_type = BINN_STORAGE_DWORD then map_option (\<lambda>bs. Some (set_union (rev bs) v)) (rds m p 4)
      else if storage_type = BINN_STORAGE_QWORD then map_option (\<lambda>bs. Some (set_union (rev bs) v)) (rds m p 8)
      else if storage_type \<in> {BINN_STORAGE_BLOB, BINN_STORAGE_STRING} then
        map_option (map_option (\<lambda>(n, q). v \<lparr> v_size := n, v_ptr := In_buffer q \<rparr>)) (read_size m None p)
      else map_option (map_option (\<lambda>(t, c, n, h). v \<lparr> v_ptr := In_buffer p2, v_count := c, v_size := n \<rparr>))
        (IsValidBinnHeader m p2 0))"

text \<open>The type in one byte or two, and where the data begin.\<close>

definition value_type :: "bytes \<Rightarrow> nat \<Rightarrow> u8 \<Rightarrow> (int \<times> nat) option" where
  "value_type m p byte =
     (if byte AND 0x10 \<noteq> 0 then map_option (\<lambda>b. (push_bit 8 (uint byte) OR uint b, p + 2)) (rd m (p + 1))
      else Some (uint byte, p + 1))"

definition convert_value :: "binn_value \<Rightarrow> binn_value" where
  "convert_value v =
     (if v_type v = BINN_TRUE then set_union [1, 0, 0, 0] v \<lparr> v_type := BINN_BOOL \<rparr>
      else if v_type v = BINN_FALSE then set_union [0, 0, 0, 0] v \<lparr> v_type := BINN_BOOL \<rparr>
      else v)"

definition GetValue :: "bytes \<Rightarrow> nat \<Rightarrow> binn_value option option" where
  "GetValue m p = do {
     byte \<leftarrow> rd m p;
     (data_type, q) \<leftarrow> value_type m p byte;
     r \<leftarrow> get_storage m (uint byte AND 0xE0) p q
       \<lparr> v_type = data_type, v_ptr = Null_value, v_size = 0, v_count = 0, v_union = replicate 8 0 \<rparr>;
     Some (map_option convert_value r)
   }"

text \<open>A pointer whose first word is the magic number is taken for a binn structure, so a raw buffer
  is read four bytes deep.\<close>

definition BINN_MAGIC :: nat where "BINN_MAGIC = 0x1F22B11F"

definition binn_get_ptr_type :: "bytes \<Rightarrow> nat \<Rightarrow> unit option" where
  "binn_get_ptr_type m p = do {
     bs \<leftarrow> rds m p 4;
     if le_value bs = BINN_MAGIC then None else Some ()
   }"

text \<open>The loop of the check, over the values of a list; the keys of maps and objects are skipped,
  and only where its bytes end matters of a map id.\<close>

definition read_map_id :: "bytes \<Rightarrow> nat \<Rightarrow> nat \<Rightarrow> nat option" where
  "read_map_id m plimit p = do {
     c \<leftarrow> rd m p;
     let extra_bytes = (if c AND 0x80 \<noteq> 0 then unat (drop_bit 5 (c AND 0x60)) + 1 else 0);
     if p + 1 + extra_bytes > plimit \<or> rds m (p + 1) extra_bytes \<noteq> None then Some (p + 1 + extra_bytes) else None
   }"

primrec valid_items :: "nat \<Rightarrow> bytes \<Rightarrow> int \<Rightarrow> nat \<Rightarrow> nat \<Rightarrow> nat \<Rightarrow> bool option" where
  "valid_items 0 m type base plimit p = Some True"
| "valid_items (Suc n) m type base plimit p = do {
     p \<leftarrow> (if type = BINN_OBJECT then map_option (\<lambda>len. p + 1 + unat len) (rd m p)
           else if type = BINN_MAP then read_map_id m plimit p
           else Some p);
     after \<leftarrow> AdvanceDataPos m plimit p;
     case after of None \<Rightarrow> Some False
     | Some q \<Rightarrow> if q < base then Some False else valid_items n m type base plimit q
   }"

definition binn_is_valid :: "bytes \<Rightarrow> nat \<Rightarrow> (int \<times> nat \<times> nat) option option" where
  "binn_is_valid m p = do {
     header \<leftarrow> IsValidBinnHeader m p 0;
     case header of None \<Rightarrow> Some None
     | Some (type, count0, size0, header_size) \<Rightarrow> do {
         ok \<leftarrow> valid_items count0 m type p (p + size0) (p + header_size);
         Some (if ok then Some (type, count0, size0) else None)
       }
   }"

definition binn_load :: "bytes \<Rightarrow> nat \<Rightarrow> binn_value option option" where
  "binn_load m p = do {
     binn_get_ptr_type m p;
     r \<leftarrow> binn_is_valid m p;
     Some (map_option (\<lambda>(type, count0, size0).
       \<lparr> v_type = type, v_ptr = In_buffer p, v_size = size0, v_count = count0, v_union = replicate 8 0 \<rparr>) r)
   }"

record binn_iter =
  pnext :: "nat option"
  it_plimit :: nat
  it_type :: int
  it_count :: nat
  it_current :: nat

definition binn_iter_init :: "bytes \<Rightarrow> nat \<Rightarrow> int \<Rightarrow> binn_iter option" where
  "binn_iter_init m p expected_type = do {
     header \<leftarrow> IsValidBinnHeader m p 0;
     let zero = \<lparr> pnext = None, it_plimit = 0, it_type = 0, it_count = 0, it_current = 0 \<rparr>;
     Some (case header of None \<Rightarrow> zero
       | Some (type, count0, size0, header_size) \<Rightarrow>
           if type \<noteq> expected_type then zero
           else \<lparr> pnext = Some (p + header_size), it_plimit = p + size0 - 1, it_type = type,
                  it_count = count0, it_current = 0 \<rparr>)
   }"

definition binn_list_next :: "bytes \<Rightarrow> binn_iter \<Rightarrow> (binn_value option \<times> binn_iter) option" where
  "binn_list_next m it =
     (case pnext it of
        None \<Rightarrow> Some (None, it)
      | Some pnow \<Rightarrow>
          if pnow > it_plimit it \<or> it_current it > it_count it \<or> it_type it \<noteq> BINN_LIST then Some (None, it)
          else
            let it = it \<lparr> it_current := it_current it + 1 \<rparr> in
            if it_current it > it_count it then Some (None, it)
            else do {
              after \<leftarrow> AdvanceDataPos m (it_plimit it) pnow;
              let it = it \<lparr> pnext := after \<rparr>;
              if after \<noteq> None \<and> the after < pnow then Some (None, it)
              else do {
                v \<leftarrow> GetValue m pnow;
                Some (v, it)
              }
            })"

text \<open>The loop of binn_list_foreach: every call that yields a value advances the counter, so one call
  more than the count always reaches the end.\<close>

primrec list_values :: "nat \<Rightarrow> bytes \<Rightarrow> binn_iter \<Rightarrow> binn_value list option" where
  "list_values 0 m it = None"
| "list_values (Suc n) m it = do {
     (v, it) \<leftarrow> binn_list_next m it;
     case v of None \<Rightarrow> Some [] | Some v \<Rightarrow> map_option ((#) v) (list_values n m it)
   }"

definition binn_list_foreach :: "bytes \<Rightarrow> nat \<Rightarrow> binn_value list option" where
  "binn_list_foreach m p = do {
     it \<leftarrow> binn_iter_init m p BINN_LIST;
     list_values (it_count it + 1) m it
   }"

definition mdv_binn_list_length :: "bytes \<Rightarrow> nat \<Rightarrow> nat option" where
  "mdv_binn_list_length m p = map_option length (binn_list_foreach m p)"

end
