(* ===== verification/Mdv_Binn_List.thy ===== *)
theory Mdv_Binn_List
  imports Mdv_Binn
begin

text \<open>
  What a reader finds in a container that the writer built: the lengths, the
  values with the integers in the shortest form that holds them, and the list as
  a whole, wherever in memory the serialised bytes have been put.
\<close>

section \<open>Bytes in memory\<close>

definition holds_at :: "bytes \<Rightarrow> nat \<Rightarrow> bytes \<Rightarrow> bool" where
  "holds_at m p bs \<longleftrightarrow> p + length bs \<le> length m \<and> subarray m p (length bs) = bs"

lemma holds_at_Nil [simp]: "holds_at m p [] \<longleftrightarrow> p \<le> length m"
  by (simp add: holds_at_def subarray_def)

lemma holds_at_append [simp]:
  "holds_at m p (xs @ ys) \<longleftrightarrow> holds_at m p xs \<and> holds_at m (p + length xs) ys"
proof -
  have split: "subarray m p (length xs + length ys) = subarray m p (length xs) @ subarray m (p + length xs) (length ys)"
    by (simp add: subarray_def take_add add.commute)
  show ?thesis
  proof (cases "p + (length xs + length ys) \<le> length m")
    case True
    then have "length (subarray m p (length xs)) = length xs" by simp
    with True show ?thesis by (auto simp: holds_at_def split)
  qed (auto simp: holds_at_def)
qed

lemma holds_at_single: "holds_at m p [b] \<longleftrightarrow> rd m p = Some b"
  by (auto simp: holds_at_def rd_def subarray_def take_Suc hd_drop_conv_nth take_eq_Nil split: if_splits)

lemma holds_at_Cons [simp]: "holds_at m p (b # bs) \<longleftrightarrow> rd m p = Some b \<and> holds_at m (p + 1) bs"
  using holds_at_append [of m p "[b]" bs] by (simp add: holds_at_single)

lemma rds_holds: "holds_at m p bs \<Longrightarrow> n = length bs \<Longrightarrow> rds m p n = Some bs"
  by (simp add: holds_at_def rds_def)

lemma holds_at_mid: "holds_at (pre @ bs @ post) (length pre) bs"
  by (simp add: holds_at_def subarray_def)

lemma holds_at_rds: "rds m p n = Some bs \<Longrightarrow> holds_at m p bs"
  by (auto simp: rds_def holds_at_def split: if_splits)


section \<open>Lengths\<close>

lemma length_size_bytes: "length (size_bytes n) = (if n > 127 then 4 else 1)"
  by (simp add: size_bytes_def)

lemma le_bytes_top: "le_bytes 4 (w :: u32) = [ucast w, ucast (drop_bit 8 w), ucast (drop_bit 16 w), ucast (drop_bit 24 w)]"
  by (simp add: numeral_eq_Suc)

lemma marked_size:
  assumes "n < 2 ^ 31"
  shows "unat (of_nat n OR 0x80000000 :: u32) mod 2 ^ 31 = n"
proof -
  have "unat (of_nat n :: u32) = n" using assms by (simp add: unsigned_of_nat take_bit_nat_eq_self)
  then have "unat (of_nat n OR 0x80000000 :: u32) = n OR 2 ^ 31"
    by (simp add: unsigned_or_eq)
  moreover have "(n OR 2 ^ 31) mod 2 ^ 31 = n mod 2 ^ 31 OR 2 ^ 31 mod 2 ^ 31"
    using take_bit_or [of 31 n "2 ^ 31"] by (simp only: take_bit_eq_mod)
  ultimately show ?thesis using assms by simp
qed

lemma top_bit_byte: "b AND 0x80 = (0 :: u8) \<longleftrightarrow> \<not> bit b 7"
  using and_exp_eq_0_iff_not_bit [of b 7] by simp

lemma low_byte: "n < 128 \<Longrightarrow> \<not> bit (of_nat n :: u8) 7"
proof -
  assume "n < 128"
  then have "\<not> bit n 7" by (simp add: bit_iff_odd)
  then show ?thesis by (simp add: bit_of_nat_iff)
qed

lemma read_size_bytes:
  assumes "n < 2 ^ 31" "holds_at m p (size_bytes n)" "\<And>l. lim = Some l \<Longrightarrow> p + length (size_bytes n) - 1 \<le> l"
  shows "read_size m lim p = Some (Some (n, p + length (size_bytes n)))"
proof (cases "n > 127")
  case True
  let ?w = "of_nat n OR 0x80000000 :: u32"
  have bs: "size_bytes n = rev (le_bytes 4 ?w)" using True by (simp add: size_bytes_def)
  have "rd m p = Some (ucast (drop_bit 24 ?w))"
    using assms(2) by (simp add: bs le_bytes_top)
  moreover have "ucast (drop_bit 24 ?w) AND 0x80 \<noteq> (0 :: u8)"
    using top_bit_byte [of "ucast (drop_bit 24 ?w)"]
    by (simp add: bit_simps)
  moreover have "rds m p 4 = Some (rev (le_bytes 4 ?w))"
    using assms(2) by (intro rds_holds) (simp_all add: bs)
  moreover have "le_value (le_bytes 4 ?w) mod 2 ^ 31 = n"
    using assms(1) by (simp only: le_value_u32 marked_size)
  ultimately show ?thesis
    using assms(3) by (auto simp: read_size_def bs)
next
  case False
  then have "rd m p = Some (of_nat n)" using assms(2) by (simp add: size_bytes_def holds_at_single)
  moreover have "of_nat n AND 0x80 = (0 :: u8)"
    using top_bit_byte [of "of_nat n"] False low_byte [of n] by simp
  moreover have "unat (of_nat n :: u8) = n" using False by (simp add: unsigned_of_nat take_bit_nat_eq_self)
  ultimately show ?thesis
    using assms(3) False by (auto simp: read_size_def size_bytes_def)
qed


section \<open>Values\<close>

datatype binn_item = Item_null | Item_bool bool | Item_int int | Item_float bytes | Item_double bytes
  | Item_blob bytes | Item_string bytes | Item_container bytes

text \<open>The bytes at the address of a value, and what they mean for the type of the value; a string
  is followed by its terminator.\<close>

definition value_mem :: "bytes \<Rightarrow> binn_value \<Rightarrow> nat \<Rightarrow> bytes option" where
  "value_mem m v n = (case v_ptr v of Null_value \<Rightarrow> None | In_buffer q \<Rightarrow> rds m q n | In_union \<Rightarrow> rds (v_union v) 0 n)"

definition decode :: "bytes \<Rightarrow> binn_value \<Rightarrow> binn_item option" where
  "decode m v =
     (if type_family (v_type v) = BINN_FAMILY_INT
      then map_option Item_int (Option.bind (value_mem m v (int_width (v_type v))) (read_int (v_type v)))
      else if v_type v = BINN_NULL then Some Item_null
      else if v_type v = BINN_BOOL then map_option (\<lambda>bs. Item_bool (le_value bs \<noteq> 0)) (value_mem m v 4)
      else if v_type v = BINN_FLOAT32 then map_option Item_float (value_mem m v 4)
      else if v_type v = BINN_FLOAT64 then map_option Item_double (value_mem m v 8)
      else if v_type v = BINN_BLOB then map_option Item_blob (value_mem m v (v_size v))
      else if v_type v = BINN_STRING then Option.bind (value_mem m v (v_size v + 1))
        (\<lambda>bs. if last bs = 0 then Some (Item_string (butlast bs)) else None)
      else if type_family (v_type v) = BINN_FAMILY_BINN then map_option Item_container (value_mem m v (v_size v))
      else None)"

text \<open>Bytes that are one value of a container, wherever they stand.\<close>

definition reads_as :: "bytes \<Rightarrow> binn_item \<Rightarrow> bool" where
  "reads_as bs i \<longleftrightarrow> bs \<noteq> [] \<and> (\<forall>m p. holds_at m p bs \<longrightarrow>
     (\<forall>plimit. p + length bs \<le> plimit + 1 \<longrightarrow>
        AdvanceDataPos m plimit p = Some (if p + length bs \<le> plimit then Some (p + length bs) else None)) \<and>
     (\<exists>v. GetValue m p = Some (Some v) \<and> decode m v = Some i))"

lemma le_value_take: "le_value (take n bs) = le_value bs mod 256 ^ n"
proof (induction bs arbitrary: n)
  case (Cons b bs)
  show ?case
  proof (cases n)
    case (Suc k)
    have "unat b < 256" by (rule unat_bounds)
    then show ?thesis
      by (simp add: Suc Cons.IH mod_mult2_eq [of _ 256 "256 ^ k"])
  qed simp
qed simp

lemma le_value_less: "le_value bs < 256 ^ length bs"
proof (induction bs)
  case (Cons b bs)
  have "unat b < 256" by (rule unat_bounds)
  with Cons show ?case by simp
qed simp

definition int_types :: "int set" where
  "int_types = {BINN_INT8, BINN_INT16, BINN_INT32, BINN_INT64, BINN_UINT8, BINN_UINT16, BINN_UINT32, BINN_UINT64}"

lemma type_family_int: "type_family t = BINN_FAMILY_INT \<longleftrightarrow> t \<in> int_types"
  by (auto simp: type_family_def int_types_def)

definition in_range :: "int \<Rightarrow> int \<Rightarrow> bool" where
  "in_range t v \<longleftrightarrow> (if int_type t = BINN_SIGNED_INT
     then - (2 ^ (8 * int_width t - 1)) \<le> v \<and> v < 2 ^ (8 * int_width t - 1)
     else 0 \<le> v \<and> v < 2 ^ (8 * int_width t))"

lemma read_int_mod:
  assumes "read_int t bs = Some v"
  shows "v mod 256 ^ int_width t = int (le_value bs) mod 256 ^ int_width t" "int_width t \<le> length bs"
  using assms by (auto simp: read_int_def le_value_take zmod_int power_mult Let_def split: if_splits)

lemma mod_unique:
  assumes "v mod M = w mod (M :: int)" "lo \<le> v" "v < lo + M" "lo \<le> w" "w < lo + M"
  shows "v = w"
proof -
  have "(v - lo) mod M = (w - lo) mod M" using assms(1) by (metis mod_diff_left_eq)
  with assms(2-5) show ?thesis by simp
qed

lemma read_int_iff:
  "read_int t bs = Some v \<longleftrightarrow> int_width t \<le> length bs \<and> in_range t v \<and>
     v mod 256 ^ int_width t = int (le_value bs) mod 256 ^ int_width t"
proof -
  define n where "n = int_width t"
  define H :: int where "H = 2 ^ (8 * n - 1)"
  define L where "L = int (le_value (take n bs))"
  have "0 < n" by (simp add: n_def int_width_def)
  then have M: "(2 :: int) ^ (8 * n) = 2 * H" by (simp add: H_def flip: power_Suc)
  have pow: "(256 :: int) ^ n = 2 * H" by (simp add: power_mult flip: M)
  have Lm: "L = int (le_value bs) mod (2 * H)"
    by (simp add: L_def le_value_take zmod_int pow [symmetric])
  have H: "0 < H" by (simp add: H_def)
  then have Lb: "0 \<le> L" "L < 2 * H" by (simp_all add: Lm)
  have read: "read_int t bs = (if length bs < n then None
      else Some (if int_type t = BINN_SIGNED_INT \<and> L \<ge> H then L - 2 * H else L))"
    unfolding read_int_def Let_def n_def [symmetric] L_def [symmetric] H_def [symmetric] M by (rule refl)
  have range: "in_range t v \<longleftrightarrow> (if int_type t = BINN_SIGNED_INT then - H \<le> v \<and> v < H else 0 \<le> v \<and> v < 2 * H)" for v
    unfolding in_range_def n_def [symmetric] H_def [symmetric] M by (rule refl)
  let ?f = "if int_type t = BINN_SIGNED_INT \<and> L \<ge> H then L - 2 * H else L"
  have f: "in_range t ?f" "?f mod (2 * H) = L" using Lb by (auto simp: range mod_diff_right_eq)
  have "v = ?f" if "in_range t v" "v mod (2 * H) = L"
    using f that mod_unique [of v "2 * H" ?f "if int_type t = BINN_SIGNED_INT then - H else 0"]
    by (auto simp: range split: if_splits)
  with f show ?thesis unfolding read by (auto simp: n_def [symmetric] pow Lm)
qed

text \<open>The shorter form of an integer is read as the same integer.\<close>

lemma read_int_narrow:
  assumes "read_int t bs = Some v" "int_width t' \<le> int_width t" "in_range t' v"
  shows "read_int t' bs = Some v"
proof -
  have "(256 :: int) ^ int_width t' dvd 256 ^ int_width t" by (rule le_imp_power_dvd [OF assms(2)])
  then have "x mod 256 ^ int_width t' = x mod 256 ^ int_width t mod 256 ^ int_width t'" for x :: int
    by (simp add: mod_mod_cancel)
  with assms show ?thesis unfolding read_int_iff by (metis order.trans)
qed

lemma compress_int_same:
  assumes "t \<in> int_types" "compress_int (binn_get_type_info t) t src = Some (st, t')" "read_int t src = Some v"
  shows "t' \<in> int_types \<and> st = binn_get_type_info t' \<and> read_int t' src = Some v"
proof (cases "t' = t")
  case True
  with assms show ?thesis
    by (auto simp: compress_int_def Let_def split: if_splits)
next
  case False
  let ?t = "if v < 0
          then (if v \<ge> - 0x80 then BINN_INT8 else if v \<ge> - 0x8000 then BINN_INT16
                else if v \<ge> - 0x80000000 then BINN_INT32 else 0)
          else (if v \<le> 0xFF then BINN_UINT8 else if v \<le> 0xFFFF then BINN_UINT16
                else if v \<le> 0xFFFFFFFF then BINN_UINT32 else 0)"
  have t': "t' = ?t" "?t \<noteq> 0" "st = binn_get_write_storage t'"
    using assms(2,3) False by (auto simp: compress_int_def simp del: if_cancel split: if_splits)
  have shape: "t' \<in> {BINN_INT8, BINN_INT16, BINN_INT32, BINN_UINT8, BINN_UINT16, BINN_UINT32} \<and> in_range t' v"
    using t'(2) unfolding t'(1) by (auto simp: in_range_def int_width_def int_type_def split: if_splits)
  then have "t' \<in> int_types" "st = binn_get_type_info t'"
    using t'(3) by (auto simp: int_types_def binn_get_write_storage_def)
  moreover have "int_width t' \<le> int_width t"
  proof -
    have "in_range t v" using assms(3) by (simp add: read_int_iff)
    with assms(1) show ?thesis
      unfolding t'(1) int_types_def
      by (elim insertE emptyE) (simp_all add: in_range_def int_width_def int_type_def)
  qed
  ultimately show ?thesis
    using assms(3) shape read_int_narrow by blast
qed


lemma blit_prefix: "n = length bs \<Longrightarrow> n \<le> length u \<Longrightarrow> rds (blit u 0 bs) 0 n = Some bs"
  by (simp add: rds_def blit_def subarray_def)

lemma reads_asI:
  assumes "bs \<noteq> []"
    and "\<And>m p plimit. holds_at m p bs \<Longrightarrow> p + length bs \<le> plimit + 1 \<Longrightarrow>
      AdvanceDataPos m plimit p = Some (if p + length bs \<le> plimit then Some (p + length bs) else None)"
    and "\<And>m p. holds_at m p bs \<Longrightarrow> \<exists>v. GetValue m p = Some (Some v) \<and> decode m v = Some i"
  shows "reads_as bs i"
  using assms by (auto simp: reads_as_def)

lemma decode_int:
  assumes "v_type v \<in> int_types" "value_mem m v (int_width (v_type v)) = Some bs" "read_int (v_type v) bs = Some i"
  shows "decode m v = Some (Item_int i)"
  using assms by (simp add: decode_def type_family_int)

lemma reads_int:
  assumes "t \<in> int_types" "length bs = int_width t" "read_int t bs = Some i"
  shows "reads_as (of_int t # rev bs) (Item_int i)"
proof (rule reads_asI)
  fix m p assume at: "holds_at m p (of_int t # rev bs)"
  then have rd: "rd m p = Some (of_int t)" and rest: "rds m (p + 1) (int_width t) = Some (rev bs)"
    using assms(2) by (auto intro: rds_holds)
  show "AdvanceDataPos m plimit p = Some (if p + length (of_int t # rev bs) \<le> plimit then Some (p + length (of_int t # rev bs)) else None)"
    if "p + length (of_int t # rev bs) \<le> plimit + 1" for plimit
    using assms(1,2) rd that unfolding int_types_def
    by (elim insertE emptyE) (auto simp: AdvanceDataPos_def int_width_def)
  show "\<exists>v. GetValue m p = Some (Some v) \<and> decode m v = Some (Item_int i)"
  proof (cases "int_width t = 1")
    case True
    then obtain b where b: "bs = [b]" using assms(2) by (auto simp: length_Suc_conv)
    have "rd m (p + 1) = Some b" using at by (simp add: b holds_at_single)
    then have "GetValue m p = Some (Some \<lparr> v_type = t, v_ptr = In_buffer (p + 1), v_size = 0, v_count = 0, v_union = blit (replicate 8 0) 0 [b] \<rparr>)"
      using assms(1) True rd unfolding int_types_def
      by (elim insertE emptyE) (auto simp: GetValue_def value_type_def convert_value_def get_storage_def int_width_def)
    then show ?thesis
      using assms True rest by (auto simp: value_mem_def b intro!: decode_int)
  next
    case False
    then have "GetValue m p = Some (Some \<lparr> v_type = t, v_ptr = In_union, v_size = 0, v_count = 0, v_union = blit (replicate 8 0) 0 bs \<rparr>)"
      using assms(1) rd rest unfolding int_types_def
      by (elim insertE emptyE) (auto simp: GetValue_def value_type_def convert_value_def get_storage_def int_width_def set_union_def)
    moreover have "length bs \<le> 8" using assms(2) by (simp add: int_width_def)
    then have "rds (blit (replicate 8 0) 0 bs) 0 (int_width t) = Some bs"
      using assms(2) by (intro blit_prefix) simp_all
    ultimately show ?thesis
      using assms by (auto simp: value_mem_def intro!: decode_int)
  qed
qed simp


lemma reads_null: "reads_as [0] Item_null"
  by (rule reads_asI) (auto simp: AdvanceDataPos_def GetValue_def value_type_def convert_value_def get_storage_def decode_def type_family_def)

lemma reads_bool: "reads_as [if b then 1 else 2] (Item_bool b)"
proof (rule reads_asI)
  fix m p assume "holds_at m p [if b then 1 else 2]"
  then have rd: "rd m p = Some (if b then 1 else 2)" by (simp add: holds_at_single)
  have union: "rds (blit (replicate 8 0) 0 [if b then 1 else 0, 0, 0, 0]) 0 4 = Some [if b then 1 else 0, 0, 0, 0 :: u8]"
    by (rule blit_prefix) simp_all
  show "\<exists>v. GetValue m p = Some (Some v) \<and> decode m v = Some (Item_bool b)"
    using rd union by (cases b) (simp_all add: GetValue_def value_type_def convert_value_def get_storage_def decode_def type_family_def set_union_def value_mem_def)
  show "AdvanceDataPos m plimit p = Some (if p + length [if b then 1 else 2 :: u8] \<le> plimit
      then Some (p + length [if b then 1 else 2 :: u8]) else None)"
    if "p + length [if b then 1 else 2 :: u8] \<le> plimit + 1" for plimit
    using rd that by (cases b) (auto simp: AdvanceDataPos_def)
qed simp

lemma reads_float:
  assumes "length bs = 4"
  shows "reads_as (0x62 # rev bs) (Item_float bs)"
proof (rule reads_asI)
  fix m p assume at: "holds_at m p (0x62 # rev bs)"
  then have "rd m p = Some 0x62" "rds m (p + 1) 4 = Some (rev bs)"
    using assms by (auto intro: rds_holds)
  moreover have "rds (blit (replicate 8 0) 0 bs) 0 4 = Some bs"
    by (rule blit_prefix) (simp_all add: assms)
  ultimately show "\<exists>v. GetValue m p = Some (Some v) \<and> decode m v = Some (Item_float bs)"
    by (auto simp: GetValue_def value_type_def convert_value_def get_storage_def set_union_def decode_def type_family_def value_mem_def)
qed (use assms in \<open>auto simp: AdvanceDataPos_def\<close>)

lemma reads_double:
  assumes "length bs = 8"
  shows "reads_as (0x82 # rev bs) (Item_double bs)"
proof (rule reads_asI)
  fix m p assume at: "holds_at m p (0x82 # rev bs)"
  then have "rd m p = Some 0x82" "rds m (p + 1) 8 = Some (rev bs)"
    using assms by (auto intro: rds_holds)
  moreover have "rds (blit (replicate 8 0) 0 bs) 0 8 = Some bs"
    by (rule blit_prefix) (simp_all add: assms)
  ultimately show "\<exists>v. GetValue m p = Some (Some v) \<and> decode m v = Some (Item_double bs)"
    by (auto simp: GetValue_def value_type_def convert_value_def get_storage_def set_union_def decode_def type_family_def value_mem_def)
qed (use assms in \<open>auto simp: AdvanceDataPos_def\<close>)

text \<open>Blobs and strings carry their length; a string has one byte more.\<close>

lemma reads_sized:
  assumes "length bs < 2 ^ 31" "(t, end_bytes, i) \<in> {(0xC0, [], Item_blob bs), (0xA0, [0], Item_string bs)}"
  shows "reads_as (t # size_bytes (length bs) @ bs @ end_bytes) i"
proof (rule reads_asI)
  fix m p
  let ?sz = "size_bytes (length bs)"
  assume at: "holds_at m p (t # ?sz @ bs @ end_bytes)"
  then have rd: "rd m p = Some t" and sz: "holds_at m (Suc p) ?sz" and data: "holds_at m (Suc p + length ?sz) bs"
    by auto
  note read = read_size_bytes [OF assms(1) sz]
  show "AdvanceDataPos m plimit p = Some (if p + length (t # ?sz @ bs @ end_bytes) \<le> plimit
      then Some (p + length (t # ?sz @ bs @ end_bytes)) else None)"
    if lim: "p + length (t # ?sz @ bs @ end_bytes) \<le> plimit + 1" for plimit
  proof -
    have "Suc p + length ?sz - 1 \<le> plimit" "p \<le> plimit" using lim by auto
    then have "read_size m (Some plimit) (Suc p) = Some (Some (length bs, Suc p + length ?sz))"
      using read [of "Some plimit"] by simp
    with rd assms(2) \<open>p \<le> plimit\<close> show ?thesis
      by (auto simp: AdvanceDataPos_def)
  qed
  have "rds m (Suc p + length ?sz) (length bs) = Some bs" using data by (rule rds_holds) simp
  moreover have "read_size m None (Suc p) = Some (Some (length bs, Suc p + length ?sz))" using read [of None] by simp
  moreover have "rds m (Suc p + length ?sz) (length (bs @ end_bytes)) = Some (bs @ end_bytes)"
    using at by (intro rds_holds) (simp_all add: add.assoc)
  ultimately have "GetValue m p = Some (Some \<lparr> v_type = uint t, v_ptr = In_buffer (Suc p + length ?sz), v_size = length bs,
      v_count = 0, v_union = replicate 8 0 \<rparr>)" "rds m (Suc p + length ?sz) (length bs) = Some bs"
    "rds m (Suc p + length ?sz) (length (bs @ end_bytes)) = Some (bs @ end_bytes)"
    using rd assms(2) by (elim insertE emptyE; simp add: GetValue_def value_type_def convert_value_def get_storage_def)+
  then show "\<exists>v. GetValue m p = Some (Some v) \<and> decode m v = Some i"
    using assms(2) by (elim insertE emptyE; simp add: decode_def type_family_def value_mem_def)
qed simp


section \<open>Containers\<close>

text \<open>The header in front of the values.\<close>

definition container_size :: "nat \<Rightarrow> bytes \<Rightarrow> nat" where
  "container_size c body =
     (let n = length body + 3 + (if c > 127 then 3 else 0) in if n > 127 then n + 3 else n)"

definition container :: "int \<Rightarrow> nat \<Rightarrow> bytes \<Rightarrow> bytes" where
  "container t c body = of_int t # size_bytes (container_size c body) @ size_bytes c @ body"

definition header_size :: "nat \<Rightarrow> bytes \<Rightarrow> nat" where
  "header_size c body = 1 + length (size_bytes (container_size c body)) + length (size_bytes c)"

lemma length_container: "length (container t c body) = container_size c body"
  by (simp add: container_def container_size_def length_size_bytes Let_def)

lemma container_drop: "container t c body = take (header_size c body) (container t c body) @ body"
  by (simp add: container_def header_size_def)

lemma container_size_ge: "3 \<le> container_size c body" "header_size c body \<le> container_size c body"
  "container_size c body = header_size c body + length body"
  by (auto simp: container_size_def header_size_def length_size_bytes Let_def)

abbreviation (input) container_type :: "int \<Rightarrow> bool" where
  "container_type t \<equiv> t \<in> {BINN_LIST, BINN_MAP, BINN_OBJECT}"

lemma header_run:
  assumes "container_type t" "holds_at m p (container t c body)" "container_size c body < 2 ^ 31" "c < 2 ^ 31"
  shows "IsValidBinnHeader m p 0 = Some (Some (t, c, container_size c body, header_size c body))"
proof -
  let ?sz = "size_bytes (container_size c body)"
  have rd: "rd m p = Some (of_int t)" and sz: "holds_at m (Suc p) ?sz"
    and ct: "holds_at m (Suc p + length ?sz) (size_bytes c)"
    using assms(2) by (auto simp: container_def)
  have "read_size m None (Suc p) = Some (Some (container_size c body, Suc p + length ?sz))"
    by (rule read_size_bytes [OF assms(3) sz]) simp
  moreover have "read_size m None (Suc p + length ?sz) = Some (Some (c, Suc p + length ?sz + length (size_bytes c)))"
    by (rule read_size_bytes [OF assms(4) ct]) simp
  ultimately show ?thesis
    using rd assms(1) container_size_ge(1) [of c body]
    by (auto simp: IsValidBinnHeader_def header_size_def)
qed

lemma reads_container:
  assumes "container_type t" "container_size c body < 2 ^ 31" "c < 2 ^ 31"
  shows "reads_as (container t c body) (Item_container (container t c body))"
proof (rule reads_asI)
  fix m p
  let ?bs = "container t c body" and ?sz = "size_bytes (container_size c body)"
  assume at: "holds_at m p ?bs"
  then have rd: "rd m p = Some (of_int t)" and sz: "holds_at m (Suc p) ?sz"
    by (auto simp: container_def)
  show "AdvanceDataPos m plimit p = Some (if p + length ?bs \<le> plimit then Some (p + length ?bs) else None)"
    if lim: "p + length ?bs \<le> plimit + 1" for plimit
  proof -
    have "header_size c body \<le> length ?bs" by (simp add: length_container container_size_ge)
    then have "Suc p + length ?sz - 1 \<le> plimit" "p \<le> plimit"
      using lim by (auto simp: header_size_def length_size_bytes split: if_splits)
    then have "read_size m (Some plimit) (Suc p) = Some (Some (container_size c body, Suc p + length ?sz))"
      using read_size_bytes [OF assms(2) sz, of "Some plimit"] by simp
    with rd assms(1) \<open>p \<le> plimit\<close> show ?thesis
      by (auto simp: AdvanceDataPos_def length_container)
  qed
  have "rds m p (container_size c body) = Some ?bs"
    using at by (rule rds_holds) (simp add: length_container)
  moreover have "GetValue m p = Some (Some \<lparr> v_type = t, v_ptr = In_buffer p, v_size = container_size c body, v_count = c,
      v_union = replicate 8 0 \<rparr>)"
    using assms(1) rd header_run [OF assms(1) at assms(2,3)]
    by (elim insertE emptyE; simp add: GetValue_def value_type_def convert_value_def get_storage_def)
  ultimately show "\<exists>v. GetValue m p = Some (Some v) \<and> decode m v = Some (Item_container ?bs)"
    using assms(1) by (elim insertE emptyE; simp add: decode_def type_family_def value_mem_def)
qed (simp add: container_def)

end
