(* ===== verification/Mdv_Binn_Write.thy ===== *)
theory Mdv_Binn_Write
  imports Mdv_Binn_List
begin

text \<open>
  Building a list with the functions of binn.h and reading it back: what each
  call appends, and that a serialised list yields the values it was built from.
\<close>

section \<open>Adding a value\<close>

datatype binn_arg = Arg_null | Arg_bool u32 | Arg_int8 u8 | Arg_int16 u16 | Arg_int32 u32 | Arg_int64 u64
  | Arg_uint8 u8 | Arg_uint16 u16 | Arg_uint32 u32 | Arg_uint64 u64 | Arg_float u32 | Arg_double u64
  | Arg_str bytes | Arg_blob "bytes option" | Arg_list bytes | Arg_map bytes | Arg_object bytes

text \<open>The type, address and size that each function of binn.h passes on.\<close>

fun arg_call :: "binn_arg \<Rightarrow> int \<times> bytes option \<times> int" where
  "arg_call Arg_null = (BINN_NULL, None, 0)"
| "arg_call (Arg_bool w) = (BINN_BOOL, Some (le_bytes 4 w), 0)"
| "arg_call (Arg_int8 w) = (BINN_INT8, Some (le_bytes 1 w), 0)"
| "arg_call (Arg_int16 w) = (BINN_INT16, Some (le_bytes 2 w), 0)"
| "arg_call (Arg_int32 w) = (BINN_INT32, Some (le_bytes 4 w), 0)"
| "arg_call (Arg_int64 w) = (BINN_INT64, Some (le_bytes 8 w), 0)"
| "arg_call (Arg_uint8 w) = (BINN_UINT8, Some (le_bytes 1 w), 0)"
| "arg_call (Arg_uint16 w) = (BINN_UINT16, Some (le_bytes 2 w), 0)"
| "arg_call (Arg_uint32 w) = (BINN_UINT32, Some (le_bytes 4 w), 0)"
| "arg_call (Arg_uint64 w) = (BINN_UINT64, Some (le_bytes 8 w), 0)"
| "arg_call (Arg_float w) = (BINN_FLOAT32, Some (le_bytes 4 w), 0)"
| "arg_call (Arg_double w) = (BINN_FLOAT64, Some (le_bytes 8 w), 0)"
| "arg_call (Arg_str s) = (BINN_STRING, Some (s @ [0]), 0)"
| "arg_call (Arg_blob p) = (BINN_BLOB, p, (case p of None \<Rightarrow> 0 | Some bs \<Rightarrow> int (length bs)))"
| "arg_call (Arg_list bs) = (BINN_LIST, Some bs, int (length bs))"
| "arg_call (Arg_map bs) = (BINN_MAP, Some bs, int (length bs))"
| "arg_call (Arg_object bs) = (BINN_OBJECT, Some bs, int (length bs))"

definition binn_list_add_arg :: "bool \<Rightarrow> binn_arg \<Rightarrow> binn \<Rightarrow> (bool \<times> binn) option" where
  "binn_list_add_arg ok a item = (case arg_call a of (type, pvalue, size0) \<Rightarrow> binn_list_add ok type pvalue size0 item)"

fun arg_item :: "binn_arg \<Rightarrow> binn_item" where
  "arg_item Arg_null = Item_null"
| "arg_item (Arg_bool w) = Item_bool (w \<noteq> 0)"
| "arg_item (Arg_int8 w) = Item_int (sint w)"
| "arg_item (Arg_int16 w) = Item_int (sint w)"
| "arg_item (Arg_int32 w) = Item_int (sint w)"
| "arg_item (Arg_int64 w) = Item_int (sint w)"
| "arg_item (Arg_uint8 w) = Item_int (uint w)"
| "arg_item (Arg_uint16 w) = Item_int (uint w)"
| "arg_item (Arg_uint32 w) = Item_int (uint w)"
| "arg_item (Arg_uint64 w) = Item_int (uint w)"
| "arg_item (Arg_float w) = Item_float (le_bytes 4 w)"
| "arg_item (Arg_double w) = Item_double (le_bytes 8 w)"
| "arg_item (Arg_str s) = Item_string s"
| "arg_item (Arg_blob p) = Item_blob (case p of None \<Rightarrow> [] | Some bs \<Rightarrow> bs)"
| "arg_item (Arg_list bs) = Item_container bs"
| "arg_item (Arg_map bs) = Item_container bs"
| "arg_item (Arg_object bs) = Item_container bs"

text \<open>A string has no byte zero; a nested container is one the writer made.\<close>

definition is_container :: "int \<Rightarrow> bytes \<Rightarrow> bool" where
  "is_container t bs \<longleftrightarrow> (\<exists>c body. bs = container t c body \<and> c < 2 ^ 31)"

fun arg_wf :: "binn_arg \<Rightarrow> bool" where
  "arg_wf (Arg_str s) \<longleftrightarrow> 0 \<notin> set s"
| "arg_wf (Arg_list bs) \<longleftrightarrow> is_container BINN_LIST bs"
| "arg_wf (Arg_map bs) \<longleftrightarrow> is_container BINN_MAP bs"
| "arg_wf (Arg_object bs) \<longleftrightarrow> is_container BINN_OBJECT bs"
| "arg_wf _ \<longleftrightarrow> True"

definition payload :: "binn \<Rightarrow> bytes" where
  "payload item = subarray (pbuf item) MAX_BINN_HEADER (used_size item - MAX_BINN_HEADER)"

definition buffer_ok :: "binn \<Rightarrow> bool" where
  "buffer_ok item \<longleftrightarrow> MAX_BINN_HEADER \<le> used_size item \<and> used_size item \<le> length (pbuf item) \<and> length (pbuf item) \<le> INT_MAX"

lemma calc_allocation_run:
  assumes "CalcAllocation needed alloc = Some a" "alloc \<le> INT_MAX"
  shows "needed \<le> a \<and> alloc \<le> a \<and> a \<le> INT_MAX"
  using assms
proof (induction needed alloc rule: CalcAllocation.induct)
  case (1 needed alloc)
  show ?case
    using "1.prems" "1.IH" by (subst (asm) CalcAllocation.simps) (fastforce split: if_splits)
qed

lemma check_allocation_run:
  assumes "CheckAllocation ok n item = Some (True, item')" "buffer_ok item"
  shows "\<exists>pad. item' = item \<lparr> pbuf := pbuf item @ pad \<rparr> \<and> used_size item + n \<le> length (pbuf item @ pad) \<and> buffer_ok item'"
proof (cases "used_size item + n > length (pbuf item)")
  case True
  then obtain a where a: "CalcAllocation (used_size item + n) (length (pbuf item)) = Some a"
      "item' = item \<lparr> pbuf := pbuf item @ replicate (a - length (pbuf item)) 0 \<rparr>"
    using assms(1) by (auto simp: CheckAllocation_def bind_eq_Some_conv split: if_splits)
  with calc_allocation_run [OF a(1)] assms(2) show ?thesis
    by (intro exI [of _ "replicate (a - length (pbuf item)) 0"]) (auto simp: buffer_ok_def)
next
  case False
  with assms show ?thesis by (intro exI [of _ "[]"]) (auto simp: CheckAllocation_def split: if_splits)
qed

definition appends :: "bytes \<Rightarrow> binn \<Rightarrow> binn \<Rightarrow> bool" where
  "appends bs item item' \<longleftrightarrow> buffer_ok item' \<and> payload item' = payload item @ bs \<and> dirty item' \<and> b_type item' = b_type item \<and>
     used_size item' = used_size item + length bs"

lemma append_bytes_run:
  assumes "append_bytes bs (item \<lparr> pbuf := pbuf item @ pad \<rparr>) = Some item'" "buffer_ok item" "length (pbuf item @ pad) \<le> INT_MAX"
  shows "appends bs item item' \<and> b_count item' = b_count item"
proof -
  have split: "subarray (blit buf u bs) 9 (u + length bs - 9) = subarray buf 9 (u - 9) @ bs"
    if "9 \<le> u" "u \<le> length buf" for buf u
    using that by (simp add: subarray_def blit_def take_drop)
  have "subarray (pbuf item @ pad) 9 (used_size item - 9) = payload item"
    using assms(2) by (simp add: payload_def subarray_def buffer_ok_def)
  with assms split [of "used_size item" "pbuf item @ pad"] show ?thesis
    by (auto simp: append_bytes_def appends_def buffer_ok_def payload_def split: if_splits)
qed

text \<open>What a successful call has appended.\<close>

lemma put_value_run:
  assumes "put_value ok st t pv n item = Some (True, item')" "buffer_ok item"
  defines "src \<equiv> (case pv of None \<Rightarrow> [] | Some bs \<Rightarrow> bs)"
  shows "\<exists>k room. value_size st pv n = Some (Some (k, room)) \<and> k \<le> length src \<and> k \<le> INT_MAX \<and>
    appends (value_bytes st t src k) item item' \<and> b_count item' = b_count item"
proof -
  from assms(1) obtain k room where size: "value_size st pv n = Some (Some (k, room))"
    by (auto simp: put_value_def Let_def bind_eq_Some_conv split: option.splits)
  with assms(1) obtain item1 where chk: "CheckAllocation ok (room + 2) item = Some (True, item1)" and k: "k \<le> length src"
    and app: "append_bytes (value_bytes st t src k) item1 = Some item'"
    by (auto simp: put_value_def src_def [symmetric] bind_eq_Some_conv split: if_splits)
  from check_allocation_run [OF chk assms(2)] obtain pad where pad: "item1 = item \<lparr> pbuf := pbuf item @ pad \<rparr>"
      "used_size item + (room + 2) \<le> length (pbuf item @ pad)" "buffer_ok item1" by blast
  have "k \<le> room" using size by (auto simp: value_size_def bind_eq_Some_conv split: if_splits)
  moreover have len: "length (pbuf item @ pad) \<le> INT_MAX" using pad(1,3) by (simp add: buffer_ok_def)
  ultimately have "k \<le> INT_MAX" using pad(2) by auto
  with append_bytes_run [OF app [unfolded pad(1)] assms(2) len] size k show ?thesis by blast
qed


lemma type_info_simps [simp]:
  "binn_get_type_info 0 = 0" "binn_get_type_info 1 = 0" "binn_get_type_info 2 = 0"
  "binn_get_type_info BINN_INT8 = BINN_STORAGE_BYTE" "binn_get_type_info BINN_UINT8 = BINN_STORAGE_BYTE"
  "binn_get_type_info BINN_INT16 = BINN_STORAGE_WORD" "binn_get_type_info BINN_UINT16 = BINN_STORAGE_WORD"
  "binn_get_type_info BINN_INT32 = BINN_STORAGE_DWORD" "binn_get_type_info BINN_UINT32 = BINN_STORAGE_DWORD"
  "binn_get_type_info BINN_INT64 = BINN_STORAGE_QWORD" "binn_get_type_info BINN_UINT64 = BINN_STORAGE_QWORD"
  "binn_get_type_info BINN_FLOAT32 = BINN_STORAGE_DWORD" "binn_get_type_info BINN_FLOAT64 = BINN_STORAGE_QWORD"
  "binn_get_type_info BINN_STRING = BINN_STORAGE_STRING" "binn_get_type_info BINN_BLOB = BINN_STORAGE_BLOB"
  "binn_get_type_info BINN_LIST = BINN_STORAGE_CONTAINER" "binn_get_type_info BINN_MAP = BINN_STORAGE_CONTAINER"
  "binn_get_type_info BINN_OBJECT = BINN_STORAGE_CONTAINER"
  by (simp_all add: binn_get_type_info_def)

lemma read_int_take: "int_width t = n \<Longrightarrow> read_int t (take n bs) = read_int t bs"
  by (auto simp: read_int_def Let_def)

lemma add_int_run:
  assumes "AddValue ok t (Some src) n item = Some (True, item')" "buffer_ok item" "t \<in> int_types" "read_int t src = Some i"
  shows "\<exists>bs. reads_as bs (Item_int i) \<and> appends bs item item' \<and> b_count item' = b_count item"
proof -
  obtain st t' where comp: "compress_int (binn_get_type_info t) t src = Some (st, t')"
    and put: "put_value ok st t' (Some src) n item = Some (True, item')"
    using assms(1,3) by (auto simp: AddValue_def type_family_int bind_eq_Some_conv Let_def)
  note same = compress_int_same [OF assms(3) comp assms(4)]
  obtain k room where size: "value_size st (Some src) n = Some (Some (k, room))" and k: "k \<le> length src"
    and app: "appends (value_bytes st t' src k) item item'" "b_count item' = b_count item"
    using put_value_run [OF put assms(2)] by auto
  have "k = int_width t' \<and> value_bytes st t' src k = of_int t' # rev (take k src)"
    using same size unfolding int_types_def
    by (elim conjE insertE emptyE) (simp_all add: value_size_def value_bytes_def int_width_def)
  moreover have "read_int t' (take k src) = Some i" if "k = int_width t'"
    using same that by (simp add: read_int_take)
  ultimately show ?thesis
    using reads_int [of t' "take k src" i] same k app by auto
qed

lemma le_value_bytes: "LENGTH('a) = 8 * n \<Longrightarrow> le_value (le_bytes n (w :: 'a :: len word)) = unat w"
  using unsigned_less [of w, where ?'a = nat] by (simp add: le_value_le_bytes power_mult)

lemma read_int_signed:
  assumes "LENGTH('a :: len) = 8 * int_width t" "int_type t = BINN_SIGNED_INT"
  shows "read_int t (le_bytes (int_width t) (w :: 'a word)) = Some (sint w)"
proof -
  have "sint w mod 256 ^ int_width t = uint w"
    using assms(1) by (simp add: uint_sint take_bit_eq_mod power_mult)
  moreover have "uint w < 2 ^ (8 * int_width t)" using unsigned_less [of w, where ?'a = int] assms(1) by simp
  then have "int (le_value (le_bytes (int_width t) w)) mod 256 ^ int_width t = uint w"
    using assms(1) by (simp add: le_value_bytes power_mult)
  moreover have "- (2 ^ (8 * int_width t - 1)) \<le> sint w" "sint w < 2 ^ (8 * int_width t - 1)"
    using sint_greater_eq [of w] sint_less [of w] assms(1) by simp_all
  ultimately show ?thesis using assms(2) by (simp add: read_int_iff in_range_def)
qed

lemma read_int_unsigned:
  assumes "LENGTH('a :: len) = 8 * int_width t" "int_type t \<noteq> BINN_SIGNED_INT"
  shows "read_int t (le_bytes (int_width t) (w :: 'a word)) = Some (uint w)"
proof -
  have "uint w < 2 ^ (8 * int_width t)" using unsigned_less [of w, where ?'a = int] assms(1) by simp
  then show ?thesis using assms by (simp add: read_int_iff in_range_def le_value_bytes power_mult)
qed


text \<open>One item more, read as given.\<close>

definition adds :: "binn_item \<Rightarrow> binn \<Rightarrow> binn \<Rightarrow> bool" where
  "adds i item item' \<longleftrightarrow> (\<exists>bs. reads_as bs i \<and> appends bs item item' \<and> b_count item' = b_count item + 1)"

lemma strlen_terminated: "0 \<notin> set s \<Longrightarrow> strlen (s @ [0]) = Some (length s)"
proof -
  assume "0 \<notin> set s"
  then have "takeWhile (\<lambda>b. b \<noteq> 0) (s @ [0]) = s" by (induction s) auto
  then show ?thesis by (simp add: strlen_def)
qed

text \<open>The integer arguments, and the bytes every other argument turns into.\<close>

lemma arg_int:
  assumes "arg_call a = (t, pv, n)" "t \<in> int_types"
  shows "\<exists>src i. pv = Some src \<and> read_int t src = Some i \<and> arg_item a = Item_int i"
  using assms read_int_signed [of BINN_INT8, where ?'a = 8] read_int_signed [of BINN_INT16, where ?'a = 16]
    read_int_signed [of BINN_INT32, where ?'a = 32] read_int_signed [of BINN_INT64, where ?'a = 64]
    read_int_unsigned [of BINN_UINT8, where ?'a = 8] read_int_unsigned [of BINN_UINT16, where ?'a = 16]
    read_int_unsigned [of BINN_UINT32, where ?'a = 32] read_int_unsigned [of BINN_UINT64, where ?'a = 64]
  by (cases a) (auto simp: int_types_def int_width_def int_type_def)

lemma reads_nested:
  assumes "is_container t bs" "container_type t" "length bs \<le> INT_MAX"
  shows "reads_as bs (Item_container bs)"
  using assms reads_container [of t] by (auto simp: is_container_def length_container)

lemma arg_other:
  assumes "arg_call a = (t, pv, n)" "t \<notin> int_types" "arg_wf a"
  shows "\<exists>t'. t' \<notin> int_types \<and> GetWriteConvertedData t pv n = Some (Some t') \<and>
    (\<forall>k room. value_size (binn_get_type_info t') pv n = Some (Some (k, room)) \<longrightarrow> k \<le> INT_MAX \<longrightarrow>
      reads_as (value_bytes (binn_get_type_info t') t' (case pv of None \<Rightarrow> [] | Some bs \<Rightarrow> bs) k) (arg_item a))"
proof (cases a)
  case Arg_null
  then show ?thesis
    using assms reads_null by (auto simp: GetWriteConvertedData_def int_types_def value_bytes_def intro!: exI [of _ 0])
next
  case (Arg_bool w)
  let ?t = "if w = 0 then BINN_FALSE else BINN_TRUE"
  have "GetWriteConvertedData t pv n = Some (Some ?t)"
  proof -
    have "t = BINN_BOOL" "pv = Some (le_bytes 4 w)" "unat w = 0 \<longleftrightarrow> w = 0"
      using assms(1) Arg_bool unat_0_iff [of w] by simp_all
    then show ?thesis by (simp add: GetWriteConvertedData_def flip: neq0_conv)
  qed
  moreover have "value_bytes (binn_get_type_info ?t) ?t src k = [if w \<noteq> 0 then 1 else 2]" for src k
    by (simp add: value_bytes_def)
  ultimately show ?thesis
    using reads_bool [of "w \<noteq> 0"] Arg_bool by (intro exI [of _ ?t]) (simp add: int_types_def)
next
  case (Arg_float w)
  then show ?thesis
    using assms reads_float [of "le_bytes 4 w"]
    by (auto simp: GetWriteConvertedData_def int_types_def value_bytes_def value_size_def)
next
  case (Arg_double w)
  then show ?thesis
    using assms reads_double [of "le_bytes 8 w"]
    by (auto simp: GetWriteConvertedData_def int_types_def value_bytes_def value_size_def)
next
  case (Arg_str s)
  then show ?thesis
    using assms reads_sized [where bs = s and t = "0xA0" and end_bytes = "[0]"]
    by (auto simp: GetWriteConvertedData_def int_types_def value_bytes_def value_size_def strlen2_def strlen_terminated)
next
  case (Arg_blob p)
  then show ?thesis
    using assms reads_sized [where bs = "[]" and t = "0xC0" and end_bytes = "[]"]
      reads_sized [where bs = "the p" and t = "0xC0" and end_bytes = "[]"]
    by (cases p) (auto simp: GetWriteConvertedData_def int_types_def value_bytes_def value_size_def)
next
  case (Arg_list bs)
  then show ?thesis
    using assms reads_nested [of BINN_LIST bs]
    by (auto simp: GetWriteConvertedData_def int_types_def value_bytes_def value_size_def split: if_splits)
next
  case (Arg_map bs)
  then show ?thesis
    using assms reads_nested [of BINN_MAP bs]
    by (auto simp: GetWriteConvertedData_def int_types_def value_bytes_def value_size_def split: if_splits)
next
  case (Arg_object bs)
  then show ?thesis
    using assms reads_nested [of BINN_OBJECT bs]
    by (auto simp: GetWriteConvertedData_def int_types_def value_bytes_def value_size_def split: if_splits)
qed (use assms in \<open>auto simp: int_types_def\<close>)

text \<open>What adding any argument to a container of any kind appends.\<close>

lemma add_value_arg:
  assumes "arg_call a = (t, pv, n)" "arg_wf a" "GetWriteConvertedData t pv n = Some (Some t')"
    and "AddValue ok t' pv n item = Some (True, item')" "buffer_ok item"
  shows "\<exists>bs. reads_as bs (arg_item a) \<and> appends bs item item' \<and> b_count item' = b_count item"
proof (cases "t \<in> int_types")
  case True
  from arg_int [OF assms(1) True] obtain src i where
    i: "pv = Some src" "read_int t src = Some i" "arg_item a = Item_int i" by blast
  have "t' = t" using assms(3) True by (auto simp: i GetWriteConvertedData_def int_types_def)
  with add_int_run [OF _ assms(5) True i(2)] assms(4) i show ?thesis by auto
next
  case False
  from arg_other [OF assms(1) False assms(2)] assms(3) have t': "t' \<notin> int_types"
    "\<forall>k room. value_size (binn_get_type_info t') pv n = Some (Some (k, room)) \<longrightarrow> k \<le> INT_MAX \<longrightarrow>
      reads_as (value_bytes (binn_get_type_info t') t' (case pv of None \<Rightarrow> [] | Some bs \<Rightarrow> bs) k) (arg_item a)"
    by auto
  then have "put_value ok (binn_get_type_info t') t' pv n item = Some (True, item')"
    using assms(4) by (auto simp: AddValue_def type_family_int Let_def split: if_splits)
  from put_value_run [OF this assms(5)] t'(2) show ?thesis by blast
qed

lemma list_add_arg_run:
  assumes "binn_list_add_arg ok a item = Some (True, item')" "buffer_ok item" "arg_wf a"
  shows "adds (arg_item a) item item'"
proof -
  obtain t pv n where call: "arg_call a = (t, pv, n)" by (cases "arg_call a")
  with assms(1) obtain t' item1 where conv: "GetWriteConvertedData t pv n = Some (Some t')"
    and add: "AddValue ok t' pv n item = Some (True, item1)" and item': "item' = item1 \<lparr> b_count := b_count item1 + 1 \<rparr>"
    by (auto simp: binn_list_add_arg_def binn_list_add_def binn_list_add_raw_def bind_eq_Some_conv split: option.splits if_splits)
  from add_value_arg [OF call assms(3) conv add assms(2)] show ?thesis
    by (auto simp: adds_def appends_def payload_def buffer_ok_def item')
qed

end
