(* ===== verification/Mdv_Binn_Roundtrip.thy ===== *)
theory Mdv_Binn_Roundtrip
  imports Mdv_Binn_Write
begin

text \<open>
  Serialised lists as a whole: the buffer after any number of additions, the
  container it becomes, and what loading it and walking through it finds.
\<close>

section \<open>Writing a list\<close>

text \<open>A run of additions; each comes with the outcome of its reallocation, should it need one.\<close>

fun add_all :: "(bool \<times> binn_arg) list \<Rightarrow> binn \<Rightarrow> (bool \<times> binn) option" where
  "add_all [] item = Some (True, item)"
| "add_all ((ok, a) # calls) item = do {
     (added, item) \<leftarrow> binn_list_add_arg ok a item;
     if added then add_all calls item else Some (False, item)
   }"

definition list_holds :: "binn_item list \<Rightarrow> binn \<Rightarrow> bool" where
  "list_holds is item \<longleftrightarrow> buffer_ok item \<and> dirty item \<and> b_type item = BINN_LIST \<and> b_count item = length is \<and>
     (\<exists>encs. payload item = concat encs \<and> list_all2 reads_as encs is)"

lemma new_list_holds: "binn_create_list True = Some item \<Longrightarrow> list_holds [] item"
  by (auto simp: binn_create_list_def binn_create_def list_holds_def buffer_ok_def payload_def subarray_def)

lemma adds_holds:
  assumes "list_holds is item" "adds i item item'"
  shows "list_holds (is @ [i]) item'"
proof -
  obtain encs where "payload item = concat encs" "list_all2 reads_as encs is"
    using assms(1) by (auto simp: list_holds_def)
  moreover obtain bs where "reads_as bs i" "appends bs item item'" "b_count item' = b_count item + 1"
    using assms(2) by (auto simp: adds_def)
  ultimately show ?thesis
    using assms(1) by (auto simp: list_holds_def appends_def intro!: exI [of _ "encs @ [bs]"] list_all2_appendI)
qed

lemma add_all_holds:
  assumes "add_all calls item = Some (True, item')" "list_holds is item" "\<forall>a \<in> snd ` set calls. arg_wf a"
  shows "list_holds (is @ map (arg_item \<circ> snd) calls) item'"
  using assms
proof (induction calls arbitrary: "is" item)
  case (Cons call calls)
  obtain ok a where call: "call = (ok, a)" by (cases call)
  obtain item1 where one: "binn_list_add_arg ok a item = Some (True, item1)" "add_all calls item1 = Some (True, item')"
    using Cons.prems(1) by (auto simp: call bind_eq_Some_conv split: if_splits)
  have "buffer_ok item" using Cons.prems(2) by (simp add: list_holds_def)
  then have "adds (arg_item a) item item1"
    using one(1) Cons.prems(3) by (intro list_add_arg_run) (auto simp: call)
  from Cons.IH [OF one(2) adds_holds [OF Cons.prems(2) this]] Cons.prems(3) show ?case
    by (simp add: call)
qed simp

lemma concat_length: "list_all2 reads_as encs is \<Longrightarrow> length is \<le> length (concat encs)"
proof (induction rule: list_all2_induct)
  case (Cons b bs i "is")
  then have "Suc 0 \<le> length b" by (simp add: reads_as_def Suc_le_eq)
  with Cons show ?case by simp
qed simp

text \<open>The header fits in the room kept for it.\<close>

lemma header_in_front:
  assumes "length h \<le> 9" "9 \<le> length buf"
  shows "subarray (blit buf (9 - length h) h) (9 - length h) (length h + k) = h @ subarray buf 9 k"
  using assms by (simp add: subarray_def blit_def)

lemma serialised_container:
  assumes "buffer_ok item" "dirty item"
  shows "binn_serialised item = container (b_type item) (b_count item) (payload item)"
proof -
  define size1 where "size1 = container_size (b_count item) (payload item)"
  define h where "h = of_int (b_type item) # size_bytes size1 @ size_bytes (b_count item)"
  have body: "length (payload item) = used_size item - 9" using assms(1) by (simp add: payload_def buffer_ok_def)
  have h: "length h = header_size (b_count item) (payload item)" "length h \<le> 9"
    by (simp_all add: header_size_def length_size_bytes h_def size1_def)
  have save: "binn_save_header item = item \<lparr> pbuf := blit (pbuf item) (9 - length h) h, b_ptr := 9 - length h,
      b_size := size1, dirty := False \<rparr>"
    by (simp add: binn_save_header_def container_size_def Let_def h_def size1_def body)
  have size1: "size1 = length h + (used_size item - 9)" using h(1) by (simp add: size1_def container_size_ge(3) body)
  have "subarray (blit (pbuf item) (9 - length h) h) (9 - length h) size1 = h @ payload item"
    unfolding size1 payload_def using h(2) assms(1) by (intro header_in_front) (auto simp: buffer_ok_def)
  then show ?thesis
    using assms(2) by (simp add: binn_serialised_def binn_ptr_item_def save container_def h_def size1_def)
qed


section \<open>Reading a list\<close>

lemma valid_items_run:
  assumes "list_all2 reads_as encs is" "holds_at m q (concat encs)" "q + length (concat encs) \<le> plimit" "base \<le> q"
  shows "valid_items (length encs) m BINN_LIST base plimit q = Some True"
  using assms
proof (induction arbitrary: q rule: list_all2_induct)
  case (Cons b bs i "is")
  have "AdvanceDataPos m plimit q = Some (Some (q + length b))"
    using Cons.hyps(1) Cons.prems by (auto simp: reads_as_def)
  moreover have "valid_items (length bs) m BINN_LIST base plimit (q + length b) = Some True"
    using Cons.prems by (intro Cons.IH) auto
  ultimately show ?case using Cons.prems(3) by simp
qed simp

definition decodes :: "bytes \<Rightarrow> binn_value list \<Rightarrow> binn_item list \<Rightarrow> bool" where
  "decodes m vs is \<longleftrightarrow> list_all2 (\<lambda>v i. decode m v = Some i) vs is"

lemma list_values_run:
  assumes "list_all2 reads_as encs is" "holds_at m q (concat encs)" "q + length (concat encs) = it_plimit it + 1"
    and "if encs = [] then pnext it \<in> {None, Some q} else pnext it = Some q"
    and "it_current it + length encs \<le> it_count it" "it_type it = BINN_LIST" "length encs < n"
  shows "\<exists>vs. list_values n m it = Some vs \<and> decodes m vs is"
  using assms
proof (induction arbitrary: q it n rule: list_all2_induct)
  case Nil
  then obtain k where n: "n = Suc k" by (cases n) auto
  from Nil show ?case by (auto simp: n binn_list_next_def decodes_def)
next
  case (Cons b bs i "is")
  obtain k where n: "n = Suc k" using Cons.prems(6) by (cases n) auto
  let ?next = "if q + length b \<le> it_plimit it then Some (q + length b) else None"
  have b: "b \<noteq> []" and adv: "AdvanceDataPos m (it_plimit it) q = Some ?next"
    and get: "\<exists>v. GetValue m q = Some (Some v) \<and> decode m v = Some i"
    using Cons.hyps(1) Cons.prems(1,2) by (auto simp: reads_as_def)
  then obtain v where v: "GetValue m q = Some (Some v)" "decode m v = Some i" by blast
  let ?it = "it \<lparr> it_current := it_current it + 1, pnext := ?next \<rparr>"
  have "Suc 0 \<le> length b" using b by (simp add: Suc_le_eq)
  then have "q \<le> it_plimit it" using Cons.prems(2) by simp
  then have step: "binn_list_next m it = Some (Some v, ?it)"
    using Cons.prems(2-5) adv v(1) by (auto simp: binn_list_next_def)
  have bs: "bs = [] \<longleftrightarrow> \<not> q + length b \<le> it_plimit it"
  proof -
    have "length bs \<le> length (concat bs)" using Cons.hyps(2) concat_length list_all2_lengthD by metis
    then show ?thesis using Cons.prems(2) by (cases bs) auto
  qed
  have "\<exists>vs. list_values k m ?it = Some vs \<and> decodes m vs is"
    using Cons.prems bs by (intro Cons.IH [of "q + length b"]) (auto simp: n)
  with step v(2) show ?case by (auto simp: n decodes_def)
qed

lemma foreach_run:
  assumes "list_all2 reads_as encs is" "holds_at m p (container BINN_LIST (length is) (concat encs))"
    "container_size (length is) (concat encs) < 2 ^ 31"
  shows "\<exists>vs. binn_list_foreach m p = Some vs \<and> decodes m vs is"
proof -
  let ?c = "length is" and ?body = "concat encs"
  have "?c \<le> length ?body" by (rule concat_length [OF assms(1)])
  then have c: "?c < 2 ^ 31" using assms(3) by (simp add: container_size_ge(3))
  have body: "holds_at m (p + header_size ?c ?body) ?body"
    using assms(2) by (simp add: container_def header_size_def add.assoc)
  have len: "length encs = ?c" using assms(1) by (rule list_all2_lengthD)
  let ?it = "\<lparr> pnext = Some (p + header_size ?c ?body), it_plimit = p + container_size ?c ?body - 1,
    it_type = BINN_LIST, it_count = ?c, it_current = 0 \<rparr>"
  have "binn_iter_init m p BINN_LIST = Some ?it"
    using header_run [OF _ assms(2,3) c] by (simp add: binn_iter_init_def)
  moreover have "\<exists>vs. list_values (?c + 1) m ?it = Some vs \<and> decodes m vs is"
    using container_size_ge(1) [of ?c ?body] body len
    by (intro list_values_run [OF assms(1)]) (auto simp: container_size_ge(3))
  ultimately show ?thesis by (simp add: binn_list_foreach_def del: list_values.simps)
qed

lemma load_run:
  assumes "list_all2 reads_as encs is" "holds_at m p (container BINN_LIST (length is) (concat encs))"
    "container_size (length is) (concat encs) < 2 ^ 31" "p + 4 \<le> length m"
  shows "binn_load m p = Some (Some \<lparr> v_type = BINN_LIST, v_ptr = In_buffer p,
    v_size = container_size (length is) (concat encs), v_count = length is, v_union = replicate 8 0 \<rparr>)"
proof -
  let ?c = "length is" and ?body = "concat encs"
  have "?c \<le> length ?body" by (rule concat_length [OF assms(1)])
  then have c: "?c < 2 ^ 31" using assms(3) by (simp add: container_size_ge(3))
  have body: "holds_at m (p + header_size ?c ?body) ?body"
    using assms(2) by (simp add: container_def header_size_def add.assoc)
  have "valid_items ?c m BINN_LIST p (p + container_size ?c ?body) (p + header_size ?c ?body) = Some True"
    using valid_items_run [OF assms(1) body] list_all2_lengthD [OF assms(1)] by (simp add: container_size_ge(3))
  then have valid: "binn_is_valid m p = Some (Some (BINN_LIST, ?c, container_size ?c ?body))"
    using header_run [OF _ assms(2,3) c] by (simp add: binn_is_valid_def)
  have "m ! p = 0xE0" using assms(2,4) by (simp add: container_def rd_def)
  then have "subarray m p 4 = 0xE0 # subarray m (p + 1) 3"
    using assms(4) by (simp add: subarray_def Cons_nth_drop_Suc [symmetric])
  then have "le_value (subarray m p 4) \<noteq> BINN_MAGIC"
    unfolding BINN_MAGIC_def by simp presburger
  then have "binn_get_ptr_type m p = Some ()"
    using assms(4) by (simp add: binn_get_ptr_type_def rds_def)
  with valid show ?thesis by (simp add: binn_load_def)
qed


section \<open>Enough memory\<close>

text \<open>The buffer has a power of two as its size; while less than half of the address range of an
  int is asked for, it grows to the next one that suffices and every write stays inside.\<close>

definition buffer_pow :: "binn \<Rightarrow> bool" where
  "buffer_pow item \<longleftrightarrow> buffer_ok item \<and> length (pbuf item) \<le> 2 ^ 30 \<and> (\<exists>k. length (pbuf item) = 2 ^ k)"

lemma calc_allocation_some:
  assumes "needed \<le> 2 ^ 30" "alloc = 2 ^ k" "alloc \<le> 2 ^ 30"
  shows "\<exists>j. CalcAllocation needed alloc = Some (2 ^ j) \<and> 2 ^ j \<le> (2 ^ 30 :: nat)"
  using assms
proof (induction needed alloc arbitrary: k rule: CalcAllocation.induct)
  case (1 needed alloc)
  show ?case
  proof (cases "alloc < needed")
    case True
    then have "k < 30" using "1.prems" by (metis leD leI le_less_trans one_less_numeral_iff power_increasing_iff semiring_norm(76))
    then have "2 * alloc \<le> 2 ^ 30" using "1.prems"(2) power_increasing [of "Suc k" 30 "2 :: nat"] by simp
    moreover have "\<not> (alloc = 0 \<or> 2 * alloc > INT_MAX)" using calculation "1.prems"(2) by auto
    ultimately show ?thesis
      using "1.IH" [OF True, of "Suc k"] "1.prems" True by (subst CalcAllocation.simps) simp
  next
    case False
    then show ?thesis using "1.prems" by (subst CalcAllocation.simps) auto
  qed
qed

lemma check_allocation_some:
  assumes "buffer_pow item" "used_size item + n \<le> 2 ^ 30"
  shows "\<exists>pad. CheckAllocation True n item = Some (True, item \<lparr> pbuf := pbuf item @ pad \<rparr>) \<and>
    used_size item + n \<le> length (pbuf item @ pad) \<and> buffer_pow (item \<lparr> pbuf := pbuf item @ pad \<rparr>)"
proof (cases "used_size item + n > length (pbuf item)")
  case True
  from assms(1) obtain k where k: "length (pbuf item) = 2 ^ k" "length (pbuf item) \<le> 2 ^ 30" "buffer_ok item"
    by (auto simp: buffer_pow_def)
  obtain j where j: "CalcAllocation (used_size item + n) (length (pbuf item)) = Some (2 ^ j)" "2 ^ j \<le> (2 ^ 30 :: nat)"
    using calc_allocation_some [OF assms(2) k(1,2)] by blast
  have le: "used_size item + n \<le> 2 ^ j" "length (pbuf item) \<le> 2 ^ j"
    using calc_allocation_run [OF j(1)] k(2) by simp_all
  then have "length (pbuf item @ replicate (2 ^ j - length (pbuf item)) 0) = 2 ^ j" by simp
  with True j le k(3) assms(2) show ?thesis
    by (intro exI [of _ "replicate (2 ^ j - length (pbuf item)) 0"])
      (auto simp: CheckAllocation_def buffer_pow_def buffer_ok_def)
next
  case False
  with assms show ?thesis by (intro exI [of _ "[]"]) (auto simp: CheckAllocation_def)
qed

lemma value_bytes_room:
  assumes "value_size st pv n = Some (Some (k, room))"
  shows "length (value_bytes st t src k) \<le> room + 2"
  using assms by (auto simp: value_size_def value_bytes_def length_size_bytes bind_eq_Some_conv split: if_splits)

lemma put_value_some:
  assumes "buffer_pow item" "value_size st pv n = Some (Some (k, room))" "used_size item + room + 2 \<le> 2 ^ 30"
    and "k \<le> length (case pv of None \<Rightarrow> [] | Some bs \<Rightarrow> bs)"
  shows "\<exists>item'. put_value True st t pv n item = Some (True, item') \<and> buffer_pow item' \<and>
    used_size item' \<le> used_size item + room + 2 \<and> b_type item' = b_type item"
proof -
  obtain pad where pad: "CheckAllocation True (room + 2) item = Some (True, item \<lparr> pbuf := pbuf item @ pad \<rparr>)"
      "used_size item + (room + 2) \<le> length (pbuf item @ pad)" "buffer_pow (item \<lparr> pbuf := pbuf item @ pad \<rparr>)"
    using check_allocation_some [OF assms(1), of "room + 2"] assms(3) by auto
  let ?bs = "value_bytes st t (case pv of None \<Rightarrow> [] | Some bs \<Rightarrow> bs) k"
  have "length ?bs \<le> room + 2" by (rule value_bytes_room [OF assms(2)])
  with pad assms(2,4) show ?thesis
    by (auto simp: put_value_def append_bytes_def buffer_pow_def buffer_ok_def Let_def)
qed


fun arg_room :: "binn_arg \<Rightarrow> nat" where
  "arg_room (Arg_str s) = length s + 7"
| "arg_room (Arg_blob p) = (case p of None \<Rightarrow> 0 | Some bs \<Rightarrow> length bs) + 6"
| "arg_room (Arg_list bs) = length bs + 2"
| "arg_room (Arg_map bs) = length bs + 2"
| "arg_room (Arg_object bs) = length bs + 2"
| "arg_room _ = 10"

lemma add_int_some:
  assumes "t \<in> int_types" "read_int t src = Some i" "buffer_pow item" "used_size item + 10 \<le> 2 ^ 30"
  shows "\<exists>item'. AddValue True t (Some src) n item = Some (True, item') \<and> buffer_pow item' \<and>
    used_size item' \<le> used_size item + 10 \<and> b_type item' = b_type item"
proof -
  obtain st t' where comp: "compress_int (binn_get_type_info t) t src = Some (st, t')"
    using assms(2) by (cases "compress_int (binn_get_type_info t) t src") (auto simp: compress_int_def Let_def split: if_splits)
  note same = compress_int_same [OF assms(1) comp assms(2)]
  have size: "value_size st (Some src) n = Some (Some (int_width t', int_width t'))"
    using same unfolding int_types_def by (elim conjE insertE emptyE) (simp_all add: value_size_def int_width_def)
  have w: "int_width t' \<le> length src" "int_width t' \<le> 8"
    using same by (simp_all add: read_int_iff int_width_def)
  obtain item' where "put_value True st t' (Some src) n item = Some (True, item')" "buffer_pow item'"
      "used_size item' \<le> used_size item + int_width t' + 2" "b_type item' = b_type item"
    using put_value_some [OF assms(3) size, of t'] w assms(4) by auto
  with comp assms(1) w(2) show ?thesis by (auto simp: AddValue_def type_family_int Let_def)
qed

text \<open>The number of bytes an argument that is not an integer takes.\<close>

lemma arg_other_size:
  assumes "arg_call a = (t, pv, n)" "t \<notin> int_types" "arg_wf a" "GetWriteConvertedData t pv n = Some (Some t')"
  shows "\<exists>k room. value_size (binn_get_type_info t') pv n = Some (Some (k, room)) \<and> room + 2 \<le> arg_room a \<and>
    k \<le> length (case pv of None \<Rightarrow> [] | Some bs \<Rightarrow> bs) \<and>
    (pv = None \<longrightarrow> binn_get_type_info t' = BINN_STORAGE_NOBYTES \<or> binn_get_type_info t' = BINN_STORAGE_BLOB \<and> n = 0)"
proof -
  have len: "0 < length bs" if "is_container u bs" for u bs
    using that by (auto simp: is_container_def container_def)
  show ?thesis
    using assms len
    by (cases a) (auto simp: GetWriteConvertedData_def int_types_def value_size_def strlen2_def strlen_terminated split: if_splits option.splits)
qed

lemma add_value_some:
  assumes "arg_call a = (t, pv, n)" "arg_wf a" "buffer_pow item" "used_size item + arg_room a \<le> 2 ^ 30"
  shows "\<exists>t' item'. GetWriteConvertedData t pv n = Some (Some t') \<and> AddValue True t' pv n item = Some (True, item') \<and>
    buffer_pow item' \<and> used_size item' \<le> used_size item + arg_room a \<and> b_type item' = b_type item"
proof (cases "t \<in> int_types")
  case True
  then obtain src i where src: "pv = Some src" "read_int t src = Some i" using arg_int [OF assms(1)] by blast
  have "arg_room a = 10" using assms(1) True by (cases a) (auto simp: int_types_def)
  moreover have "GetWriteConvertedData t pv n = Some (Some t)"
    using True src(1) by (auto simp: GetWriteConvertedData_def int_types_def)
  ultimately show ?thesis
    using add_int_some [OF True src(2) assms(3), of n] assms(4) src(1) by auto
next
  case False
  then obtain t' where t': "t' \<notin> int_types" "GetWriteConvertedData t pv n = Some (Some t')"
    using arg_other [OF assms(1) False assms(2)] by blast
  from arg_other_size [OF assms(1) False assms(2) t'(2)] obtain k room where
    size: "value_size (binn_get_type_info t') pv n = Some (Some (k, room))" "room + 2 \<le> arg_room a"
      "k \<le> length (case pv of None \<Rightarrow> [] | Some bs \<Rightarrow> bs)"
    and null: "pv = None \<longrightarrow> binn_get_type_info t' = BINN_STORAGE_NOBYTES \<or> binn_get_type_info t' = BINN_STORAGE_BLOB \<and> n = 0"
    by blast
  have "used_size item + room + 2 \<le> 2 ^ 30" using assms(4) size(2) by simp
  from put_value_some [OF assms(3) size(1) this size(3)] obtain item1 where
    "put_value True (binn_get_type_info t') t' pv n item = Some (True, item1)" "buffer_pow item1"
    "used_size item1 \<le> used_size item + room + 2" "b_type item1 = b_type item" by blast
  moreover have "AddValue True t' pv n item = put_value True (binn_get_type_info t') t' pv n item"
    using t'(1) null by (auto simp: AddValue_def type_family_int Let_def)
  ultimately show ?thesis using t'(2) size(2) by auto
qed

lemma list_add_arg_some:
  assumes "arg_wf a" "buffer_pow item" "b_type item = BINN_LIST" "used_size item + arg_room a \<le> 2 ^ 30"
  shows "\<exists>item'. binn_list_add_arg True a item = Some (True, item') \<and> buffer_pow item' \<and>
    used_size item' \<le> used_size item + arg_room a \<and> b_type item' = BINN_LIST"
proof -
  obtain t pv n where call: "arg_call a = (t, pv, n)" by (cases "arg_call a")
  from add_value_some [OF call assms(1,2,4)] assms(3) show ?thesis
    by (auto simp: binn_list_add_arg_def call binn_list_add_def binn_list_add_raw_def buffer_pow_def buffer_ok_def)
qed

lemma add_all_some:
  assumes "\<forall>(ok, a) \<in> set calls. ok \<and> arg_wf a" "buffer_pow item" "b_type item = BINN_LIST"
    and "used_size item + (\<Sum>(ok, a) \<leftarrow> calls. arg_room a) \<le> 2 ^ 30"
  shows "\<exists>item'. add_all calls item = Some (True, item')"
  using assms
proof (induction calls arbitrary: item)
  case (Cons call calls)
  obtain ok a where call: "call = (ok, a)" by (cases call)
  have "ok" "arg_wf a" "used_size item + arg_room a \<le> 2 ^ 30" using Cons.prems by (auto simp: call)
  with list_add_arg_some [of a item] Cons.prems(2,3) obtain item1 where
    "binn_list_add_arg True a item = Some (True, item1)" "buffer_pow item1" "used_size item1 \<le> used_size item + arg_room a"
    "b_type item1 = BINN_LIST" by blast
  with Cons.IH [of item1] Cons.prems(1,4) \<open>ok\<close> show ?case by (auto simp: call)
qed simp


section \<open>Properties\<close>

definition new_list :: binn where
  "new_list = \<lparr> b_type = BINN_LIST, pbuf = replicate CHUNK_SIZE 0, used_size = MAX_BINN_HEADER, b_count = 0,
     b_ptr = 0, b_size = 0, dirty = True \<rparr>"

lemma create_new_list: "binn_create_list True = Some new_list"
  by (simp add: binn_create_list_def binn_create_def new_list_def)

lemma new_list_pow: "buffer_pow new_list"
proof -
  have "length (pbuf new_list) = 2 ^ 8" by (simp add: new_list_def)
  then show ?thesis unfolding buffer_pow_def buffer_ok_def by (auto simp: new_list_def intro: exI [of _ 8])
qed

lemma serialised_list:
  assumes "list_holds is item"
  shows "\<exists>encs. binn_serialised item = container BINN_LIST (length is) (concat encs) \<and> list_all2 reads_as encs is \<and>
    container_size (length is) (concat encs) < 2 ^ 31"
proof -
  obtain encs where encs: "payload item = concat encs" "list_all2 reads_as encs is"
    using assms by (auto simp: list_holds_def)
  have ok: "buffer_ok item" "dirty item" "b_type item = BINN_LIST" "b_count item = length is"
    using assms by (auto simp: list_holds_def)
  have "header_size (length is) (concat encs) \<le> 9" by (simp add: header_size_def length_size_bytes)
  moreover have "length (concat encs) = used_size item - 9"
    using ok(1) encs(1) [symmetric] by (simp add: payload_def buffer_ok_def)
  ultimately have "container_size (length is) (concat encs) \<le> used_size item"
    using ok(1) by (simp add: container_size_ge(3) buffer_ok_def)
  then have "container_size (length is) (concat encs) < 2 ^ 31" using ok(1) by (simp add: buffer_ok_def)
  moreover have "binn_serialised item = container BINN_LIST (length is) (concat encs)"
    using serialised_container [OF ok(1,2)] ok(3,4) encs(1) by simp
  ultimately show ?thesis using encs(2) by blast
qed

text \<open>A list of n bytes at p: loading it, walking through it and counting it.\<close>

definition list_read_as :: "bytes \<Rightarrow> nat \<Rightarrow> nat \<Rightarrow> binn_item list \<Rightarrow> bool" where
  "list_read_as m p n is \<longleftrightarrow>
     (\<exists>v. binn_load m p = Some (Some v) \<and> v_type v = BINN_LIST \<and> v_count v = length is \<and> v_size v = n \<and> v_ptr v = In_buffer p) \<and>
     (\<exists>vs. binn_list_foreach m p = Some vs \<and> map (decode m) vs = map Some is) \<and>
     mdv_binn_list_length m p = Some (length is)"

lemma serialised_read_as:
  assumes "list_holds is item" "4 \<le> length (binn_serialised item @ post)"
  shows "list_read_as (pre @ binn_serialised item @ post) (length pre) (length (binn_serialised item)) is"
proof -
  let ?m = "pre @ binn_serialised item @ post"
  from serialised_list [OF assms(1)] obtain encs where
    ser: "binn_serialised item = container BINN_LIST (length is) (concat encs)"
      "list_all2 reads_as encs is" "container_size (length is) (concat encs) < 2 ^ 31" by blast
  have at: "holds_at ?m (length pre) (container BINN_LIST (length is) (concat encs))"
    unfolding ser(1) [symmetric] by (rule holds_at_mid)
  from foreach_run [OF ser(2) at ser(3)] obtain vs where
    vs: "binn_list_foreach ?m (length pre) = Some vs" "decodes ?m vs is" by blast
  then have "map (decode ?m) vs = map Some is"
    by (simp add: decodes_def list_all2_conv_all_nth list_eq_iff_nth_eq)
  moreover have "length vs = length is" using vs(2) by (auto simp: decodes_def dest: list_all2_lengthD)
  moreover have "container_size (length is) (concat encs) = length (binn_serialised item)"
    by (simp add: ser(1) length_container)
  ultimately show ?thesis
    using load_run [OF ser(2) at ser(3)] assms(2) vs(1)
    by (simp add: list_read_as_def mdv_binn_list_length_def)
qed

text \<open>An empty list is shorter than the word by which loading tells a structure from a buffer.\<close>

lemma short_list_unloaded:
  assumes "list_holds is item" "length (binn_serialised item @ post) < 4"
  shows "is = []" "binn_load (pre @ binn_serialised item @ post) (length pre) = None"
proof -
  from serialised_list [OF assms(1)] obtain encs where
    ser: "binn_serialised item = container BINN_LIST (length is) (concat encs)" "list_all2 reads_as encs is" by blast
  have "length is \<le> length (concat encs)" by (rule concat_length [OF ser(2)])
  moreover have "length (concat encs) + 3 \<le> length (binn_serialised item)"
    by (simp add: ser(1) length_container container_size_ge(3)) (simp add: header_size_def length_size_bytes)
  ultimately have "length is = 0" using assms(2) unfolding length_append by linarith
  then show "is = []" by simp
  show "binn_load (pre @ binn_serialised item @ post) (length pre) = None"
    using assms(2) by (simp add: binn_load_def binn_get_ptr_type_def rds_def)
qed

text \<open>
  C12. Lists survive serialisation: whatever reallocations fail, a list to which
  every argument was added is, wherever its bytes are put in memory, loaded with
  the right type, count and size, and walking through it yields exactly the
  arguments, integers by value and nested containers by their bytes, without a
  read outside the memory. The one exception is an empty list within the last
  three bytes of the memory: loading reads a fourth byte and so outside the
  memory. The additions succeed if the reallocations do and the list stays below
  a gigabyte.
\<close>

theorem binn_list_roundtrip:
  assumes "\<forall>a \<in> snd ` set calls. arg_wf a"
  shows "(\<forall>item pre post. add_all calls new_list = Some (True, item) \<longrightarrow>
      (if 4 \<le> length (binn_serialised item @ post)
       then list_read_as (pre @ binn_serialised item @ post) (length pre) (length (binn_serialised item))
         (map (arg_item \<circ> snd) calls)
       else calls = [] \<and> binn_load (pre @ binn_serialised item @ post) (length pre) = None)) \<and>
    ((\<forall>ok \<in> fst ` set calls. ok) \<and> 9 + (\<Sum>(ok, a) \<leftarrow> calls. arg_room a) \<le> 2 ^ 30 \<longrightarrow>
      (\<exists>item. add_all calls new_list = Some (True, item)))"
proof (intro conjI allI impI; (elim conjE)?)
  fix item pre post
  assume add: "add_all calls new_list = Some (True, item)"
  have holds: "list_holds (map (arg_item \<circ> snd) calls) item"
    using add_all_holds [OF add new_list_holds [OF create_new_list] assms] by simp
  show "if 4 \<le> length (binn_serialised item @ post)
       then list_read_as (pre @ binn_serialised item @ post) (length pre) (length (binn_serialised item))
         (map (arg_item \<circ> snd) calls)
       else calls = [] \<and> binn_load (pre @ binn_serialised item @ post) (length pre) = None"
    using serialised_read_as [OF holds, of post pre] short_list_unloaded(1) [OF holds, of post] short_list_unloaded(2) [OF holds, of post pre]
    by auto
next
  assume "\<forall>ok \<in> fst ` set calls. ok" "9 + (\<Sum>(ok, a) \<leftarrow> calls. arg_room a) \<le> 2 ^ 30"
  with assms show "\<exists>item. add_all calls new_list = Some (True, item)"
    by (intro add_all_some new_list_pow) (auto simp: new_list_def)
qed

lemma binn_list_roundtrip_witness:
  "\<exists>item vs. add_all [(True, Arg_int32 300), (True, Arg_str [104, 105]), (True, Arg_blob None), (True, Arg_bool 1)] new_list =
      Some (True, item) \<and> binn_list_foreach ([9, 9] @ binn_serialised item @ [0]) 2 = Some vs \<and>
    map (decode ([9, 9] @ binn_serialised item @ [0])) vs =
      [Some (Item_int 300), Some (Item_string [104, 105]), Some (Item_blob []), Some (Item_bool True)]"
proof -
  let ?calls = "[(True, Arg_int32 300), (True, Arg_str [104, 105]), (True, Arg_blob None), (True, Arg_bool 1)]"
  have wf: "\<forall>a \<in> snd ` set ?calls. arg_wf a" by simp
  obtain item where item: "add_all ?calls new_list = Some (True, item)"
    using binn_list_roundtrip [OF wf] by auto
  have "4 \<le> length (binn_serialised item @ [0])"
  proof -
    have "list_holds (map (arg_item \<circ> snd) ?calls) item"
      using add_all_holds [OF item new_list_holds [OF create_new_list] wf] by simp
    from serialised_list [OF this] container_size_ge(1) show ?thesis by (auto simp: length_container)
  qed
  with binn_list_roundtrip [OF wf, THEN conjunct1, rule_format, of item "[0]" "[9, 9]"] item
  show ?thesis by (auto simp: list_read_as_def numeral_2_eq_2 simp del: add_all.simps)
qed

end
