(* ===== verification/Mdv_Binn_Value.thy ===== *)
theory Mdv_Binn_Value
  imports Mdv_Binn_List
begin

text \<open>
  Reading a value of a container as an integer, a floating-point number or a
  truth value (the conversions at the end of mdv_thirdparty/binn/binn.c). The
  machine's floating-point operations are an argument: bit patterns in, bit
  patterns or integers out.
\<close>

record float_ops =
  f32_to_f64 :: "u32 \<Rightarrow> u64"
  f64_to_f32 :: "u64 \<Rightarrow> u32"
  f64_of_int :: "int \<Rightarrow> u64"
  f64_nonzero :: "u64 \<Rightarrow> bool"
  f32_within :: "int \<Rightarrow> int \<Rightarrow> u32 \<Rightarrow> bool"
  f64_within :: "int \<Rightarrow> int \<Rightarrow> u64 \<Rightarrow> bool"
  f64_roundval :: "u64 \<Rightarrow> int"
  c_atof :: "bytes \<Rightarrow> u64"
  c_atoi :: "bytes \<Rightarrow> int"

definition copy_int_value :: "bytes \<Rightarrow> int \<Rightarrow> int \<Rightarrow> int option option" where
  "copy_int_value psource source_type dest_type =
     (if int_type source_type = Not_an_int then Some None
      else do {
        v \<leftarrow> read_int source_type psource;
        Some (if int_type source_type = BINN_UNSIGNED_INT \<and> int_type dest_type = BINN_SIGNED_INT \<and> v > 2 ^ 63 - 1 then None
          else if int_type source_type = BINN_SIGNED_INT \<and> int_type dest_type = BINN_UNSIGNED_INT \<and> v < 0 then None
          else if int_type dest_type = Not_an_int \<or> \<not> in_range dest_type v then None
          else Some v)
      })"

text \<open>The string a value points to, up to its terminator.\<close>

definition value_str :: "bytes \<Rightarrow> binn_value \<Rightarrow> bytes option" where
  "value_str m v = (case v_ptr v of
     In_buffer q \<Rightarrow> if 0 \<in> set (drop q m) then Some (takeWhile (\<lambda>b. b \<noteq> 0) (drop q m)) else None
   | _ \<Rightarrow> None)"

abbreviation (input) is_digit :: "u8 \<Rightarrow> bool" where "is_digit b \<equiv> 48 \<le> b \<and> b \<le> 57"

definition skip_minus :: "bytes \<Rightarrow> bytes" where
  "skip_minus s = (case s of [] \<Rightarrow> [] | b # t \<Rightarrow> if b = 45 then t else s)"

definition is_integer :: "bytes \<Rightarrow> bool" where
  "is_integer s = (skip_minus s \<noteq> [] \<and> list_all is_digit (skip_minus s))"

text \<open>Every separator but a leading one is accepted.\<close>

primrec is_float_loop :: "bytes \<Rightarrow> bool \<Rightarrow> bool \<Rightarrow> bool" where
  "is_float_loop [] number_found retval = retval"
| "is_float_loop (b # s) number_found retval =
     (if b = 46 \<or> b = 44 then is_float_loop s number_found (retval \<and> number_found)
      else if is_digit b then is_float_loop s True retval
      else False)"

definition is_float :: "bytes \<Rightarrow> bool" where
  "is_float s = (skip_minus s \<noteq> [] \<and> is_float_loop (skip_minus s) False True)"

definition atoi64 :: "bytes \<Rightarrow> int" where
  "atoi64 s = (let n = foldl (\<lambda>n b. 10 * n + (uint b - 48)) 0 (skip_minus s) in if skip_minus s = s then n else - n)"

definition lower :: "u8 \<Rightarrow> u8" where
  "lower b = (if 65 \<le> b \<and> b \<le> 90 then b + 32 else b)"

definition stricmp :: "bytes \<Rightarrow> string \<Rightarrow> bool" where
  "stricmp s word \<longleftrightarrow> map lower s = map of_char word"

definition is_bool_str :: "float_ops \<Rightarrow> bytes \<Rightarrow> bool option" where
  "is_bool_str fp s =
     (if stricmp s ''true'' \<or> stricmp s ''yes'' \<or> stricmp s ''on'' then Some True
      else if stricmp s ''false'' \<or> stricmp s ''no'' \<or> stricmp s ''off'' then Some False
      else if is_integer s then Some (atoi64 s \<noteq> 0)
      else if is_float s then Some (f64_nonzero fp (c_atof fp s))
      else None)"

definition vfloat :: "binn_value \<Rightarrow> u32" where "vfloat v = le_word (take 4 (v_union v))"
definition vdouble :: "binn_value \<Rightarrow> u64" where "vdouble v = le_word (take 8 (v_union v))"
definition vbool :: "binn_value \<Rightarrow> bool" where "vbool v = (le_value (take 4 (v_union v)) \<noteq> 0)"

text \<open>An integer within the given bounds out of a value that is not of an integer type.\<close>

definition other_int :: "float_ops \<Rightarrow> (bytes \<Rightarrow> int) \<Rightarrow> int \<Rightarrow> int \<Rightarrow> bytes \<Rightarrow> binn_value \<Rightarrow> int option option" where
  "other_int fp parse lo hi m v =
     (if v_type v = BINN_FLOAT32 then
        Some (if f32_within fp lo hi (vfloat v) then Some (f64_roundval fp (f32_to_f64 fp (vfloat v))) else None)
      else if v_type v = BINN_FLOAT64 then
        Some (if f64_within fp lo hi (vdouble v) then Some (f64_roundval fp (vdouble v)) else None)
      else if v_type v = BINN_STRING then
        map_option (\<lambda>s. if is_integer s then Some (parse s)
          else if is_float s then Some (f64_roundval fp (c_atof fp s)) else None) (value_str m v)
      else if v_type v = BINN_BOOL then Some (Some (of_bool (vbool v)))
      else Some None)"

definition int_of_value :: "int \<Rightarrow> bytes \<Rightarrow> binn_value \<Rightarrow> int option option" where
  "int_of_value dest_type m v = do {
     bs \<leftarrow> value_mem m v (int_width (v_type v));
     copy_int_value bs (v_type v) dest_type
   }"

definition binn_get_int32 :: "float_ops \<Rightarrow> bytes \<Rightarrow> binn_value \<Rightarrow> int option option" where
  "binn_get_int32 fp m v =
     (if type_family (v_type v) = BINN_FAMILY_INT then int_of_value BINN_INT32 m v
      else other_int fp (c_atoi fp) (- (2 ^ 31)) (2 ^ 31 - 1) m v)"

definition binn_get_int64 :: "float_ops \<Rightarrow> bytes \<Rightarrow> binn_value \<Rightarrow> int option option" where
  "binn_get_int64 fp m v =
     (if type_family (v_type v) = BINN_FAMILY_INT then int_of_value BINN_INT64 m v
      else other_int fp atoi64 (- (2 ^ 63)) (2 ^ 63 - 1) m v)"

definition binn_get_double :: "float_ops \<Rightarrow> bytes \<Rightarrow> binn_value \<Rightarrow> u64 option option" where
  "binn_get_double fp m v =
     (if type_family (v_type v) = BINN_FAMILY_INT then map_option (map_option (f64_of_int fp)) (int_of_value BINN_INT64 m v)
      else if v_type v = BINN_FLOAT32 then Some (Some (f32_to_f64 fp (vfloat v)))
      else if v_type v = BINN_FLOAT64 then Some (Some (vdouble v))
      else if v_type v = BINN_STRING then
        map_option (\<lambda>s. if is_integer s then Some (f64_of_int fp (atoi64 s))
          else if is_float s then Some (c_atof fp s) else None) (value_str m v)
      else if v_type v = BINN_BOOL then Some (Some (f64_of_int fp (of_bool (vbool v))))
      else Some None)"

definition binn_get_bool :: "float_ops \<Rightarrow> bytes \<Rightarrow> binn_value \<Rightarrow> bool option option" where
  "binn_get_bool fp m v =
     (if type_family (v_type v) = BINN_FAMILY_INT then map_option (map_option (\<lambda>i. i \<noteq> 0)) (int_of_value BINN_INT64 m v)
      else if v_type v = BINN_BOOL then Some (Some (vbool v))
      else if v_type v = BINN_FLOAT32 then Some (Some (f64_nonzero fp (f32_to_f64 fp (vfloat v))))
      else if v_type v = BINN_FLOAT64 then Some (Some (f64_nonzero fp (vdouble v)))
      else if v_type v = BINN_STRING then map_option (is_bool_str fp) (value_str m v)
      else Some None)"


section \<open>What the conversions yield\<close>

lemma get_int_decoded:
  assumes "decode m v = Some (Item_int i)" "type_family (v_type v) = BINN_FAMILY_INT"
  shows "binn_get_int32 fp m v = Some (if in_range BINN_INT32 i then Some i else None)"
    "binn_get_int64 fp m v = Some (if i < 2 ^ 63 then Some i else None)"
proof -
  have t: "v_type v \<in> int_types" using assms(2) by (simp add: type_family_int)
  obtain bs where bs: "value_mem m v (int_width (v_type v)) = Some bs" "read_int (v_type v) bs = Some i"
    using assms by (auto simp: decode_def bind_eq_Some_conv)
  have range: "in_range (v_type v) i" using bs(2) by (simp add: read_int_iff)
  have int: "int_type (v_type v) \<noteq> Not_an_int" using t by (auto simp: int_types_def int_type_def)
  have lo: "- (2 ^ 63) \<le> i"
    using range t unfolding int_types_def by (elim insertE emptyE) (simp_all add: in_range_def int_type_def int_width_def)
  have dest: "int_type BINN_INT32 = BINN_SIGNED_INT" "int_type BINN_INT64 = BINN_SIGNED_INT"
    "in_range BINN_INT32 i \<Longrightarrow> i < 2 ^ 63" "in_range BINN_INT64 i \<longleftrightarrow> i < 2 ^ 63"
    using lo by (auto simp: int_type_def in_range_def int_width_def)
  show "binn_get_int32 fp m v = Some (if in_range BINN_INT32 i then Some i else None)"
    "binn_get_int64 fp m v = Some (if i < 2 ^ 63 then Some i else None)"
    using assms(2) bs int dest
    by (auto simp: binn_get_int32_def binn_get_int64_def int_of_value_def copy_int_value_def)
qed

text \<open>Values read from a container keep truth values and floating-point numbers in their union;
  strings and containers stay where they are.\<close>

definition value_ok :: "binn_value \<Rightarrow> bool" where
  "value_ok v \<longleftrightarrow> length (v_union v) = 8 \<and> (v_type v \<in> {BINN_BOOL, BINN_FLOAT32, BINN_FLOAT64} \<longrightarrow> v_ptr v = In_union) \<and>
     (v_type v \<in> {BINN_STRING, BINN_LIST, BINN_MAP, BINN_OBJECT} \<longrightarrow> (\<exists>q. v_ptr v = In_buffer q))"

lemma get_decoded:
  assumes "value_ok v"
  shows "decode m v = Some (Item_bool b) \<Longrightarrow> binn_get_bool fp m v = Some (Some b)"
    "decode m v = Some (Item_double bs) \<Longrightarrow> binn_get_double fp m v = Some (Some (le_word bs))"
    "decode m v = Some (Item_float bs) \<Longrightarrow> binn_get_double fp m v = Some (Some (f32_to_f64 fp (le_word bs)))"
  using assms
  by (auto simp: decode_def bind_eq_Some_conv value_ok_def value_mem_def rds_def subarray_def binn_get_bool_def binn_get_double_def type_family_def
      vbool_def vfloat_def vdouble_def split: if_splits)

lemma decode_family:
  "decode m v = Some (Item_int i) \<Longrightarrow> type_family (v_type v) = BINN_FAMILY_INT"
  by (auto simp: decode_def bind_eq_Some_conv split: if_splits)

lemma length_rds: "rds m p n = Some bs \<Longrightarrow> length bs = n"
  by (auto simp: rds_def split: if_splits)

lemma get_storage_ok:
  assumes "get_storage m st p2 p v = Some (Some v')" "length (v_union v) = 8"
  shows "v_type v' = v_type v \<and> length (v_union v') = 8 \<and> (st \<in> {BINN_STORAGE_DWORD, BINN_STORAGE_QWORD} \<longrightarrow> v_ptr v' = In_union) \<and>
    (st \<in> {BINN_STORAGE_STRING, BINN_STORAGE_CONTAINER} \<longrightarrow> (\<exists>q. v_ptr v' = In_buffer q))"
  using assms by (auto simp: get_storage_def set_union_def split: if_splits dest!: length_rds)

lemma long_type:
  assumes "b AND 0x10 \<noteq> (0 :: u8)"
  shows "push_bit 8 (uint b) OR uint c \<ge> 0x1000" "push_bit 8 (uint b) OR uint (c :: u8) \<le> 0xFFFF"
proof -
  have "bit b 4" using assms and_exp_eq_0_iff_not_bit [of b 4] by simp
  then have "bit (uint b) 4" by (simp add: bit_uint_iff)
  then have "uint b \<ge> 16" by (rule_tac ccontr) (simp add: bit_iff_odd)
  moreover have "push_bit 8 (uint b) \<le> push_bit 8 (uint b) OR uint c" by (rule or_greater_eq) simp
  ultimately show "push_bit 8 (uint b) OR uint c \<ge> 0x1000" by (simp add: push_bit_eq_mult)
  have "push_bit 8 (uint b) < 2 ^ 16" "uint c < 2 ^ 16"
    using unsigned_less [of b, where ?'a = int] unsigned_less [of c, where ?'a = int] by (simp_all add: push_bit_eq_mult)
  then have "push_bit 8 (uint b) OR uint c < 2 ^ 16" by (intro OR_upper) simp_all
  then show "push_bit 8 (uint b) OR uint c \<le> 0xFFFF" by simp
qed

lemma value_ok_get: "GetValue m p = Some (Some v) \<Longrightarrow> value_ok v"
proof -
  assume get: "GetValue m p = Some (Some v)"
  then obtain byte t q w where byte: "rd m p = Some byte" and t: "value_type m p byte = Some (t, q)"
    and w: "get_storage m (uint byte AND 0xE0) p q
       \<lparr> v_type = t, v_ptr = Null_value, v_size = 0, v_count = 0, v_union = replicate 8 0 \<rparr> = Some (Some w)"
    and v: "v = convert_value w"
    by (auto simp: GetValue_def bind_eq_Some_conv)
  from get_storage_ok [OF w] have ok: "v_type w = t" "length (v_union w) = 8"
    "uint byte AND 0xE0 \<in> {BINN_STORAGE_DWORD, BINN_STORAGE_QWORD} \<longrightarrow> v_ptr w = In_union"
    "uint byte AND 0xE0 \<in> {BINN_STORAGE_STRING, BINN_STORAGE_CONTAINER} \<longrightarrow> (\<exists>q. v_ptr w = In_buffer q)" by auto
  have "t \<noteq> BINN_BOOL \<and> (t \<in> {BINN_FLOAT32, BINN_FLOAT64, BINN_STRING, BINN_LIST, BINN_MAP, BINN_OBJECT} \<longrightarrow> t = uint byte)"
  proof (cases "byte AND 0x10 = 0")
    case True
    with t unsigned_less [of byte, where ?'a = int] show ?thesis by (auto simp: value_type_def)
  next
    case False
    then obtain b :: u8 where "t = push_bit 8 (uint byte) OR uint b" using t by (auto simp: value_type_def)
    with long_type [OF False, of b] show ?thesis by auto
  qed
  with ok show ?thesis by (auto simp: v convert_value_def value_ok_def set_union_def)
qed

lemma list_next_ok: "binn_list_next m it = Some (Some v, it') \<Longrightarrow> value_ok v"
  by (auto simp: binn_list_next_def Let_def bind_eq_Some_conv split: option.splits if_splits dest: value_ok_get)

lemma list_values_ok: "list_values n m it = Some vs \<Longrightarrow> v \<in> set vs \<Longrightarrow> value_ok v"
proof (induction n arbitrary: it vs)
  case (Suc n)
  from Suc.prems obtain v0 it' where next0: "binn_list_next m it = Some (Some v0, it')"
    by (auto simp: bind_eq_Some_conv split: option.splits)
  with Suc.prems(1) obtain ws where ws: "list_values n m it' = Some ws" "vs = v0 # ws" by auto
  with Suc.IH [OF ws(1)] list_next_ok [OF next0] Suc.prems(2) show ?case by auto
qed simp

lemma foreach_ok: "binn_list_foreach m p = Some vs \<Longrightarrow> v \<in> set vs \<Longrightarrow> value_ok v"
  by (auto simp: binn_list_foreach_def bind_eq_Some_conv simp del: list_values.simps intro: list_values_ok)

end
