(* ===== verification/Mdv_Bitset.thy ===== *)
theory Mdv_Bitset
  imports Mdv_Prelude
begin

text \<open>
  The bit set of \<^verbatim>\<open>mdv_platform/generic/mdv_bitset.c\<close>: 32-bit words addressed by
  position. An access outside the allocated words has no result (None). The bit
  operations are related to a set of positions.
\<close>

record mdv_bitset =
  bs_rc :: int
  bs_size :: nat
  bs_bits :: "u32 list"

definition mdv_bitset_capacity_calc :: "nat \<Rightarrow> nat" where
  "mdv_bitset_capacity_calc n = 32 * ((n + 32 - 1) div 32)"

definition mdv_bitset_capacity :: "mdv_bitset \<Rightarrow> nat" where
  "mdv_bitset_capacity b = mdv_bitset_capacity_calc (bs_size b)"

text \<open>\<^verbatim>\<open>memset\<close> over capacity / 8 bytes: every word of the capacity.\<close>

definition mdv_bitset_fill :: "bool \<Rightarrow> mdv_bitset \<Rightarrow> mdv_bitset" where
  "mdv_bitset_fill val b = b \<lparr> bs_bits := blit (bs_bits b) 0
     (replicate (mdv_bitset_capacity b div 32) (if val then - 1 else 0)) \<rparr>"

definition mdv_bitset_create :: "bool \<Rightarrow> u32 \<Rightarrow> nat \<Rightarrow> mdv_bitset option" where
  "mdv_bitset_create ok junk n =
     (if ok then Some (mdv_bitset_fill False
        \<lparr> bs_rc = 1, bs_size = n, bs_bits = replicate (mdv_bitset_capacity_calc n div 8 div 4) junk \<rparr>)
      else None)"

definition mdv_bitset_retain :: "mdv_bitset \<Rightarrow> mdv_bitset" where
  "mdv_bitset_retain b = b \<lparr> bs_rc := bs_rc b + 1 \<rparr>"

definition mdv_bitset_release :: "mdv_bitset \<Rightarrow> mdv_bitset option" where
  "mdv_bitset_release b = (let rc = bs_rc b - 1 in if rc = 0 then None else Some (b \<lparr> bs_rc := rc \<rparr>))"

definition mdv_bitset_set :: "nat \<Rightarrow> mdv_bitset \<Rightarrow> (bool \<times> mdv_bitset) option" where
  "mdv_bitset_set pos b =
     (let n = pos div 32; offs = pos mod 32 in
      if n \<ge> length (bs_bits b) then None
      else if drop_bit offs (bs_bits b ! n) AND 1 \<noteq> 0 then Some (False, b)
      else Some (True, b \<lparr> bs_bits := (bs_bits b)[n := bs_bits b ! n OR push_bit offs 1] \<rparr>))"

definition mdv_bitset_reset :: "nat \<Rightarrow> mdv_bitset \<Rightarrow> mdv_bitset option" where
  "mdv_bitset_reset pos b =
     (let n = pos div 32; offs = pos mod 32 in
      if n \<ge> length (bs_bits b) then None
      else Some (b \<lparr> bs_bits := (bs_bits b)[n := bs_bits b ! n AND NOT (push_bit offs 1)] \<rparr>))"

text \<open>A null bit set selects every position.\<close>

definition mdv_bitset_test :: "mdv_bitset option \<Rightarrow> nat \<Rightarrow> bool option" where
  "mdv_bitset_test bs pos =
     (case bs of
        None \<Rightarrow> Some True
      | Some b \<Rightarrow>
          let n = pos div 32; offs = pos mod 32 in
          if n \<ge> length (bs_bits b) then None
          else Some (drop_bit offs (bs_bits b ! n) AND 1 \<noteq> 0))"

primrec count_loop :: "mdv_bitset \<Rightarrow> bool \<Rightarrow> nat \<Rightarrow> nat" where
  "count_loop b val 0 = 0"
| "count_loop b val (Suc i) = count_loop b val i + (if mdv_bitset_test (Some b) i = Some val then 1 else 0)"

definition mdv_bitset_count :: "mdv_bitset \<Rightarrow> bool \<Rightarrow> nat" where
  "mdv_bitset_count b val = count_loop b val (bs_size b)"


section \<open>The positions a bit set holds\<close>

definition bs_wf :: "mdv_bitset \<Rightarrow> bool" where
  "bs_wf b \<longleftrightarrow> length (bs_bits b) = mdv_bitset_capacity b div 32"

definition bs_set :: "mdv_bitset \<Rightarrow> nat set" where
  "bs_set b = {pos. pos < 32 * length (bs_bits b) \<and> bit (bs_bits b ! (pos div 32)) (pos mod 32)}"

lemma capacity_bounds:
  "n \<le> mdv_bitset_capacity_calc n" "mdv_bitset_capacity_calc n < n + 32"
  "mdv_bitset_capacity_calc n mod 32 = 0" "mdv_bitset_capacity_calc n div 8 div 4 = mdv_bitset_capacity_calc n div 32"
  unfolding mdv_bitset_capacity_calc_def by (simp_all add: div_mult2_eq [symmetric])

lemma shifted_bit: "drop_bit n w AND 1 \<noteq> 0 \<longleftrightarrow> bit (w :: u32) n"
  by (simp add: and_one_eq odd_iff_mod_2_eq_one bit_iff_odd_drop_bit)

lemma single_bit: "m < 32 \<Longrightarrow> bit (push_bit n 1 :: u32) m \<longleftrightarrow> n = m"
  by (auto simp: bit_simps)

lemma word_pos: "pos < 32 * n \<longleftrightarrow> pos div 32 < (n :: nat)"
  by (simp add: div_less_iff_less_mult mult.commute)

lemma same_pos: "p div 32 = q div 32 \<Longrightarrow> p mod 32 = q mod 32 \<Longrightarrow> p = (q :: nat)"
  by (metis div_mult_mod_eq)

lemma test_run: "pos < 32 * length (bs_bits b) \<Longrightarrow> mdv_bitset_test (Some b) pos = Some (pos \<in> bs_set b)"
  by (simp add: mdv_bitset_test_def bs_set_def shifted_bit word_pos Let_def)

lemma set_run:
  assumes "pos < 32 * length (bs_bits b)"
  shows "\<exists>b'. mdv_bitset_set pos b = Some (pos \<notin> bs_set b, b') \<and> bs_set b' = insert pos (bs_set b) \<and>
    bs_size b' = bs_size b \<and> length (bs_bits b') = length (bs_bits b)"
proof (cases "pos \<in> bs_set b")
  case True
  then show ?thesis
    using assms by (auto simp: mdv_bitset_set_def bs_set_def shifted_bit word_pos Let_def)
next
  case False
  let ?b = "b \<lparr> bs_bits := (bs_bits b)[pos div 32 := bs_bits b ! (pos div 32) OR push_bit (pos mod 32) 1] \<rparr>"
  have "bs_set ?b = insert pos (bs_set b)"
    using assms same_pos [of _ pos]
    by (auto simp: bs_set_def word_pos nth_list_update bit_or_iff single_bit simp del: push_bit_of_1 split: if_splits)
  with False assms show ?thesis
    by (auto simp: mdv_bitset_set_def bs_set_def shifted_bit word_pos Let_def)
qed

lemma reset_run:
  assumes "pos < 32 * length (bs_bits b)"
  shows "\<exists>b'. mdv_bitset_reset pos b = Some b' \<and> bs_set b' = bs_set b - {pos} \<and>
    bs_size b' = bs_size b \<and> length (bs_bits b') = length (bs_bits b)"
proof -
  let ?b = "b \<lparr> bs_bits := (bs_bits b)[pos div 32 := bs_bits b ! (pos div 32) AND NOT (push_bit (pos mod 32) 1)] \<rparr>"
  have "bs_set ?b = bs_set b - {pos}"
    using assms same_pos [of _ pos]
    by (auto simp: bs_set_def word_pos nth_list_update bit_and_iff bit_not_iff single_bit simp del: push_bit_of_1 split: if_splits)
  with assms show ?thesis by (auto simp: mdv_bitset_reset_def word_pos Let_def)
qed

lemma count_run:
  assumes "bs_wf b"
  shows "mdv_bitset_count b True = card (bs_set b \<inter> {..<bs_size b})"
    "mdv_bitset_count b False = card ({..<bs_size b} - bs_set b)"
proof -
  have n: "bs_size b \<le> 32 * length (bs_bits b)"
    using capacity_bounds(1,3) [of "bs_size b"] assms by (auto simp: bs_wf_def mdv_bitset_capacity_def)
  have "k \<le> bs_size b \<Longrightarrow> count_loop b True k = card (bs_set b \<inter> {..<k})" for k
  proof (induction k)
    case (Suc k)
    have "bs_set b \<inter> {..<Suc k} = (if k \<in> bs_set b then insert k (bs_set b \<inter> {..<k}) else bs_set b \<inter> {..<k})"
      by (auto simp: less_Suc_eq)
    with Suc n show ?case by (simp add: test_run)
  qed simp
  then show "mdv_bitset_count b True = card (bs_set b \<inter> {..<bs_size b})"
    by (simp add: mdv_bitset_count_def)
  have "k \<le> bs_size b \<Longrightarrow> count_loop b False k = card ({..<k} - bs_set b)" for k
  proof (induction k)
    case (Suc k)
    have "{..<Suc k} - bs_set b = (if k \<in> bs_set b then {..<k} - bs_set b else insert k ({..<k} - bs_set b))"
      by (auto simp: less_Suc_eq)
    with Suc n show ?case by (simp add: test_run)
  qed simp
  then show "mdv_bitset_count b False = card ({..<bs_size b} - bs_set b)"
    by (simp add: mdv_bitset_count_def)
qed

lemma fill_run:
  assumes "bs_wf b"
  shows "bs_wf (mdv_bitset_fill val b)" "bs_set (mdv_bitset_fill val b) = (if val then {..<mdv_bitset_capacity b} else {})"
  using assms capacity_bounds(3) [of "bs_size b"]
  by (auto simp: bs_wf_def mdv_bitset_fill_def mdv_bitset_capacity_def bs_set_def blit_def word_pos)

lemma create_run:
  "\<exists>b. mdv_bitset_create True junk n = Some b \<and> bs_wf b \<and> bs_size b = n \<and> bs_set b = {}"
  using fill_run [of "\<lparr> bs_rc = 1, bs_size = n, bs_bits = replicate (mdv_bitset_capacity_calc n div 8 div 4) junk \<rparr>" False]
    capacity_bounds(4) [of n]
  by (auto simp: mdv_bitset_create_def bs_wf_def mdv_bitset_capacity_def mdv_bitset_fill_def)


section \<open>Refinement\<close>

datatype bit_op = Set nat | Reset nat | Fill bool

primrec bit_exec :: "bit_op \<Rightarrow> mdv_bitset \<Rightarrow> (bool option \<times> mdv_bitset) option" where
  "bit_exec (Set pos) b = map_option (map_prod Some (\<lambda>b. b)) (mdv_bitset_set pos b)"
| "bit_exec (Reset pos) b = map_option (Pair None) (mdv_bitset_reset pos b)"
| "bit_exec (Fill val) b = Some (None, mdv_bitset_fill val b)"

primrec bit_run :: "bit_op list \<Rightarrow> mdv_bitset \<Rightarrow> (bool option list \<times> mdv_bitset) option" where
  "bit_run [] b = Some ([], b)"
| "bit_run (c # cs) b = (case bit_exec c b of
     None \<Rightarrow> None
   | Some (r, b) \<Rightarrow> (case bit_run cs b of None \<Rightarrow> None | Some (rs, b) \<Rightarrow> Some (r # rs, b)))"

text \<open>The specification on sets of positions below the capacity cap.\<close>

primrec set_exec :: "nat \<Rightarrow> bit_op \<Rightarrow> nat set \<Rightarrow> bool option \<times> nat set" where
  "set_exec cap (Set pos) A = (Some (pos \<notin> A), insert pos A)"
| "set_exec cap (Reset pos) A = (None, A - {pos})"
| "set_exec cap (Fill val) A = (None, if val then {..<cap} else {})"

primrec set_run_all :: "nat \<Rightarrow> bit_op list \<Rightarrow> nat set \<Rightarrow> bool option list \<times> nat set" where
  "set_run_all cap [] A = ([], A)"
| "set_run_all cap (c # cs) A =
     (let (r, A) = set_exec cap c A; (rs, A) = set_run_all cap cs A in (r # rs, A))"

primrec bit_pos :: "bit_op \<Rightarrow> nat" where
  "bit_pos (Set pos) = pos"
| "bit_pos (Reset pos) = pos"
| "bit_pos (Fill val) = 0"

lemma bit_exec_refines:
  assumes "bs_wf b" "c = Fill val \<or> bit_pos c < mdv_bitset_capacity b"
  shows "\<exists>b'. bit_exec c b = Some (fst (set_exec (mdv_bitset_capacity b) c (bs_set b)), b') \<and> bs_wf b' \<and>
    bs_size b' = bs_size b \<and> bs_set b' = snd (set_exec (mdv_bitset_capacity b) c (bs_set b))"
proof -
  have len: "32 * length (bs_bits b) = mdv_bitset_capacity b"
    using assms(1) capacity_bounds(3) [of "bs_size b"] by (auto simp: bs_wf_def mdv_bitset_capacity_def)
  show ?thesis
  proof (cases c)
    case (Set pos)
    with assms len set_run [of pos b] show ?thesis
      by (auto simp: bs_wf_def mdv_bitset_capacity_def)
  next
    case (Reset pos)
    with assms len reset_run [of pos b] show ?thesis
      by (auto simp: bs_wf_def mdv_bitset_capacity_def)
  next
    case (Fill v)
    with assms(1) fill_run [OF assms(1), of v] show ?thesis by (auto simp: mdv_bitset_fill_def)
  qed
qed

text \<open>
  C31. Refinement: every sequence of set, reset and fill calls on positions below
  the capacity stays inside the allocated words, answers a set call by whether
  the position was new, and leaves the set of positions the specification has;
  testing and counting read that set.
\<close>

theorem bitset_refines_set:
  assumes "bs_wf b" "\<forall>c \<in> set cs. bit_pos c < mdv_bitset_capacity b"
  shows "\<exists>b'. bit_run cs b = Some (fst (set_run_all (mdv_bitset_capacity b) cs (bs_set b)), b') \<and>
    (let A = snd (set_run_all (mdv_bitset_capacity b) cs (bs_set b)) in
     (\<forall>pos < mdv_bitset_capacity b. mdv_bitset_test (Some b') pos = Some (pos \<in> A)) \<and>
     mdv_bitset_count b' True = card (A \<inter> {..<bs_size b}) \<and>
     mdv_bitset_count b' False = card ({..<bs_size b} - A))"
  using assms
proof (induction cs arbitrary: b)
  case Nil
  then have "32 * length (bs_bits b) = mdv_bitset_capacity b"
    using capacity_bounds(3) [of "bs_size b"] by (auto simp: bs_wf_def mdv_bitset_capacity_def)
  with Nil count_run [of b] test_run [of _ b] show ?case by simp
next
  case (Cons c cs)
  obtain b1 where b1: "bit_exec c b = Some (fst (set_exec (mdv_bitset_capacity b) c (bs_set b)), b1)" "bs_wf b1"
    "bs_size b1 = bs_size b" "bs_set b1 = snd (set_exec (mdv_bitset_capacity b) c (bs_set b))"
    using bit_exec_refines [OF Cons.prems(1), of c] Cons.prems(2) by auto
  then have cap: "mdv_bitset_capacity b1 = mdv_bitset_capacity b" by (simp add: mdv_bitset_capacity_def)
  from Cons.IH [OF b1(2)] Cons.prems(2) b1 cap show ?case
    by (auto simp: split_beta Let_def)
qed

lemma bitset_refines_set_witness:
  "\<exists>b'. bit_run [Set 33, Set 33, Reset 2] \<lparr> bs_rc = 1, bs_size = 40, bs_bits = replicate 2 0 \<rparr> =
      Some ([Some True, Some False, None], b') \<and>
    mdv_bitset_count b' True = 1"
proof -
  let ?b = "\<lparr> bs_rc = 1, bs_size = 40, bs_bits = replicate 2 0 \<rparr>"
  have cap: "mdv_bitset_capacity ?b = 64" by (simp add: mdv_bitset_capacity_def mdv_bitset_capacity_calc_def)
  have "bs_wf ?b" by (simp add: bs_wf_def cap)
  moreover have "bs_set ?b = {}" by (auto simp: bs_set_def word_pos)
  ultimately show ?thesis
    using bitset_refines_set [of ?b "[Set 33, Set 33, Reset 2]"] by (auto simp: cap Let_def)
qed

end
