(* ===== verification/Mdv_Row.thy ===== *)
theory Mdv_Row
  imports Mdv_Binn_Roundtrip Mdv_Binn_Value Mdv_Bitset
begin

text \<open>
  Rows as containers (mdv_types/mdv_serialization.c, mdv_types/mdv_field.c): a
  row becomes a list with one value per column, a single value, a blob or a
  nested list, and is read back column by column, all of them or those a bit set
  selects. The outcomes of the allocations are a list of truth values, one for
  each addition that may have to enlarge its buffer. Pointers that are not null are
  addresses of user memory. None is an access outside the memory.
\<close>

section \<open>Columns and rows\<close>

datatype mdv_field_type = MDV_FLD_TYPE_BOOL | MDV_FLD_TYPE_CHAR | MDV_FLD_TYPE_BYTE | MDV_FLD_TYPE_INT8
  | MDV_FLD_TYPE_UINT8 | MDV_FLD_TYPE_INT16 | MDV_FLD_TYPE_UINT16 | MDV_FLD_TYPE_INT32 | MDV_FLD_TYPE_UINT32
  | MDV_FLD_TYPE_INT64 | MDV_FLD_TYPE_UINT64 | MDV_FLD_TYPE_FLOAT | MDV_FLD_TYPE_DOUBLE | Unknown_type nat

fun mdv_field_type_size :: "mdv_field_type \<Rightarrow> nat" where
  "mdv_field_type_size MDV_FLD_TYPE_BOOL = 1"
| "mdv_field_type_size MDV_FLD_TYPE_CHAR = 1"
| "mdv_field_type_size MDV_FLD_TYPE_BYTE = 1"
| "mdv_field_type_size MDV_FLD_TYPE_INT8 = 1"
| "mdv_field_type_size MDV_FLD_TYPE_UINT8 = 1"
| "mdv_field_type_size MDV_FLD_TYPE_INT16 = 2"
| "mdv_field_type_size MDV_FLD_TYPE_UINT16 = 2"
| "mdv_field_type_size MDV_FLD_TYPE_INT32 = 4"
| "mdv_field_type_size MDV_FLD_TYPE_UINT32 = 4"
| "mdv_field_type_size MDV_FLD_TYPE_INT64 = 8"
| "mdv_field_type_size MDV_FLD_TYPE_UINT64 = 8"
| "mdv_field_type_size MDV_FLD_TYPE_FLOAT = 4"
| "mdv_field_type_size MDV_FLD_TYPE_DOUBLE = 8"
| "mdv_field_type_size (Unknown_type n) = 0"

text \<open>Names are C strings without their terminator.\<close>

record mdv_field =
  fld_type :: mdv_field_type
  fld_limit :: nat
  fld_name :: bytes

text \<open>
  What a description says of the table. Its flag \<^verbatim>\<open>dynamic_alloc\<close> is left out: only the functions
  that build a description field by field test it, and \<^verbatim>\<open>mdv_unbinn_table_desc\<close> does not set it.
\<close>

record mdv_table_desc =
  td_name :: bytes
  td_fields :: "mdv_field list"

record mdv_data =
  d_size :: nat
  d_ptr :: "bytes option"

type_synonym mdv_row = "mdv_data list"


section \<open>Writing a row\<close>

fun field_arg :: "mdv_field_type \<Rightarrow> (bytes \<Rightarrow> binn_arg) option" where
  "field_arg MDV_FLD_TYPE_BOOL = Some (\<lambda>bs. Arg_bool (if hd bs = 0 then 0 else 1))"
| "field_arg MDV_FLD_TYPE_CHAR = Some (\<lambda>bs. Arg_int8 (hd bs))"
| "field_arg MDV_FLD_TYPE_BYTE = Some (\<lambda>bs. Arg_int8 (hd bs))"
| "field_arg MDV_FLD_TYPE_INT8 = Some (\<lambda>bs. Arg_int8 (hd bs))"
| "field_arg MDV_FLD_TYPE_UINT8 = Some (\<lambda>bs. Arg_uint8 (hd bs))"
| "field_arg MDV_FLD_TYPE_INT16 = Some (\<lambda>bs. Arg_int16 (le_word (take 2 bs)))"
| "field_arg MDV_FLD_TYPE_UINT16 = Some (\<lambda>bs. Arg_uint16 (le_word (take 2 bs)))"
| "field_arg MDV_FLD_TYPE_INT32 = Some (\<lambda>bs. Arg_int32 (le_word (take 4 bs)))"
| "field_arg MDV_FLD_TYPE_UINT32 = Some (\<lambda>bs. Arg_uint32 (le_word (take 4 bs)))"
| "field_arg MDV_FLD_TYPE_INT64 = Some (\<lambda>bs. Arg_int64 (le_word (take 8 bs)))"
| "field_arg MDV_FLD_TYPE_UINT64 = Some (\<lambda>bs. Arg_uint64 (le_word (take 8 bs)))"
| "field_arg MDV_FLD_TYPE_FLOAT = Some (\<lambda>bs. Arg_float (le_word (take 4 bs)))"
| "field_arg MDV_FLD_TYPE_DOUBLE = Some (\<lambda>bs. Arg_double (le_word (take 8 bs)))"
| "field_arg (Unknown_type n) = None"

text \<open>The value is read through the pointer, null or not.\<close>

definition binn_add_to_list :: "bool \<Rightarrow> mdv_field_type \<Rightarrow> bytes option \<Rightarrow> binn \<Rightarrow> (bool \<times> binn) option" where
  "binn_add_to_list ok type data item =
     (case field_arg type of
        None \<Rightarrow> Some (False, item)
      | Some arg \<Rightarrow> (case data of
          None \<Rightarrow> None
        | Some bs \<Rightarrow> if length bs < mdv_field_type_size type then None else binn_list_add_arg ok (arg bs) item))"

definition next_ok :: "bool list \<Rightarrow> bool \<times> bool list" where
  "next_ok oks = (case oks of [] \<Rightarrow> (True, []) | ok # rest \<Rightarrow> (ok, rest))"

primrec add_elements ::
  "mdv_field_type \<Rightarrow> nat \<Rightarrow> bytes option \<Rightarrow> binn \<times> bool list \<Rightarrow> (bool \<times> binn \<times> bool list) option" where
  "add_elements type 0 data st = Some (True, st)"
| "add_elements type (Suc n) data st =
     (let (item, oks) = st; (ok, oks) = next_ok oks in do {
        (added, item) \<leftarrow> binn_add_to_list ok type data item;
        if added then add_elements type n (map_option (drop (mdv_field_type_size type)) data) (item, oks)
        else Some (False, item, oks)
      })"

definition add_with :: "binn_arg \<Rightarrow> binn \<times> bool list \<Rightarrow> (bool \<times> binn \<times> bool list) option" where
  "add_with a st = (let (item, oks) = st; (ok, oks) = next_ok oks in
     map_option (\<lambda>(added, item). (added, item, oks)) (binn_list_add_arg ok a item))"

text \<open>One column. A field that is null with a huge size, or larger than 16 MB, is taken for missing.\<close>

definition field_exists :: "mdv_data \<Rightarrow> bool" where
  "field_exists d = (case d_ptr d of None \<Rightarrow> d_size d \<le> 1000000 | Some _ \<Rightarrow> d_size d \<le> 0x1000000)"

definition add_array :: "mdv_field_type \<Rightarrow> nat \<Rightarrow> bytes option \<Rightarrow> binn \<times> bool list \<Rightarrow> (bool \<times> binn \<times> bool list) option" where
  "add_array type arr_size data st =
     (let (item, oks) = st; (ok, oks) = next_ok oks in
      case binn_create_list ok of
        None \<Rightarrow> Some (False, item, oks)
      | Some field_items \<Rightarrow> do {
          (added, field_items, oks) \<leftarrow> add_elements type arr_size data (field_items, oks);
          if added then add_with (Arg_list (binn_serialised field_items)) (item, oks) else Some (False, item, oks)
        })"

definition binn_row_field :: "mdv_field \<Rightarrow> mdv_data \<Rightarrow> binn \<times> bool list \<Rightarrow> (bool \<times> binn \<times> bool list) option" where
  "binn_row_field fld d st =
     (let field_type_size = mdv_field_type_size (fld_type fld);
          arr_size = d_size d div field_type_size;
          refused = Some (False, st)
      in if field_type_size = 0 then refused
      else if \<not> field_exists d then add_with (Arg_blob None) st
      else if d_size d mod field_type_size \<noteq> 0 then refused
      else if fld_limit fld \<noteq> 0 \<and> fld_limit fld < arr_size then refused
      else if fld_limit fld = 1 then
        (let (item, oks) = st; (ok, oks) = next_ok oks in
         map_option (\<lambda>(added, item). (added, item, oks)) (binn_add_to_list ok (fld_type fld) (d_ptr d) item))
      else if field_type_size = 1 then
        (case d_ptr d of
           None \<Rightarrow> add_with (Arg_blob None) st
         | Some bs \<Rightarrow> if arr_size = 0 then add_with (Arg_blob None) st
             else if length bs < arr_size then None
             else add_with (Arg_blob (Some (take arr_size bs))) st)
      else add_array (fld_type fld) arr_size (d_ptr d) st)"

fun binn_row_fields :: "mdv_field list \<Rightarrow> mdv_row \<Rightarrow> binn \<times> bool list \<Rightarrow> (bool \<times> binn \<times> bool list) option" where
  "binn_row_fields [] row st = Some (True, st)"
| "binn_row_fields (f # fs) [] st = None"
| "binn_row_fields (f # fs) (d # ds) st = do {
     (added, st) \<leftarrow> binn_row_field f d st;
     if added then binn_row_fields fs ds st else Some (False, st)
   }"

fun has_any_data :: "mdv_field list \<Rightarrow> mdv_row \<Rightarrow> bool option" where
  "has_any_data [] row = Some False"
| "has_any_data (f # fs) [] = None"
| "has_any_data (f # fs) (d # ds) = (if d_ptr d \<noteq> None \<and> d_size d > 0 then Some True else has_any_data fs ds)"

definition mdv_binn_row :: "bool list \<Rightarrow> mdv_row \<Rightarrow> mdv_table_desc \<Rightarrow> binn option option" where
  "mdv_binn_row oks row desc =
     (let (ok, oks) = next_ok oks in
      case binn_create_list ok of
        None \<Rightarrow> Some None
      | Some item \<Rightarrow> do {
          data \<leftarrow> has_any_data (td_fields desc) row;
          if \<not> data then Some None
          else do {
            (added, item, oks) \<leftarrow> binn_row_fields (td_fields desc) row (item, oks);
            Some (if added \<and> td_fields desc \<noteq> [] then Some item else None)
          }
        })"


section \<open>Reading a row\<close>

fun binn_get :: "float_ops \<Rightarrow> bytes \<Rightarrow> binn_value \<Rightarrow> mdv_field_type \<Rightarrow> bytes option option" where
  "binn_get fp m v MDV_FLD_TYPE_BOOL = map_option (map_option (\<lambda>b. [of_bool b])) (binn_get_bool fp m v)"
| "binn_get fp m v MDV_FLD_TYPE_CHAR = map_option (map_option (\<lambda>i. [of_int i])) (binn_get_int32 fp m v)"
| "binn_get fp m v MDV_FLD_TYPE_BYTE = map_option (map_option (\<lambda>i. [of_int i])) (binn_get_int32 fp m v)"
| "binn_get fp m v MDV_FLD_TYPE_INT8 = map_option (map_option (\<lambda>i. [of_int i])) (binn_get_int32 fp m v)"
| "binn_get fp m v MDV_FLD_TYPE_UINT8 = map_option (map_option (\<lambda>i. [of_int i])) (binn_get_int32 fp m v)"
| "binn_get fp m v MDV_FLD_TYPE_INT16 = map_option (map_option (\<lambda>i. le_bytes 2 (of_int i :: u16))) (binn_get_int32 fp m v)"
| "binn_get fp m v MDV_FLD_TYPE_UINT16 = map_option (map_option (\<lambda>i. le_bytes 2 (of_int i :: u16))) (binn_get_int32 fp m v)"
| "binn_get fp m v MDV_FLD_TYPE_INT32 = map_option (map_option (\<lambda>i. le_bytes 4 (of_int i :: u32))) (binn_get_int32 fp m v)"
| "binn_get fp m v MDV_FLD_TYPE_UINT32 = map_option (map_option (\<lambda>i. le_bytes 4 (of_int i :: u32))) (binn_get_int64 fp m v)"
| "binn_get fp m v MDV_FLD_TYPE_INT64 = map_option (map_option (\<lambda>i. le_bytes 8 (of_int i :: u64))) (binn_get_int64 fp m v)"
| "binn_get fp m v MDV_FLD_TYPE_UINT64 = map_option (map_option (\<lambda>i. le_bytes 8 (of_int i :: u64))) (binn_get_int64 fp m v)"
| "binn_get fp m v MDV_FLD_TYPE_FLOAT = map_option (map_option (\<lambda>d. le_bytes 4 (f64_to_f32 fp d))) (binn_get_double fp m v)"
| "binn_get fp m v MDV_FLD_TYPE_DOUBLE = map_option (map_option (\<lambda>d. le_bytes 8 d)) (binn_get_double fp m v)"
| "binn_get fp m v (Unknown_type n) = Some None"

text \<open>The elements of a value that is a list; of another value there are none. The address of a
  null value is null, and counting its elements would use an iterator that was never set.\<close>

definition value_elements :: "bytes \<Rightarrow> binn_value \<Rightarrow> (bytes \<times> binn_value list) option" where
  "value_elements m v = (case v_ptr v of
     Null_value \<Rightarrow> None
   | In_buffer q \<Rightarrow> map_option (Pair m) (binn_list_foreach m q)
   | In_union \<Rightarrow> map_option (Pair (v_union v)) (binn_list_foreach (v_union v) 0))"

definition field_bytes :: "bytes \<Rightarrow> mdv_field \<Rightarrow> binn_value \<Rightarrow> nat option" where
  "field_bytes m fld v =
     (let field_type_size = mdv_field_type_size (fld_type fld) in
      if fld_limit fld = 1 then Some field_type_size
      else if field_type_size = 1 then Some (v_size v)
      else map_option (\<lambda>(_, es). field_type_size * length es) (value_elements m v))"

fun calc_row_loop ::
  "bytes \<Rightarrow> mdv_field list \<Rightarrow> mdv_bitset option \<Rightarrow> nat \<Rightarrow> binn_value list \<Rightarrow> nat \<times> nat \<Rightarrow> (nat \<times> nat) option option" where
  "calc_row_loop m flds fmask n [] acc = Some (Some acc)"
| "calc_row_loop m flds fmask n (v # vs) (row_size, fields_count) =
     (if n \<ge> length flds then Some None
      else do {
        selected \<leftarrow> mdv_bitset_test fmask n;
        if \<not> selected then calc_row_loop m flds fmask (n + 1) vs (row_size, fields_count)
        else
          let fld = flds ! n; field_type_size = mdv_field_type_size (fld_type fld) in
          if field_type_size = 0 then Some None
          else do {
            bytes_of \<leftarrow> field_bytes m fld v;
            calc_row_loop m flds fmask (n + 1) vs (row_size + bytes_of, fields_count + 1)
          }
      })"

text \<open>The fixed part of a row entry, of each of its fields, and the padding.\<close>

abbreviation (input) row_overhead :: "nat \<Rightarrow> nat" where
  "row_overhead fields_count \<equiv> 32 + 16 * fields_count"

definition mdv_calc_row_size ::
  "bytes \<Rightarrow> nat \<Rightarrow> mdv_table_desc \<Rightarrow> mdv_bitset option \<Rightarrow> (nat \<times> nat) option option" where
  "mdv_calc_row_size m p desc fmask = do {
     valid \<leftarrow> binn_is_valid m p;
     if valid = None \<or> td_fields desc = [] then Some None
     else do {
       vs \<leftarrow> binn_list_foreach m p;
       r \<leftarrow> calc_row_loop m (td_fields desc) fmask 0 vs (0, 0);
       Some (map_option (\<lambda>(row_size, fields_count). (row_size + row_overhead fields_count + 16, fields_count)) r)
     }
   }"

primrec unbinn_elements ::
  "float_ops \<Rightarrow> bytes \<Rightarrow> mdv_field_type \<Rightarrow> nat \<Rightarrow> binn_value list \<Rightarrow> nat \<Rightarrow> bytes \<Rightarrow> bytes option option" where
  "unbinn_elements fp m type row_size [] dataspace out = Some (Some out)"
| "unbinn_elements fp m type row_size (e # es) dataspace out =
     (if dataspace + mdv_field_type_size type > row_size then Some None
      else do {
        r \<leftarrow> binn_get fp m e type;
        case r of None \<Rightarrow> Some None
        | Some bs \<Rightarrow> unbinn_elements fp m type row_size es (dataspace + mdv_field_type_size type) (out @ bs)
      })"

text \<open>One column: the field and how far the data space advances.\<close>

definition unbinn_field ::
  "float_ops \<Rightarrow> bytes \<Rightarrow> mdv_field \<Rightarrow> nat \<Rightarrow> nat \<Rightarrow> binn_value \<Rightarrow> (mdv_data \<times> nat) option option" where
  "unbinn_field fp m fld row_size dataspace v =
     (let field_type_size = mdv_field_type_size (fld_type fld) in
      if field_type_size = 0 then Some None
      else if fld_limit fld = 1 then
        (if dataspace + field_type_size > row_size then Some None
         else map_option (map_option (\<lambda>bs. (\<lparr> d_size = field_type_size, d_ptr = Some bs \<rparr>, dataspace + field_type_size)))
           (binn_get fp m v (fld_type fld)))
      else if field_type_size = 1 then
        (if dataspace + v_size v > row_size then Some None
         else if v_size v > 0 \<and> v_ptr v \<noteq> Null_value then
           map_option (\<lambda>bs. Some (\<lparr> d_size = v_size v, d_ptr = Some bs \<rparr>, dataspace + v_size v)) (value_mem m v (v_size v))
         else Some (Some (\<lparr> d_size = v_size v, d_ptr = None \<rparr>, dataspace)))
      else do {
        (em, es) \<leftarrow> (if v_ptr v = Null_value then Some (m, []) else value_elements m v);
        r \<leftarrow> unbinn_elements fp em (fld_type fld) row_size es dataspace [];
        Some (map_option (\<lambda>out. (\<lparr> d_size = field_type_size * length es, d_ptr = Some out \<rparr>,
          dataspace + field_type_size * length es)) r)
      })"

fun unbinn_loop ::
  "float_ops \<Rightarrow> bytes \<Rightarrow> mdv_field list \<Rightarrow> mdv_bitset option \<Rightarrow> nat \<Rightarrow> nat \<Rightarrow> binn_value list \<Rightarrow> nat \<Rightarrow> mdv_row option option" where
  "unbinn_loop fp m flds fmask row_size n [] dataspace = Some (Some [])"
| "unbinn_loop fp m flds fmask row_size n (v # vs) dataspace = do {
     selected \<leftarrow> mdv_bitset_test fmask n;
     if \<not> selected then unbinn_loop fp m flds fmask row_size (n + 1) vs dataspace
     else if n \<ge> length flds then None
     else do {
       r \<leftarrow> unbinn_field fp m (flds ! n) row_size dataspace v;
       case r of None \<Rightarrow> Some None
       | Some (d, dataspace) \<Rightarrow>
           map_option (map_option ((#) d)) (unbinn_loop fp m flds fmask row_size (n + 1) vs dataspace)
     }
   }"

definition mdv_unbinn_row_slice ::
  "float_ops \<Rightarrow> bool \<Rightarrow> bytes \<Rightarrow> nat \<Rightarrow> mdv_table_desc \<Rightarrow> mdv_bitset option \<Rightarrow> mdv_row option option" where
  "mdv_unbinn_row_slice fp ok m p desc fmask =
     (if td_fields desc = [] \<or> length (td_fields desc) > 1000 then Some None
      else do {
        sizes \<leftarrow> mdv_calc_row_size m p desc fmask;
        case sizes of
          None \<Rightarrow> Some None
        | Some (row_size, fields_count) \<Rightarrow>
            if row_size > 0x10000000 then Some None
            else do {
              list_len \<leftarrow> mdv_binn_list_length m p;
              if list_len = 0 \<or> fields_count = 0 \<or> \<not> ok then Some None
              else do {
                vs \<leftarrow> binn_list_foreach m p;
                unbinn_loop fp m (td_fields desc) fmask row_size 0 vs (row_overhead fields_count)
              }
            }
      })"

definition mdv_unbinn_row :: "float_ops \<Rightarrow> bool \<Rightarrow> bytes \<Rightarrow> nat \<Rightarrow> mdv_table_desc \<Rightarrow> mdv_row option option" where
  "mdv_unbinn_row fp ok m p desc = mdv_unbinn_row_slice fp ok m p desc None"

end
