(* ===== verification/Mdv_Binn_Object.thy ===== *)
theory Mdv_Binn_Object
  imports Mdv_Binn_Roundtrip Mdv_Binn_Value
begin

text \<open>
  Keyed containers of mdv_thirdparty/binn: objects with their search for a key,
  the functions that set a value under a key, and the reads by key with the
  conversions between types. Keys are C strings without their terminator and are
  compared without regard to case.
\<close>

section \<open>Searching for a key\<close>

text \<open>The comparison strnicmp of n bytes in memory with a terminated string, cut short at the first
  difference and after a common terminator.\<close>

fun strnicmp :: "bytes \<Rightarrow> nat \<Rightarrow> bytes \<Rightarrow> nat \<Rightarrow> bool option" where
  "strnicmp m p s 0 = Some True"
| "strnicmp m p [] (Suc n) = None"
| "strnicmp m p (c # s) (Suc n) = do {
     b \<leftarrow> rd m p;
     if lower b \<noteq> lower c then Some False else if b = 0 then Some True else strnicmp m (p + 1) s n
   }"

primrec search_key :: "nat \<Rightarrow> bytes \<Rightarrow> nat \<Rightarrow> nat \<Rightarrow> bytes \<Rightarrow> nat \<Rightarrow> nat option option" where
  "search_key 0 m base plimit key p = Some None"
| "search_key (Suc n) m base plimit key p = do {
     len \<leftarrow> rd m p;
     let len = unat len;
     let p = p + 1;
     if p > plimit then Some None
     else do {
       same \<leftarrow> (if len > 0 then strnicmp m p (key @ [0]) len else Some True);
       if same \<and> length key = len then Some (Some (p + len))
       else if len > 0 \<and> p + len > plimit then Some None
       else do {
         after \<leftarrow> AdvanceDataPos m plimit (p + len);
         case after of None \<Rightarrow> Some None
         | Some q \<Rightarrow> if q < base then Some None else search_key n m base plimit key q
       }
     }
   }"

definition SearchForKey :: "bytes \<Rightarrow> nat \<Rightarrow> nat \<Rightarrow> nat \<Rightarrow> nat \<Rightarrow> bytes \<Rightarrow> nat option option" where
  "SearchForKey m p header_size0 size0 numitems key = search_key numitems m p (p + size0 - 1) key (p + header_size0)"


section \<open>Writing\<close>

text \<open>The outcomes of the two reallocations, for the key and for the value, come as a pair.\<close>

definition put_key :: "bytes \<Rightarrow> binn \<Rightarrow> binn" where
  "put_key key item = item \<lparr> pbuf := blit (pbuf item) (used_size item) (of_nat (length key) # key),
     used_size := used_size item + (1 + length key) \<rparr>"

definition binn_object_set_raw ::
  "bool \<times> bool \<Rightarrow> bytes \<Rightarrow> int \<Rightarrow> bytes option \<Rightarrow> int \<Rightarrow> binn \<Rightarrow> (bool \<times> binn) option" where
  "binn_object_set_raw oks key type pvalue size0 item =
     (if b_type item \<noteq> BINN_OBJECT \<or> length key > 255 then Some (False, item)
      else do {
        found \<leftarrow> SearchForKey (pbuf item) 0 MAX_BINN_HEADER (used_size item) (b_count item) key;
        if found \<noteq> None then Some (False, item)
        else do {
          (room, item) \<leftarrow> CheckAllocation (fst oks) (1 + length key) item;
          if \<not> room then Some (False, item)
          else do {
            (added, item) \<leftarrow> AddValue (snd oks) type pvalue size0 (put_key key item);
            Some (if added then (True, item \<lparr> b_count := b_count item + 1 \<rparr>)
                  else (False, item \<lparr> used_size := used_size item - (1 + length key) \<rparr>))
          }
        }
      })"

definition binn_object_set ::
  "bool \<times> bool \<Rightarrow> bytes \<Rightarrow> int \<Rightarrow> bytes option \<Rightarrow> int \<Rightarrow> binn \<Rightarrow> (bool \<times> binn) option" where
  "binn_object_set oks key type pvalue size0 item = do {
     converted \<leftarrow> GetWriteConvertedData type pvalue size0;
     case converted of None \<Rightarrow> Some (False, item) | Some type \<Rightarrow> binn_object_set_raw oks key type pvalue size0 item
   }"

definition binn_object_set_arg :: "bool \<times> bool \<Rightarrow> bytes \<Rightarrow> binn_arg \<Rightarrow> binn \<Rightarrow> (bool \<times> binn) option" where
  "binn_object_set_arg oks key a item =
     (case arg_call a of (type, pvalue, size0) \<Rightarrow> binn_object_set oks key type pvalue size0 item)"


section \<open>Reading\<close>

text \<open>
  The readers take a structure or the address of a container, which \<^verbatim>\<open>binn_ptr\<close> tells apart by
  the first word. Here p is the address of the container in both cases. Where the code
  hands over such an address and not a structure, the model calls
  \<^verbatim>\<open>binn_get_ptr_type\<close>, which reads that word, before the reader.
\<close>

definition binn_object_get_value :: "bytes \<Rightarrow> nat \<Rightarrow> bytes \<Rightarrow> binn_value option option" where
  "binn_object_get_value m p key = do {
     header \<leftarrow> IsValidBinnHeader m p 0;
     case header of None \<Rightarrow> Some None
     | Some (type, count0, size0, header_size0) \<Rightarrow>
         if type \<noteq> BINN_OBJECT \<or> count0 = 0 then Some None
         else do {
           found \<leftarrow> SearchForKey m p header_size0 size0 count0 key;
           case found of None \<Rightarrow> Some None | Some q \<Rightarrow> GetValue m q
         }
   }"

definition binn_get_read_storage :: "int \<Rightarrow> int" where
  "binn_get_read_storage type =
     (if type \<in> {BINN_BOOL, BINN_TRUE, BINN_FALSE} then BINN_STORAGE_DWORD else binn_get_type_info type)"

text \<open>What a read stores: nothing, the bytes of a number, or an address.\<close>

datatype binn_got = Got_nothing | Got_bytes bytes | Got_ptr value_ptr

definition copy_raw_value :: "bytes \<Rightarrow> binn_value \<Rightarrow> int \<Rightarrow> binn_got option option" where
  "copy_raw_value m v data_store =
     (if data_store = BINN_STORAGE_NOBYTES then Some (Some Got_nothing)
      else if data_store = BINN_STORAGE_BYTE then map_option (Some \<circ> Got_bytes) (value_mem m v 1)
      else if data_store = BINN_STORAGE_WORD then map_option (Some \<circ> Got_bytes) (value_mem m v 2)
      else if data_store = BINN_STORAGE_DWORD then map_option (Some \<circ> Got_bytes) (value_mem m v 4)
      else if data_store = BINN_STORAGE_QWORD then map_option (Some \<circ> Got_bytes) (value_mem m v 8)
      else if data_store \<in> {BINN_STORAGE_BLOB, BINN_STORAGE_STRING, BINN_STORAGE_CONTAINER} then Some (Some (Got_ptr (v_ptr v)))
      else Some None)"

definition copy_float_value :: "float_ops \<Rightarrow> bytes \<Rightarrow> binn_value \<Rightarrow> binn_got option option" where
  "copy_float_value fp m v =
     (if v_type v = BINN_FLOAT32
      then map_option (\<lambda>bs. Some (Got_bytes (le_bytes 8 (f32_to_f64 fp (le_word bs))))) (value_mem m v 4)
      else if v_type v = BINN_FLOAT64
      then map_option (\<lambda>bs. Some (Got_bytes (le_bytes 4 (f64_to_f32 fp (le_word bs))))) (value_mem m v 8)
      else Some None)"

definition copy_value :: "float_ops \<Rightarrow> bytes \<Rightarrow> binn_value \<Rightarrow> int \<Rightarrow> int \<Rightarrow> binn_got option option" where
  "copy_value fp m v dest_type data_store =
     (if type_family (v_type v) \<noteq> type_family dest_type then Some None
      else if type_family (v_type v) = BINN_FAMILY_INT \<and> v_type v \<noteq> dest_type then do {
        src \<leftarrow> value_mem m v (int_width (v_type v));
        r \<leftarrow> copy_int_value src (v_type v) dest_type;
        Some (map_option (\<lambda>i. Got_bytes (le_bytes (int_width dest_type) (of_int i :: u64))) r)
      }
      else if type_family (v_type v) = BINN_FAMILY_FLOAT \<and> v_type v \<noteq> dest_type then copy_float_value fp m v
      else copy_raw_value m v data_store)"

definition binn_object_get :: "float_ops \<Rightarrow> bytes \<Rightarrow> nat \<Rightarrow> bytes \<Rightarrow> int \<Rightarrow> binn_got option option" where
  "binn_object_get fp m p key type = do {
     value \<leftarrow> binn_object_get_value m p key;
     case value of None \<Rightarrow> Some None | Some v \<Rightarrow> copy_value fp m v type (binn_get_read_storage type)
   }"

end
