(* ===== verification/Mdv_Binn_Keys.thy ===== *)
theory Mdv_Binn_Keys
  imports Mdv_Binn_Object
begin

text \<open>
  Objects written key by key and read back by key: the search finds the value
  that was set under a key, in whatever case the key is spelled, and nothing else.
\<close>

section \<open>The search over written entries\<close>

lemma lower_nonzero: "b \<noteq> 0 \<Longrightarrow> lower b \<noteq> 0"
proof -
  assume "b \<noteq> 0"
  have "b + 32 \<noteq> 0" if "65 \<le> b" "b \<le> 90"
  proof -
    have "unat b \<le> 90" "65 \<le> unat b" using that by (simp_all add: word_le_nat_alt)
    then have "unat (b + 32) = unat b + 32" by (simp add: unat_word_ariths)
    then show ?thesis by (metis add_is_0 unat_0 zero_neq_numeral)
  qed
  with \<open>b \<noteq> 0\<close> show ?thesis by (auto simp: lower_def)
qed

lemma strnicmp_run:
  assumes "holds_at m p k" "0 \<notin> set k" "0 \<notin> set key"
  shows "\<exists>r. strnicmp m p (key @ [0]) (length k) = Some r \<and> (r \<and> length key = length k \<longleftrightarrow> map lower k = map lower key)"
  using assms
proof (induction k arbitrary: p key)
  case Nil
  then show ?case by auto
next
  case (Cons b k)
  have b: "rd m p = Some b" "holds_at m (p + 1) k" "b \<noteq> 0" using Cons.prems by auto
  show ?case
  proof (cases key)
    case Nil
    have "lower 0 = 0" by (simp add: lower_def)
    with Nil b lower_nonzero [OF b(3)] show ?thesis by auto
  next
    case (Cons c cs)
    from Cons.IH [OF b(2), of cs] obtain r where
      "strnicmp m (p + 1) (cs @ [0]) (length k) = Some r" "r \<and> length cs = length k \<longleftrightarrow> map lower k = map lower cs"
      using Cons.prems Cons by auto
    with b Cons show ?thesis by (cases "lower b = lower c") auto
  qed
qed

definition key_ok :: "bytes \<Rightarrow> bool" where
  "key_ok k \<longleftrightarrow> length k \<le> 255 \<and> 0 \<notin> set k"

definition entry_bytes :: "bytes \<times> bytes \<Rightarrow> bytes" where
  "entry_bytes e = of_nat (length (fst e)) # fst e @ snd e"

lemma unat_key_length: "key_ok k \<Longrightarrow> unat (of_nat (length k) :: u8) = length k"
  by (simp add: key_ok_def unsigned_of_nat take_bit_nat_eq_self)

text \<open>The item under a key, regardless of case.\<close>

definition key_item :: "bytes \<Rightarrow> (bytes \<times> binn_item) list \<Rightarrow> binn_item option" where
  "key_item key kis = map_of (map (\<lambda>(k, i). (map lower k, i)) kis) (map lower key)"

lemma key_search_run:
  assumes "list_all2 (\<lambda>enc ki. reads_as enc (snd ki) \<and> key_ok (fst ki)) encs kis" "0 \<notin> set key" "base \<le> p"
    and "holds_at m p (concat (map2 (\<lambda>ki enc. entry_bytes (fst ki, enc)) kis encs))"
    and "p + length (concat (map2 (\<lambda>ki enc. entry_bytes (fst ki, enc)) kis encs)) = plimit + 1"
  shows "case key_item key kis of
      None \<Rightarrow> search_key (length kis) m base plimit key p = Some None
    | Some i \<Rightarrow> \<exists>q v. search_key (length kis) m base plimit key p = Some (Some q) \<and>
        GetValue m q = Some (Some v) \<and> decode m v = Some i"
  using assms
proof (induction arbitrary: p rule: list_all2_induct)
  case Nil
  then show ?case by (simp add: key_item_def)
next
  case (Cons enc encs ki kis)
  obtain k i where ki: "ki = (k, i)" by (cases ki)
  let ?rest = "concat (map2 (\<lambda>ki enc. entry_bytes (fst ki, enc)) kis encs)"
  let ?q = "p + 1 + length k"
  have reads: "reads_as enc i" and k: "key_ok k" using Cons.hyps(1) by (auto simp: ki)
  have at: "rd m p = Some (of_nat (length k))" "holds_at m (Suc p) k" "holds_at m ?q enc" "holds_at m (?q + length enc) ?rest"
    using Cons.prems(3) by (auto simp: ki entry_bytes_def add.assoc)
  have lim: "?q + length enc + length ?rest = plimit + 1" using Cons.prems(4) by (simp add: ki entry_bytes_def)
  have "enc \<noteq> []" using reads by (simp add: reads_as_def)
  then have within: "p + 1 + length k \<le> plimit" using lim by (cases enc) auto
  obtain same where same: "(if length k > 0 then strnicmp m (Suc p) (key @ [0]) (length k) else Some True) = Some same"
    "same \<and> length key = length k \<longleftrightarrow> map lower k = map lower key"
    using strnicmp_run [OF at(2), of key] k Cons.prems(1) by (cases "k = []") (auto simp: key_ok_def)
  note step = at(1) unat_key_length [OF k] same
  show ?case
  proof (cases "map lower k = map lower key")
    case True
    obtain v where "GetValue m ?q = Some (Some v)" "decode m v = Some i" using reads at(3) unfolding reads_as_def by blast
    with True within step show ?thesis by (auto simp: ki key_item_def Let_def)
  next
    case False
    have adv: "AdvanceDataPos m plimit ?q = Some (if ?q + length enc \<le> plimit then Some (?q + length enc) else None)"
      using reads at(3) lim by (auto simp: reads_as_def)
    have item: "key_item key (ki # kis) = key_item key kis" using False by (simp add: ki key_item_def)
    show ?thesis
    proof (cases "?q + length enc \<le> plimit")
      case True
      have eq: "search_key (length (ki # kis)) m base plimit key p = search_key (length kis) m base plimit key (?q + length enc)"
        using True adv within step False Cons.prems(2) by (auto simp: Let_def)
      have "base \<le> ?q + length enc" using Cons.prems(2) by simp
      from Cons.IH [OF Cons.prems(1) this at(4) lim] show ?thesis unfolding item eq .
    next
      case False
      then have "length ?rest = 0" using lim by linarith
      then have "?rest = []" by (simp only: length_0_conv)
      then have "kis = []" using Cons.hyps(2) by (cases kis; cases encs) (auto simp: entry_bytes_def)
      moreover have "search_key (length (ki # kis)) m base plimit key p = Some None"
        using False adv within step \<open>map lower k \<noteq> map lower key\<close> by (auto simp: Let_def)
      ultimately show ?thesis using item by (simp add: key_item_def)
    qed
  qed
qed


section \<open>Writing an object\<close>

definition object_holds :: "(bytes \<times> binn_item) list \<Rightarrow> binn \<Rightarrow> bool" where
  "object_holds kis item \<longleftrightarrow> buffer_ok item \<and> dirty item \<and> b_type item = BINN_OBJECT \<and> b_count item = length kis \<and>
     (\<exists>encs. payload item = concat (map2 (\<lambda>ki enc. entry_bytes (fst ki, enc)) kis encs) \<and>
       list_all2 (\<lambda>enc ki. reads_as enc (snd ki) \<and> key_ok (fst ki)) encs kis)"

lemma new_object_holds: "binn_create_object True = Some item \<Longrightarrow> object_holds [] item"
  by (auto simp: binn_create_object_def binn_create_def object_holds_def buffer_ok_def payload_def subarray_def)

text \<open>Looking for a key while the object is being written.\<close>

lemma writing_search:
  assumes "object_holds kis item" "0 \<notin> set key"
  shows "\<exists>found. SearchForKey (pbuf item) 0 MAX_BINN_HEADER (used_size item) (b_count item) key = Some found \<and>
    (found = None \<longleftrightarrow> key_item key kis = None)"
proof -
  obtain encs where encs: "payload item = concat (map2 (\<lambda>ki enc. entry_bytes (fst ki, enc)) kis encs)"
    "list_all2 (\<lambda>enc ki. reads_as enc (snd ki) \<and> key_ok (fst ki)) encs kis"
    using assms(1) by (auto simp: object_holds_def)
  have ok: "buffer_ok item" "b_count item = length kis" using assms(1) by (auto simp: object_holds_def)
  then have "holds_at (pbuf item) 9 (payload item)" "9 + length (payload item) = used_size item - 1 + 1"
    by (auto simp: holds_at_def payload_def buffer_ok_def)
  from key_search_run [OF encs(2) assms(2) _ this [unfolded encs(1)], of 0] ok(2) show ?thesis
    by (auto simp: SearchForKey_def split: option.splits)
qed

lemma append_key:
  assumes "CheckAllocation ok (1 + length key) item = Some (True, item1)" "buffer_ok item"
  shows "buffer_ok (put_key key item1) \<and> payload (put_key key item1) = payload item @ (of_nat (length key) # key) \<and>
    b_type (put_key key item1) = b_type item \<and> b_count (put_key key item1) = b_count item"
proof -
  from check_allocation_run [OF assms] obtain pad where pad: "item1 = item \<lparr> pbuf := pbuf item @ pad \<rparr>"
    "used_size item + (1 + length key) \<le> length (pbuf item @ pad)" "buffer_ok item1" by blast
  have "append_bytes (of_nat (length key) # key) (item \<lparr> pbuf := pbuf item @ pad \<rparr>) = Some (put_key key item1 \<lparr> dirty := True \<rparr>)"
    using pad by (simp add: append_bytes_def put_key_def)
  from append_bytes_run [OF this assms(2)] pad show ?thesis
    by (auto simp: appends_def buffer_ok_def payload_def put_key_def)
qed

lemma object_set_raw_parts:
  assumes "binn_object_set_raw oks key t pv n item = Some (True, item')"
  shows "length key \<le> 255 \<and> SearchForKey (pbuf item) 0 MAX_BINN_HEADER (used_size item) (b_count item) key = Some None \<and>
    (\<exists>item1 item2. CheckAllocation (fst oks) (1 + length key) item = Some (True, item1) \<and>
      AddValue (snd oks) t pv n (put_key key item1) = Some (True, item2) \<and> item' = item2 \<lparr> b_count := b_count item2 + 1 \<rparr>)"
  using assms by (auto simp: binn_object_set_raw_def bind_eq_Some_conv split: if_splits)

lemma object_set_run:
  assumes "binn_object_set_arg oks key a item = Some (True, item')" "object_holds kis item" "arg_wf a" "0 \<notin> set key"
  shows "object_holds (kis @ [(key, arg_item a)]) item' \<and> key_item key kis = None"
proof -
  obtain t pv n where call: "arg_call a = (t, pv, n)" by (cases "arg_call a")
  obtain t' where conv: "GetWriteConvertedData t pv n = Some (Some t')"
    and raw: "binn_object_set_raw oks key t' pv n item = Some (True, item')"
    using assms(1) by (auto simp: binn_object_set_arg_def call binn_object_set_def bind_eq_Some_conv split: option.splits)
  from object_set_raw_parts [OF raw] obtain item1 item2 where len: "length key \<le> 255"
    and search: "SearchForKey (pbuf item) 0 MAX_BINN_HEADER (used_size item) (b_count item) key = Some None"
    and chk: "CheckAllocation (fst oks) (1 + length key) item = Some (True, item1)"
    and add: "AddValue (snd oks) t' pv n (put_key key item1) = Some (True, item2)"
    and item': "item' = item2 \<lparr> b_count := b_count item2 + 1 \<rparr>" by blast
  have ok: "buffer_ok item" using assms(2) by (simp add: object_holds_def)
  note key = append_key [OF chk ok]
  obtain enc where enc: "reads_as enc (arg_item a)" "appends enc (put_key key item1) item2" "b_count item2 = b_count item"
    using add_value_arg [OF call assms(3) conv add] key by auto
  obtain encs where encs: "payload item = concat (map2 (\<lambda>ki enc. entry_bytes (fst ki, enc)) kis encs)"
    "list_all2 (\<lambda>enc ki. reads_as enc (snd ki) \<and> key_ok (fst ki)) encs kis"
    using assms(2) by (auto simp: object_holds_def)
  have "length encs = length kis" using encs(2) by (rule list_all2_lengthD)
  moreover have "payload item' = payload item2" by (simp add: item' payload_def)
  then have "payload item' = payload item @ entry_bytes (key, enc)"
    using enc(2) key by (simp add: appends_def entry_bytes_def)
  ultimately have "payload item' = concat (map2 (\<lambda>ki enc. entry_bytes (fst ki, enc)) (kis @ [(key, arg_item a)]) (encs @ [enc]))"
    by (simp add: encs(1))
  moreover have "list_all2 (\<lambda>enc ki. reads_as enc (snd ki) \<and> key_ok (fst ki)) (encs @ [enc]) (kis @ [(key, arg_item a)])"
    using encs(2) enc(1) len assms(4) by (auto simp: key_ok_def intro!: list_all2_appendI)
  ultimately have "object_holds (kis @ [(key, arg_item a)]) item'"
    using enc(2,3) key assms(2) unfolding object_holds_def
    by (auto simp: item' appends_def buffer_ok_def)
  with writing_search [OF assms(2,4)] search show ?thesis by simp
qed


section \<open>Reading an object\<close>

text \<open>A serialised object in memory.\<close>

definition object_at :: "bytes \<Rightarrow> nat \<Rightarrow> (bytes \<times> binn_item) list \<Rightarrow> bool" where
  "object_at m p kis \<longleftrightarrow> (\<exists>encs body. body = concat (map2 (\<lambda>ki enc. entry_bytes (fst ki, enc)) kis encs) \<and>
     list_all2 (\<lambda>enc ki. reads_as enc (snd ki) \<and> key_ok (fst ki)) encs kis \<and>
     holds_at m p (container BINN_OBJECT (length kis) body) \<and> container_size (length kis) body < 2 ^ 31)"

lemma entries_length:
  "list_all2 P encs kis \<Longrightarrow> length kis \<le> length (concat (map2 (\<lambda>ki enc. entry_bytes (fst ki, enc)) kis encs))"
  by (induction rule: list_all2_induct) (auto simp: entry_bytes_def)

lemma serialised_object:
  assumes "object_holds kis item"
  shows "\<exists>body. binn_serialised item = container BINN_OBJECT (length kis) body \<and> length kis < 2 ^ 31 \<and>
    (\<forall>m p. holds_at m p (binn_serialised item) \<longrightarrow> object_at m p kis)"
proof -
  obtain encs where encs: "payload item = concat (map2 (\<lambda>ki enc. entry_bytes (fst ki, enc)) kis encs)"
    "list_all2 (\<lambda>enc ki. reads_as enc (snd ki) \<and> key_ok (fst ki)) encs kis"
    using assms by (auto simp: object_holds_def)
  have ok: "buffer_ok item" "dirty item" "b_type item = BINN_OBJECT" "b_count item = length kis"
    using assms by (auto simp: object_holds_def)
  have ser: "binn_serialised item = container BINN_OBJECT (length kis) (payload item)"
    using serialised_container [OF ok(1,2)] ok(3,4) by simp
  have "length (payload item) = used_size item - 9" "9 \<le> used_size item" "used_size item \<le> INT_MAX"
    using ok(1) by (simp_all add: payload_def buffer_ok_def)
  then have size: "container_size (length kis) (payload item) < 2 ^ 31"
    by (auto simp: container_size_def Let_def)
  have "length kis \<le> length (payload item)" unfolding encs(1) by (rule entries_length [OF encs(2)])
  then have "length kis < 2 ^ 31" using size container_size_ge(3) [of "length kis" "payload item"] by linarith
  moreover have "object_at m p kis" if "holds_at m p (binn_serialised item)" for m p
    using that encs size unfolding ser object_at_def by (intro exI [of _ encs] exI [of _ "payload item"]) simp
  ultimately show ?thesis using ser by blast
qed

lemma object_get_value_run:
  assumes "object_at m p kis" "0 \<notin> set key"
  shows "case key_item key kis of
      None \<Rightarrow> binn_object_get_value m p key = Some None
    | Some i \<Rightarrow> \<exists>v. binn_object_get_value m p key = Some (Some v) \<and> decode m v = Some i \<and> value_ok v"
proof -
  from assms(1) obtain encs body where body: "body = concat (map2 (\<lambda>ki enc. entry_bytes (fst ki, enc)) kis encs)"
    and encs: "list_all2 (\<lambda>enc ki. reads_as enc (snd ki) \<and> key_ok (fst ki)) encs kis"
    and at: "holds_at m p (container BINN_OBJECT (length kis) body)" and size: "container_size (length kis) body < 2 ^ 31"
    unfolding object_at_def by blast
  have "length kis \<le> length body" unfolding body by (rule entries_length [OF encs])
  then have c: "length kis < 2 ^ 31" using size container_size_ge(3) [of "length kis" body] by linarith
  have header: "IsValidBinnHeader m p 0 = Some (Some (BINN_OBJECT, length kis, container_size (length kis) body, header_size (length kis) body))"
    using header_run [OF _ at size c] by simp
  have vals: "holds_at m (p + header_size (length kis) body) body"
    using at by (simp add: container_def header_size_def add.assoc)
  have last: "p + header_size (length kis) body + length body = p + container_size (length kis) body - 1 + 1"
    using container_size_ge(1,3) [of "length kis" body] by linarith
  from key_search_run [OF encs assms(2), folded body, OF le_add1 vals last] have "case key_item key kis of
      None \<Rightarrow> SearchForKey m p (header_size (length kis) body) (container_size (length kis) body) (length kis) key = Some None
    | Some i \<Rightarrow> \<exists>q v. SearchForKey m p (header_size (length kis) body) (container_size (length kis) body) (length kis) key =
        Some (Some q) \<and> GetValue m q = Some (Some v) \<and> decode m v = Some i"
    unfolding SearchForKey_def .
  then show ?thesis
    using header by (cases "kis = []") (auto simp: binn_object_get_value_def key_item_def split: option.splits intro: value_ok_get)
qed

end
