(* ===== verification/Mdv_Binn_Keyed.thy ===== *)
theory Mdv_Binn_Keyed
  imports Mdv_Binn_Keys
begin

text \<open>
  Objects as a whole: setting succeeds while memory lasts and the keys differ, a
  serialised object answers every read by key, and the typed reads return the
  numbers, strings and nested containers that were set.
\<close>

section \<open>Setting succeeds\<close>

lemma object_set_some:
  assumes "object_holds kis item" "buffer_pow item" "arg_wf a" "key_ok key" "key_item key kis = None"
    and "used_size item + (1 + length key) + arg_room a \<le> 2 ^ 30"
  shows "\<exists>item'. binn_object_set_arg (True, True) key a item = Some (True, item') \<and> buffer_pow item' \<and>
    used_size item' \<le> used_size item + (1 + length key) + arg_room a"
proof -
  obtain t pv n where call: "arg_call a = (t, pv, n)" by (cases "arg_call a")
  have holds: "b_type item = BINN_OBJECT" "buffer_ok item" using assms(1) by (simp_all add: object_holds_def)
  have search: "SearchForKey (pbuf item) 0 MAX_BINN_HEADER (used_size item) (b_count item) key = Some None"
    using writing_search [OF assms(1), of key] assms(4,5) by (auto simp: key_ok_def)
  obtain pad where chk: "CheckAllocation True (1 + length key) item = Some (True, item \<lparr> pbuf := pbuf item @ pad \<rparr>)"
    and room: "used_size item + (1 + length key) \<le> length (pbuf item @ pad)" "buffer_pow (item \<lparr> pbuf := pbuf item @ pad \<rparr>)"
    using check_allocation_some [OF assms(2), of "1 + length key"] assms(6) by auto
  let ?item = "put_key key (item \<lparr> pbuf := pbuf item @ pad \<rparr>)"
  have "length (pbuf ?item) = length (pbuf item @ pad)" "used_size ?item = used_size item + (1 + length key)"
    using room(1) by (simp_all add: put_key_def)
  then have pow: "buffer_pow ?item" and used: "used_size ?item + arg_room a \<le> 2 ^ 30"
    using room holds(2) assms(6) by (auto simp: buffer_pow_def buffer_ok_def)
  from add_value_some [OF call assms(3) pow used] obtain t' item2 where
    add: "GetWriteConvertedData t pv n = Some (Some t')" "AddValue True t' pv n ?item = Some (True, item2)" "buffer_pow item2"
      "used_size item2 \<le> used_size ?item + arg_room a" by blast
  have "binn_object_set_arg (True, True) key a item = Some (True, item2 \<lparr> b_count := b_count item2 + 1 \<rparr>)"
    using holds search chk add assms(4)
    by (simp add: binn_object_set_arg_def call binn_object_set_def binn_object_set_raw_def key_ok_def)
  with add(3,4) show ?thesis by (simp add: buffer_pow_def buffer_ok_def put_key_def)
qed

definition new_object :: binn where
  "new_object = \<lparr> b_type = BINN_OBJECT, pbuf = replicate CHUNK_SIZE 0, used_size = MAX_BINN_HEADER, b_count = 0,
     b_ptr = 0, b_size = 0, dirty = True \<rparr>"

lemma create_new_object: "binn_create_object True = Some new_object"
  by (simp add: binn_create_object_def binn_create_def new_object_def)

lemma new_object_pow: "buffer_pow new_object" "object_holds [] new_object"
proof -
  have "length (pbuf new_object) = 2 ^ 8" by (simp add: new_object_def)
  then show "buffer_pow new_object" unfolding buffer_pow_def buffer_ok_def by (auto simp: new_object_def intro: exI [of _ 8])
qed (rule new_object_holds [OF create_new_object])

text \<open>A run of settings; each comes with the outcomes of its two reallocations.\<close>

fun set_all :: "((bool \<times> bool) \<times> bytes \<times> binn_arg) list \<Rightarrow> binn \<Rightarrow> (bool \<times> binn) option" where
  "set_all [] item = Some (True, item)"
| "set_all ((oks, key, a) # calls) item = do {
     (added, item) \<leftarrow> binn_object_set_arg oks key a item;
     if added then set_all calls item else Some (False, item)
   }"

definition set_items :: "((bool \<times> bool) \<times> bytes \<times> binn_arg) list \<Rightarrow> (bytes \<times> binn_item) list" where
  "set_items calls = map (\<lambda>(oks, key, a). (key, arg_item a)) calls"

definition calls_wf :: "((bool \<times> bool) \<times> bytes \<times> binn_arg) list \<Rightarrow> bool" where
  "calls_wf calls \<longleftrightarrow> (\<forall>(oks, key, a) \<in> set calls. arg_wf a \<and> 0 \<notin> set key)"

lemma set_all_holds:
  assumes "set_all calls item = Some (True, item')" "object_holds kis item" "calls_wf calls"
  shows "object_holds (kis @ set_items calls) item'"
  using assms
proof (induction calls arbitrary: kis item)
  case Nil
  then show ?case by (simp add: set_items_def)
next
  case (Cons call calls)
  obtain oks key a where call: "call = (oks, key, a)" by (cases call)
  obtain item1 where one: "binn_object_set_arg oks key a item = Some (True, item1)" "set_all calls item1 = Some (True, item')"
    using Cons.prems(1) by (auto simp: call bind_eq_Some_conv split: if_splits)
  have "object_holds (kis @ [(key, arg_item a)]) item1"
    using object_set_run [OF one(1) Cons.prems(2)] Cons.prems(3) by (auto simp: call calls_wf_def)
  from Cons.IH [OF one(2) this] Cons.prems(3) show ?case by (simp add: call set_items_def calls_wf_def)
qed

lemma key_item_append: "key_item key (xs @ ys) = (case key_item key xs of None \<Rightarrow> key_item key ys | Some i \<Rightarrow> Some i)"
  by (simp add: key_item_def map_add_def split: option.splits)

lemma key_item_None: "key_item key kis = None \<longleftrightarrow> map lower key \<notin> (\<lambda>ki. map lower (fst ki)) ` set kis"
  by (force simp: key_item_def map_of_eq_None_iff)

lemma set_all_distinct:
  assumes "set_all calls item = Some (True, item')" "object_holds kis item" "calls_wf calls"
  shows "distinct (map (\<lambda>(oks, key, a). map lower key) calls) \<and> (\<forall>(oks, key, a) \<in> set calls. key_item key kis = None)"
  using assms
proof (induction calls arbitrary: kis item)
  case (Cons call calls)
  obtain oks key a where call: "call = (oks, key, a)" by (cases call)
  obtain item1 where one: "binn_object_set_arg oks key a item = Some (True, item1)" "set_all calls item1 = Some (True, item')"
    using Cons.prems(1) by (auto simp: call bind_eq_Some_conv split: if_splits)
  have set1: "object_holds (kis @ [(key, arg_item a)]) item1" "key_item key kis = None"
    using object_set_run [OF one(1) Cons.prems(2)] Cons.prems(3) by (auto simp: call calls_wf_def)
  from Cons.IH [OF one(2) set1(1)] Cons.prems(3)
  have "distinct (map (\<lambda>(oks, key, a). map lower key) calls)"
    "\<forall>(oks, key', a') \<in> set calls. key_item key' (kis @ [(key, arg_item a)]) = None" by (auto simp: call calls_wf_def)
  with set1(2) show ?case by (force simp: call key_item_None)
qed simp

lemma set_all_some:
  assumes "calls_wf calls" "\<forall>(oks, key, a) \<in> set calls. oks = (True, True) \<and> length key \<le> 255"
    and "distinct (map (\<lambda>(oks, key, a). map lower key) calls)" "\<forall>(oks, key, a) \<in> set calls. key_item key kis = None"
    and "object_holds kis item" "buffer_pow item"
    and "used_size item + (\<Sum>(oks, key, a) \<leftarrow> calls. 1 + length key + arg_room a) \<le> 2 ^ 30"
  shows "\<exists>item'. set_all calls item = Some (True, item')"
  using assms
proof (induction calls arbitrary: kis item)
  case (Cons call calls)
  obtain oks key a where call: "call = (oks, key, a)" by (cases call)
  have head: "arg_wf a" "key_ok key" "key_item key kis = None" "oks = (True, True)" "0 \<notin> set key"
    using Cons.prems(1,2,4) by (auto simp: call calls_wf_def key_ok_def)
  have room: "used_size item + (1 + length key) + arg_room a \<le> 2 ^ 30" using Cons.prems(7) by (simp add: call)
  from object_set_some [OF Cons.prems(5,6) head(1-3) room] obtain item1 where
    item1: "binn_object_set_arg (True, True) key a item = Some (True, item1)" "buffer_pow item1"
      "used_size item1 \<le> used_size item + (1 + length key) + arg_room a" by blast
  have holds: "object_holds (kis @ [(key, arg_item a)]) item1"
    using object_set_run [OF item1(1) Cons.prems(5) head(1,5)] by simp
  have fresh: "\<forall>(oks, key', a') \<in> set calls. key_item key' (kis @ [(key, arg_item a)]) = None"
    using Cons.prems(3,4) by (force simp: call key_item_None)
  have "used_size item1 + (\<Sum>(oks, key, a) \<leftarrow> calls. 1 + length key + arg_room a) \<le> 2 ^ 30"
    using Cons.prems(7) item1(3) by (simp add: call)
  from Cons.IH [OF _ _ _ fresh holds item1(2) this] Cons.prems(1-3) item1(1) head(4) show ?case
    by (auto simp: call calls_wf_def)
qed simp

text \<open>
  C10. Objects survive serialisation: an object whose settings all succeeded
  answers a read by key, wherever its bytes are put in memory and in whatever case
  the key is spelled, with the value that was set under that key, and refuses a
  key that was not set; nothing outside the memory is read. Two settings whose
  keys differ only in case never both succeed. Settings with keys of at most 255
  bytes that differ in more than case all succeed if the reallocations do and the
  object stays below a gigabyte.
\<close>

theorem binn_object_roundtrip:
  assumes "calls_wf calls" "0 \<notin> set key"
  shows "(\<forall>item pre post. set_all calls new_object = Some (True, item) \<longrightarrow>
      distinct (map (\<lambda>(oks, k, a). map lower k) calls) \<and>
      (case key_item key (set_items calls) of
         None \<Rightarrow> binn_object_get_value (pre @ binn_serialised item @ post) (length pre) key = Some None
       | Some i \<Rightarrow> \<exists>v. binn_object_get_value (pre @ binn_serialised item @ post) (length pre) key = Some (Some v) \<and>
           decode (pre @ binn_serialised item @ post) v = Some i)) \<and>
    ((\<forall>(oks, k, a) \<in> set calls. oks = (True, True) \<and> length k \<le> 255) \<and> distinct (map (\<lambda>(oks, k, a). map lower k) calls) \<and>
      9 + (\<Sum>(oks, k, a) \<leftarrow> calls. 1 + length k + arg_room a) \<le> 2 ^ 30 \<longrightarrow>
      (\<exists>item. set_all calls new_object = Some (True, item)))"
proof (intro conjI allI impI; (elim conjE)?)
  fix item pre post
  assume run: "set_all calls new_object = Some (True, item)"
  from set_all_distinct [OF run new_object_pow(2) assms(1)] show "distinct (map (\<lambda>(oks, k, a). map lower k) calls)" by simp
  from set_all_holds [OF run new_object_pow(2) assms(1)] have "object_holds (set_items calls) item" by simp
  from serialised_object [OF this] have "object_at (pre @ binn_serialised item @ post) (length pre) (set_items calls)"
    using holds_at_mid by blast
  from object_get_value_run [OF this assms(2)]
  show "case key_item key (set_items calls) of
         None \<Rightarrow> binn_object_get_value (pre @ binn_serialised item @ post) (length pre) key = Some None
       | Some i \<Rightarrow> \<exists>v. binn_object_get_value (pre @ binn_serialised item @ post) (length pre) key = Some (Some v) \<and>
           decode (pre @ binn_serialised item @ post) v = Some i"
    by (auto split: option.splits)
next
  assume "\<forall>(oks, k, a) \<in> set calls. oks = (True, True) \<and> length k \<le> 255" "distinct (map (\<lambda>(oks, k, a). map lower k) calls)"
    "9 + (\<Sum>(oks, k, a) \<leftarrow> calls. 1 + length k + arg_room a) \<le> 2 ^ 30"
  then show "\<exists>item. set_all calls new_object = Some (True, item)"
    using assms(1) new_object_pow by (intro set_all_some [where kis = "[]"]) (auto simp: key_item_def new_object_def)
qed

lemma binn_object_roundtrip_witness:
  "\<exists>item v. set_all [((True, True), [78], Arg_str [104, 105]), ((True, True), [83], Arg_uint32 7)] new_object = Some (True, item) \<and>
    binn_object_get_value ([9] @ binn_serialised item @ [9]) 1 [115] = Some (Some v) \<and>
    decode ([9] @ binn_serialised item @ [9]) v = Some (Item_int 7)"
proof -
  let ?calls = "[((True, True), [78], Arg_str [104, 105]), ((True, True), [83], Arg_uint32 7)]"
  have wf: "calls_wf ?calls" "0 \<notin> set [115 :: u8]" by (simp_all add: calls_wf_def)
  have "distinct (map (\<lambda>(oks, k, a). map lower k) ?calls)" by (simp add: lower_def)
  then have "\<exists>item. set_all ?calls new_object = Some (True, item)"
    by (intro mp [OF conjunct2 [OF binn_object_roundtrip [OF wf]]]) simp
  then obtain item where item: "set_all ?calls new_object = Some (True, item)" by blast
  have key: "key_item [115] (set_items ?calls) = Some (Item_int 7)" by (simp add: key_item_def set_items_def lower_def)
  note read = binn_object_roundtrip [OF wf, THEN conjunct1, THEN spec [of _ item], THEN spec [of _ "[9]"], THEN spec [of _ "[9]"],
      THEN mp, OF item, THEN conjunct2, unfolded key option.case]
  show ?thesis using item read by (auto simp del: set_all.simps append.simps append_Cons)
qed


section \<open>Typed reads\<close>

lemma le_bytes_word:
  assumes "length bs = n" "n \<le> 8"
  shows "le_bytes n (of_nat (le_value bs) :: u64) = bs"
proof (rule le_value_inj)
  have "le_value bs < 2 ^ 64"
    using le_value_less [of bs] assms power_increasing [of n 8 "256 :: nat"] by simp
  then have "unat (of_nat (le_value bs) :: u64) = le_value bs" by (simp add: unsigned_of_nat take_bit_nat_eq_self)
  then show "le_value (le_bytes n (of_nat (le_value bs) :: u64)) = le_value bs"
    using le_value_less [of bs] assms(1) by (simp add: le_value_le_bytes)
qed (simp add: assms(1))

lemma copy_uint:
  assumes "decode m v = Some (Item_int i)" "t \<in> {BINN_UINT32, BINN_UINT64}" "in_range t i"
  shows "copy_value fp m v t (binn_get_read_storage t) = Some (Some (Got_bytes (le_bytes (int_width t) (of_int i :: u64))))"
proof -
  have fam: "type_family (v_type v) = BINN_FAMILY_INT" by (rule decode_family [OF assms(1)])
  then have vt: "v_type v \<in> int_types" by (simp add: type_family_int)
  obtain bs where bs: "value_mem m v (int_width (v_type v)) = Some bs" "read_int (v_type v) bs = Some i"
    using assms(1) fam by (auto simp: decode_def bind_eq_Some_conv)
  have t: "type_family t = BINN_FAMILY_INT" "int_type t = BINN_UNSIGNED_INT" using assms(2) by (auto simp: type_family_def int_type_def)
  show ?thesis
  proof (cases "v_type v = t")
    case True
    have len: "length bs = int_width t" using bs(1) True by (auto simp: value_mem_def split: value_ptr.splits dest: length_rds)
    have "int (le_value bs) = i" using bs(2) t(2) len by (simp add: True read_int_def Let_def)
    then have "le_bytes (int_width t) (of_int i :: u64) = bs"
      using le_bytes_word [OF len] assms(2) by (auto simp: int_width_def)
    with bs(1) True assms(2) fam show ?thesis
      by (auto simp: copy_value_def copy_raw_value_def binn_get_read_storage_def int_width_def)
  next
    case False
    have "int_type (v_type v) \<noteq> Not_an_int" using vt by (auto simp: int_types_def int_type_def)
    moreover have "0 \<le> i" using assms(3) t(2) by (simp add: in_range_def)
    ultimately show ?thesis
      using False fam t bs assms(3) by (auto simp: copy_value_def copy_int_value_def)
  qed
qed

lemma object_get_uint:
  assumes "object_at m p kis" "0 \<notin> set key" "key_item key kis = Some (Item_int i)" "t \<in> {BINN_UINT32, BINN_UINT64}" "in_range t i"
  shows "binn_object_get fp m p key t = Some (Some (Got_bytes (le_bytes (int_width t) (of_int i :: u64))))"
  using object_get_value_run [OF assms(1,2)] copy_uint [OF _ assms(4,5)] assms(3) by (auto simp: binn_object_get_def)

lemma object_get_str:
  assumes "object_at m p kis" "0 \<notin> set key" "key_item key kis = Some (Item_string s)"
  shows "\<exists>q. binn_object_get fp m p key BINN_STRING = Some (Some (Got_ptr (In_buffer q))) \<and> holds_at m q (s @ [0])"
proof -
  from object_get_value_run [OF assms(1,2)] assms(3) obtain v where
    v: "binn_object_get_value m p key = Some (Some v)" "decode m v = Some (Item_string s)" "value_ok v" by auto
  then have t: "v_type v = BINN_STRING" "Option.bind (value_mem m v (v_size v + 1))
      (\<lambda>bs. if last bs = 0 then Some (Item_string (butlast bs)) else None) = Some (Item_string s)"
    by (auto simp: decode_def split: if_splits)
  then obtain q where q: "v_ptr v = In_buffer q" using v(3) by (auto simp: value_ok_def)
  obtain bs where bs: "rds m q (v_size v + 1) = Some bs" "last bs = 0" "butlast bs = s"
    using t(2) q by (auto simp: value_mem_def bind_eq_Some_conv split: if_splits)
  then have "bs \<noteq> []" by (auto dest: length_rds)
  then have "bs = s @ [0]" using bs(2,3) append_butlast_last_id [of bs] by simp
  with holds_at_rds [OF bs(1)] v(1) t(1) q show ?thesis
    by (auto simp: binn_object_get_def copy_value_def copy_raw_value_def type_family_def binn_get_read_storage_def)
qed

lemma object_get_container:
  assumes "object_at m p kis" "0 \<notin> set key" "key_item key kis = Some (Item_container bs)"
    and "t \<in> {BINN_LIST, BINN_MAP, BINN_OBJECT}"
  shows "\<exists>q. binn_object_get fp m p key t = Some (Some (Got_ptr (In_buffer q))) \<and> holds_at m q bs"
proof -
  from object_get_value_run [OF assms(1,2)] assms(3) obtain v where
    v: "binn_object_get_value m p key = Some (Some v)" "decode m v = Some (Item_container bs)" "value_ok v" by auto
  then have t: "v_type v \<in> {BINN_LIST, BINN_MAP, BINN_OBJECT}" "value_mem m v (v_size v) = Some bs"
    by (auto simp: decode_def bind_eq_Some_conv type_family_def split: if_splits)
  then obtain q where q: "v_ptr v = In_buffer q" using v(3) by (auto simp: value_ok_def)
  then have "holds_at m q bs" using t(2) by (auto simp: value_mem_def intro: holds_at_rds)
  moreover have "copy_value fp m v t (binn_get_read_storage t) = Some (Some (Got_ptr (v_ptr v)))"
    using t(1) assms(4)
    by (elim insertE emptyE) (simp_all add: copy_value_def copy_raw_value_def type_family_def binn_get_read_storage_def)
  ultimately show ?thesis using v(1) q by (simp add: binn_object_get_def)
qed

end
