(* ===== verification/Mdv_Table.thy ===== *)
theory Mdv_Table
  imports Mdv_Row Mdv_Binn_Keyed Mdv_Uuid
begin

text \<open>
  Table descriptions, tables and identifiers, and their form as keyed objects
  (mdv_types/mdv_table.c, mdv_types/mdv_serialization.c). The outcomes of the
  allocations come as a list of truth values. None is an access outside the
  memory, or outside the array it is meant for.
\<close>

section \<open>Tables\<close>

record mdv_table =
  tbl_rc :: u32
  tbl_id :: mdv_uuid
  tbl_desc :: mdv_table_desc

fun slice_fields :: "mdv_bitset option \<Rightarrow> nat \<Rightarrow> mdv_field list \<Rightarrow> mdv_field list option" where
  "slice_fields fmask i [] = Some []"
| "slice_fields fmask i (f # fs) = do {
     selected \<leftarrow> mdv_bitset_test fmask i;
     rest \<leftarrow> slice_fields fmask (i + 1) fs;
     Some (if selected then f # rest else rest)
   }"

definition mdv_table_create_impl :: "bool \<Rightarrow> mdv_uuid \<Rightarrow> mdv_table_desc \<Rightarrow> mdv_bitset option \<Rightarrow> mdv_table option option" where
  "mdv_table_create_impl ok id0 desc fmask = do {
     flds \<leftarrow> slice_fields fmask 0 (td_fields desc);
     Some (if ok then Some \<lparr> tbl_rc = 1, tbl_id = id0, tbl_desc = \<lparr> td_name = td_name desc, td_fields = flds \<rparr> \<rparr> else None)
   }"

definition mdv_table_create :: "bool \<Rightarrow> mdv_uuid \<Rightarrow> mdv_table_desc \<Rightarrow> mdv_table option option" where
  "mdv_table_create ok id0 desc = mdv_table_create_impl ok id0 desc None"

definition mdv_table_slice :: "bool \<Rightarrow> mdv_table \<Rightarrow> mdv_bitset option \<Rightarrow> mdv_table option option" where
  "mdv_table_slice ok table flds = mdv_table_create_impl ok (tbl_id table) (tbl_desc table) flds"

definition mdv_table_retain :: "mdv_table \<Rightarrow> mdv_table" where
  "mdv_table_retain table = table \<lparr> tbl_rc := tbl_rc table + 1 \<rparr>"

definition mdv_table_release :: "mdv_table \<Rightarrow> mdv_table option" where
  "mdv_table_release table =
     (let rc = tbl_rc table - 1 in if rc = 0 then None else Some (table \<lparr> tbl_rc := rc \<rparr>))"


section \<open>Writing\<close>

fun field_type_code :: "mdv_field_type \<Rightarrow> nat" where
  "field_type_code MDV_FLD_TYPE_BOOL = 1"
| "field_type_code MDV_FLD_TYPE_CHAR = 2"
| "field_type_code MDV_FLD_TYPE_BYTE = 3"
| "field_type_code MDV_FLD_TYPE_INT8 = 4"
| "field_type_code MDV_FLD_TYPE_UINT8 = 5"
| "field_type_code MDV_FLD_TYPE_INT16 = 6"
| "field_type_code MDV_FLD_TYPE_UINT16 = 7"
| "field_type_code MDV_FLD_TYPE_INT32 = 8"
| "field_type_code MDV_FLD_TYPE_UINT32 = 9"
| "field_type_code MDV_FLD_TYPE_INT64 = 10"
| "field_type_code MDV_FLD_TYPE_UINT64 = 11"
| "field_type_code MDV_FLD_TYPE_FLOAT = 12"
| "field_type_code MDV_FLD_TYPE_DOUBLE = 13"
| "field_type_code (Unknown_type n) = n"

definition code_field_type :: "nat \<Rightarrow> mdv_field_type" where
  "code_field_type n =
     (if 1 \<le> n \<and> n \<le> 13
      then [MDV_FLD_TYPE_BOOL, MDV_FLD_TYPE_CHAR, MDV_FLD_TYPE_BYTE, MDV_FLD_TYPE_INT8, MDV_FLD_TYPE_UINT8,
            MDV_FLD_TYPE_INT16, MDV_FLD_TYPE_UINT16, MDV_FLD_TYPE_INT32, MDV_FLD_TYPE_UINT32, MDV_FLD_TYPE_INT64,
            MDV_FLD_TYPE_UINT64, MDV_FLD_TYPE_FLOAT, MDV_FLD_TYPE_DOUBLE] ! (n - 1)
      else Unknown_type n)"

abbreviation (input) key_T :: bytes where "key_T \<equiv> [0x54]"
abbreviation (input) key_L :: bytes where "key_L \<equiv> [0x4C]"
abbreviation (input) key_N :: bytes where "key_N \<equiv> [0x4E]"
abbreviation (input) key_S :: bytes where "key_S \<equiv> [0x53]"
abbreviation (input) key_F :: bytes where "key_F \<equiv> [0x46]"
abbreviation (input) key_D :: bytes where "key_D \<equiv> [0x44]"
abbreviation (input) key_U :: "u8 \<Rightarrow> bytes" where "key_U d \<equiv> [0x55, d]"

text \<open>A chain of settings, left at the first that fails; each takes two outcomes.\<close>

fun set_keys :: "(bytes \<times> binn_arg) list \<Rightarrow> binn \<times> bool list \<Rightarrow> (bool \<times> binn \<times> bool list) option" where
  "set_keys [] st = Some (True, st)"
| "set_keys ((key, a) # kas) st =
     (let (item, oks) = st; (ok1, oks) = next_ok oks; (ok2, oks) = next_ok oks in do {
        (added, item) \<leftarrow> binn_object_set_arg (ok1, ok2) key a item;
        if added then set_keys kas (item, oks) else Some (False, item, oks)
      })"

definition create_object :: "(bytes \<times> binn_arg) list \<Rightarrow> bool list \<Rightarrow> (binn option \<times> bool list) option" where
  "create_object kas oks =
     (let (ok, oks) = next_ok oks in
      case binn_create_object ok of
        None \<Rightarrow> Some (None, oks)
      | Some obj \<Rightarrow> do {
          (added, obj, oks) \<leftarrow> set_keys kas (obj, oks);
          Some (if added then Some obj else None, oks)
        })"

definition binn_field :: "mdv_field \<Rightarrow> bool list \<Rightarrow> (binn option \<times> bool list) option" where
  "binn_field fld oks = create_object
     [(key_T, Arg_uint32 (of_nat (field_type_code (fld_type fld)))), (key_L, Arg_uint32 (of_nat (fld_limit fld))),
      (key_N, Arg_str (fld_name fld))] oks"

fun binn_fields :: "mdv_field list \<Rightarrow> binn \<times> bool list \<Rightarrow> (bool \<times> binn \<times> bool list) option" where
  "binn_fields [] st = Some (True, st)"
| "binn_fields (f # fs) (item, oks) = do {
     (fld, oks) \<leftarrow> binn_field f oks;
     case fld of None \<Rightarrow> Some (False, item, oks)
     | Some obj \<Rightarrow> do {
         (added, item, oks) \<leftarrow> add_with (Arg_object (binn_serialised obj)) (item, oks);
         if added then binn_fields fs (item, oks) else Some (False, item, oks)
       }
   }"

definition mdv_binn_table_desc :: "mdv_table_desc \<Rightarrow> bool list \<Rightarrow> (binn option \<times> bool list) option" where
  "mdv_binn_table_desc table oks = do {
     (obj, oks) \<leftarrow> create_object [(key_N, Arg_str (td_name table)), (key_S, Arg_uint32 (of_nat (length (td_fields table))))] oks;
     case obj of None \<Rightarrow> Some (None, oks)
     | Some obj \<Rightarrow>
         let (ok, oks) = next_ok oks in
         (case binn_create_list ok of
            None \<Rightarrow> Some (None, oks)
          | Some flds \<Rightarrow> do {
              (added, flds, oks) \<leftarrow> binn_fields (td_fields table) (flds, oks);
              if \<not> added then Some (None, oks)
              else do {
                (added, obj, oks) \<leftarrow> set_keys [(key_F, Arg_list (binn_serialised flds))] (obj, oks);
                Some (if added then Some obj else None, oks)
              }
            })
   }"

definition mdv_binn_table_uuid :: "mdv_uuid \<Rightarrow> binn \<times> bool list \<Rightarrow> (bool \<times> binn \<times> bool list) option" where
  "mdv_binn_table_uuid u st = set_keys [(key_U 0x30, Arg_uint64 (uuid_lo u)), (key_U 0x31, Arg_uint64 (uuid_hi u))] st"

definition mdv_binn_table :: "mdv_table \<Rightarrow> bool list \<Rightarrow> (binn option \<times> bool list) option" where
  "mdv_binn_table table oks = do {
     (obj, oks) \<leftarrow> create_object [] oks;
     case obj of None \<Rightarrow> Some (None, oks)
     | Some obj \<Rightarrow> do {
         (desc, oks) \<leftarrow> mdv_binn_table_desc (tbl_desc table) oks;
         case desc of None \<Rightarrow> Some (None, oks)
         | Some desc \<Rightarrow> do {
             (added, obj, oks) \<leftarrow> mdv_binn_table_uuid (tbl_id table) (obj, oks);
             if \<not> added then Some (None, oks)
             else do {
               (added, obj, oks) \<leftarrow> set_keys [(key_D, Arg_object (binn_serialised desc))] (obj, oks);
               Some (if added then Some obj else None, oks)
             }
           }
       }
   }"

definition mdv_binn_uuid :: "mdv_uuid \<Rightarrow> bool list \<Rightarrow> (binn option \<times> bool list) option" where
  "mdv_binn_uuid u oks = create_object [(key_U 0x31, Arg_uint64 (uuid_lo u)), (key_U 0x32, Arg_uint64 (uuid_hi u))] oks"


section \<open>Reading\<close>

text \<open>The typed reads of an object at an address.\<close>

definition get_uint :: "float_ops \<Rightarrow> bytes \<Rightarrow> nat \<Rightarrow> bytes \<Rightarrow> int \<Rightarrow> nat option option" where
  "get_uint fp m p key type = do {
     r \<leftarrow> binn_object_get fp m p key type;
     Some (case r of Some (Got_bytes bs) \<Rightarrow> Some (le_value bs) | _ \<Rightarrow> None)
   }"

definition get_ptr :: "float_ops \<Rightarrow> bytes \<Rightarrow> nat \<Rightarrow> bytes \<Rightarrow> int \<Rightarrow> value_ptr option option" where
  "get_ptr fp m p key type = do {
     r \<leftarrow> binn_object_get fp m p key type;
     Some (case r of Some (Got_ptr q) \<Rightarrow> Some q | _ \<Rightarrow> None)
   }"

definition c_string :: "bytes \<Rightarrow> value_ptr \<Rightarrow> bytes option" where
  "c_string m q = (case q of
     In_buffer q \<Rightarrow> if 0 \<in> set (drop q m) then Some (takeWhile (\<lambda>b. b \<noteq> 0) (drop q m)) else None
   | _ \<Rightarrow> None)"

definition get_string :: "float_ops \<Rightarrow> bytes \<Rightarrow> nat \<Rightarrow> bytes \<Rightarrow> bytes option option" where
  "get_string fp m p key = do {
     r \<leftarrow> get_ptr fp m p key BINN_STRING;
     case r of None \<Rightarrow> Some None | Some q \<Rightarrow> map_option Some (c_string m q)
   }"

definition mdv_unbinn_table_uuid :: "float_ops \<Rightarrow> bytes \<Rightarrow> nat \<Rightarrow> mdv_uuid option option" where
  "mdv_unbinn_table_uuid fp m p = do {
     lo \<leftarrow> get_uint fp m p (key_U 0x30) BINN_UINT64;
     case lo of None \<Rightarrow> Some None
     | Some lo \<Rightarrow> do {
         hi \<leftarrow> get_uint fp m p (key_U 0x31) BINN_UINT64;
         Some (map_option (\<lambda>hi. UUID (of_nat lo) (of_nat hi)) hi)
       }
   }"

definition mdv_unbinn_uuid :: "float_ops \<Rightarrow> bytes \<Rightarrow> nat \<Rightarrow> mdv_uuid option option" where
  "mdv_unbinn_uuid fp m p = do {
     lo \<leftarrow> get_uint fp m p (key_U 0x31) BINN_UINT64;
     case lo of None \<Rightarrow> Some None
     | Some lo \<Rightarrow> do {
         hi \<leftarrow> get_uint fp m p (key_U 0x32) BINN_UINT64;
         Some (map_option (\<lambda>hi. UUID (of_nat lo) (of_nat hi)) hi)
       }
   }"

text \<open>The memory and the position that a value of a list is read from as an object: the buffer, or
  the union of the value itself. A null value is refused.\<close>

definition value_place :: "bytes \<Rightarrow> binn_value \<Rightarrow> (bytes \<times> nat) option" where
  "value_place m v = (case v_ptr v of Null_value \<Rightarrow> None | In_buffer q \<Rightarrow> Some (m, q) | In_union \<Rightarrow> Some (v_union v, 0))"

definition value_field_name :: "float_ops \<Rightarrow> bytes \<Rightarrow> binn_value \<Rightarrow> bytes option option" where
  "value_field_name fp m v =
     (case value_place m v of None \<Rightarrow> Some None | Some (vm, q) \<Rightarrow> get_string fp vm q key_N)"

definition unbinn_table_field :: "float_ops \<Rightarrow> bytes \<Rightarrow> binn_value \<Rightarrow> mdv_field option option" where
  "unbinn_table_field fp m v =
     (case value_place m v of None \<Rightarrow> Some None
      | Some (vm, q) \<Rightarrow> do {
          t \<leftarrow> get_uint fp vm q key_T BINN_UINT32;
          case t of None \<Rightarrow> Some None
          | Some t \<Rightarrow> do {
              l \<leftarrow> get_uint fp vm q key_L BINN_UINT32;
              case l of None \<Rightarrow> Some None
              | Some l \<Rightarrow> do {
                  name \<leftarrow> get_string fp vm q key_N;
                  Some (map_option (\<lambda>name. \<lparr> fld_type = code_field_type t, fld_limit = l, fld_name = name \<rparr>) name)
                }
            }
        })"

fun field_names_size :: "float_ops \<Rightarrow> bytes \<Rightarrow> binn_value list \<Rightarrow> nat option option" where
  "field_names_size fp m [] = Some (Some 0)"
| "field_names_size fp m (v # vs) = do {
     name \<leftarrow> value_field_name fp m v;
     case name of None \<Rightarrow> Some None
     | Some name \<Rightarrow> map_option (map_option ((+) (length name + 1))) (field_names_size fp m vs)
   }"

text \<open>The second pass. The test lets the position one past the last field through.\<close>

fun unbinn_table_fields :: "float_ops \<Rightarrow> bytes \<Rightarrow> nat \<Rightarrow> nat \<Rightarrow> binn_value list \<Rightarrow> mdv_field list option option" where
  "unbinn_table_fields fp m fields_count i [] = Some (Some [])"
| "unbinn_table_fields fp m fields_count i (v # vs) =
     (if i > fields_count then Some None
      else if i = fields_count then None
      else do {
        fld \<leftarrow> unbinn_table_field fp m v;
        case fld of None \<Rightarrow> Some None
        | Some fld \<Rightarrow> map_option (map_option ((#) fld)) (unbinn_table_fields fp m fields_count (i + 1) vs)
      })"

text \<open>A block whose size does not fit 32 bits is too small for what is copied into it. A description
  with fields that the list does not have holds pointers that were never written; it is None.\<close>

definition mdv_unbinn_table_desc ::
  "float_ops \<Rightarrow> bool \<Rightarrow> bytes \<Rightarrow> nat \<Rightarrow> mdv_table_desc option option" where
  "mdv_unbinn_table_desc fp ok m p = do {
     name \<leftarrow> get_ptr fp m p key_N BINN_STRING;
     case name of None \<Rightarrow> Some None
     | Some name \<Rightarrow> do {
         fields_count \<leftarrow> get_uint fp m p key_S BINN_UINT32;
         case fields_count of None \<Rightarrow> Some None
         | Some fields_count \<Rightarrow> do {
             binn_fields0 \<leftarrow> get_ptr fp m p key_F BINN_LIST;
             case binn_fields0 of None \<Rightarrow> Some None
             | Some (In_buffer q) \<Rightarrow> do {
                 name \<leftarrow> c_string m name;
                 binn_get_ptr_type m q;
                 vs \<leftarrow> binn_list_foreach m q;
                 names \<leftarrow> field_names_size fp m vs;
                 case names of None \<Rightarrow> Some None
                 | Some names \<Rightarrow>
                     if \<not> ok then Some None
                     else if 24 + 16 * fields_count + (length name + 1) + names \<ge> 2 ^ 32 then None
                     else do {
                       flds \<leftarrow> unbinn_table_fields fp m fields_count 0 vs;
                       case flds of None \<Rightarrow> Some None
                       | Some flds \<Rightarrow> if length flds < fields_count then None
                                      else Some (Some \<lparr> td_name = name, td_fields = flds \<rparr>)
                     }
               }
             | _ \<Rightarrow> None
           }
       }
   }"

text \<open>The nested description is handed over by its address, so it is looked at as a structure first.\<close>

definition mdv_unbinn_table ::
  "float_ops \<Rightarrow> bool \<times> bool \<Rightarrow> bytes \<Rightarrow> nat \<Rightarrow> mdv_table option option" where
  "mdv_unbinn_table fp oks m p = do {
     id0 \<leftarrow> mdv_unbinn_table_uuid fp m p;
     case id0 of None \<Rightarrow> Some None
     | Some id0 \<Rightarrow> do {
         desc_obj \<leftarrow> get_ptr fp m p key_D BINN_OBJECT;
         case desc_obj of None \<Rightarrow> Some None
         | Some (In_buffer q) \<Rightarrow> do {
             binn_get_ptr_type m q;
             desc \<leftarrow> mdv_unbinn_table_desc fp (fst oks) m q;
             case desc of None \<Rightarrow> Some None | Some desc \<Rightarrow> mdv_table_create (snd oks) id0 desc
           }
         | _ \<Rightarrow> None
       }
   }"

end
