(* ===== verification/Mdv_Row_Roundtrip.thy ===== *)
theory Mdv_Row_Roundtrip
  imports Mdv_Row
begin

text \<open>
  A row that was serialised is read back with the same columns: the elements, the
  columns as values of the list, and the two passes of the reader over them.
\<close>

section \<open>Elements\<close>

text \<open>The values that the reader gives back: it reads integers as signed 64-bit numbers and
  floats by way of doubles.\<close>

fun element_ok :: "float_ops \<Rightarrow> mdv_field_type \<Rightarrow> bytes \<Rightarrow> bool" where
  "element_ok fp MDV_FLD_TYPE_BOOL bs \<longleftrightarrow> hd bs \<in> {0, 1}"
| "element_ok fp MDV_FLD_TYPE_UINT64 bs \<longleftrightarrow> le_value bs < 2 ^ 63"
| "element_ok fp MDV_FLD_TYPE_FLOAT bs \<longleftrightarrow> f64_to_f32 fp (f32_to_f64 fp (le_word bs)) = le_word bs"
| "element_ok fp (Unknown_type n) bs \<longleftrightarrow> False"
| "element_ok fp _ bs \<longleftrightarrow> True"

lemma unat_le_bytes_word:
  assumes "LENGTH('a :: len) = 8 * length bs"
  shows "unat (le_word bs :: 'a word) = le_value bs"
  using assms le_value_less [of bs] by (simp add: le_word_def unsigned_of_nat take_bit_nat_eq_self power_mult)

lemma le_bytes_of_word:
  assumes "LENGTH('a :: len) = 8 * n" "length bs = n"
  shows "le_bytes n (le_word bs :: 'a word) = bs"
  using assms by (intro le_value_inj) (simp_all add: le_value_bytes unat_le_bytes_word)

lemma get_int32_small:
  assumes "decode m v = Some (Item_int i)" "- (2 ^ 31) \<le> i" "i < 2 ^ 31"
  shows "binn_get_int32 fp m v = Some (Some i)"
  using get_int_decoded(1) [OF assms(1) decode_family [OF assms(1)]] assms(2,3)
  by (simp add: in_range_def int_type_def int_width_def)

lemma get_int64_small:
  assumes "decode m v = Some (Item_int i)" "i < 2 ^ 63"
  shows "binn_get_int64 fp m v = Some (Some i)"
  using get_int_decoded(2) [OF assms(1) decode_family [OF assms(1)]] assms(2) by simp

lemma sint_small: "LENGTH('a) \<le> 32 \<Longrightarrow> - (2 ^ 31) \<le> sint (w :: 'a :: len word) \<and> sint w < 2 ^ 31"
proof -
  assume "LENGTH('a) \<le> 32"
  then have "(2 :: int) ^ (LENGTH('a) - 1) \<le> 2 ^ 31" by (intro power_increasing) auto
  with sint_greater_eq [of w] sint_less [of w] show ?thesis unfolding One_nat_def by linarith
qed

lemma uint_small: "LENGTH('a) \<le> k \<Longrightarrow> uint (w :: 'a :: len word) < 2 ^ k"
proof -
  assume "LENGTH('a) \<le> k"
  then have "(2 :: int) ^ LENGTH('a) \<le> 2 ^ k" by (intro power_increasing) auto
  with unsigned_less [of w, where ?'a = int] show ?thesis by linarith
qed

text \<open>What the reader returns for each written width.\<close>

lemma get_signed:
  "LENGTH('a) \<le> 32 \<Longrightarrow> decode m v = Some (Item_int (sint (w :: 'a :: len word))) \<Longrightarrow> binn_get_int32 fp m v = Some (Some (sint w))"
  using sint_small [of w] by (intro get_int32_small) auto

lemma get_unsigned:
  "LENGTH('a) \<le> 16 \<Longrightarrow> decode m v = Some (Item_int (uint (w :: 'a :: len word))) \<Longrightarrow> binn_get_int32 fp m v = Some (Some (uint w))"
  using uint_small [of 31 w] order.trans [OF _ uint_ge_0, of "- (2 ^ 31)" w] by (intro get_int32_small) auto

lemma get_wide:
  "decode m v = Some (Item_int (uint (w32 :: u32))) \<Longrightarrow> binn_get_int64 fp m v = Some (Some (uint w32))"
  "decode m v = Some (Item_int (sint (w64 :: u64))) \<Longrightarrow> binn_get_int64 fp m v = Some (Some (sint w64))"
  "unat x64 < 2 ^ 63 \<Longrightarrow> decode m v = Some (Item_int (uint (x64 :: u64))) \<Longrightarrow> binn_get_int64 fp m v = Some (Some (uint x64))"
proof -
  show "binn_get_int64 fp m v = Some (Some (uint w32))" if "decode m v = Some (Item_int (uint w32))"
    using get_int64_small [OF that] uint_small [of 32 w32] by simp
  show "binn_get_int64 fp m v = Some (Some (sint w64))" if "decode m v = Some (Item_int (sint w64))"
    using get_int64_small [OF that] sint_less [of w64] by simp
  show "binn_get_int64 fp m v = Some (Some (uint x64))" if "unat x64 < 2 ^ 63" "decode m v = Some (Item_int (uint x64))"
  proof (rule get_int64_small [OF that(2)])
    from that(1) have "int (unat x64) < int (2 ^ 63)" by (rule iffD2 [OF of_nat_less_iff])
    then show "uint x64 < 2 ^ 63" by simp
  qed
qed

lemma element_back:
  assumes "field_arg t = Some arg" "length bs = mdv_field_type_size t" "element_ok fp t bs" "value_ok v"
    and "decode m v = Some (arg_item (arg bs))"
  shows "binn_get fp m v t = Some (Some bs)"
proof (cases "mdv_field_type_size t = 1")
  case True
  then have "bs = [hd bs]" using assms(2) by (cases bs) auto
  then obtain x where x: "bs = [x]" by blast
  show ?thesis
    using assms True x get_decoded(1) [OF assms(4), of m "x \<noteq> 0" fp] get_signed [of m v x fp] get_unsigned [of m v x fp]
    by (cases t) auto
next
  case False
  have w16: "le_bytes 2 (le_word bs :: u16) = bs" if "length bs = 2" using that by (intro le_bytes_of_word) simp_all
  have w32: "le_bytes 4 (le_word bs :: u32) = bs" if "length bs = 4" using that by (intro le_bytes_of_word) simp_all
  have w64: "le_bytes 8 (le_word bs :: u64) = bs" "unat (le_word bs :: u64) = le_value bs" if "length bs = 8"
    using that by (auto intro!: le_bytes_of_word unat_le_bytes_word)
  show ?thesis
    using assms False get_decoded(2,3) [OF assms(4), of m bs fp]
      get_signed [of m v "le_word bs :: u16" fp] get_unsigned [of m v "le_word bs :: u16" fp]
      get_signed [of m v "le_word bs :: u32" fp] get_wide(1,2) [of m v "le_word bs" fp]
      get_wide(3) [of "le_word bs" m v fp]
    by (cases t; clarsimp simp: w16 w32 w64)
qed

lemma field_arg_take: "field_arg t = Some arg \<Longrightarrow> arg (take (mdv_field_type_size t) bs) = arg bs"
  by (cases t) auto

lemma field_arg_wf: "field_arg t = Some arg \<Longrightarrow> arg_wf (arg bs)"
  by (cases t) auto

lemma field_arg_some: "mdv_field_type_size t \<noteq> 0 \<Longrightarrow> \<exists>arg. field_arg t = Some arg"
  by (cases t) auto

primrec chunks :: "nat \<Rightarrow> nat \<Rightarrow> bytes \<Rightarrow> bytes list" where
  "chunks k 0 bs = []"
| "chunks k (Suc n) bs = take k bs # chunks k n (drop k bs)"

lemma length_chunks [simp]: "length (chunks k n bs) = n"
  by (induction n arbitrary: bs) simp_all

lemma concat_chunks: "concat (chunks k n bs) = take (k * n) bs"
  by (induction n arbitrary: bs) (simp_all add: take_add)

lemma chunk_length: "k * n \<le> length bs \<Longrightarrow> c \<in> set (chunks k n bs) \<Longrightarrow> length c = k"
proof (induction n arbitrary: bs)
  case (Suc n)
  then have "k * n \<le> length (drop k bs)" by simp
  from Suc.IH [OF this] Suc.prems show ?case by auto
qed simp

lemma add_elements_run:
  assumes "add_elements t n (Some bs) (item, oks) = Some (True, item', oks')" "field_arg t = Some arg" "list_holds is item"
  shows "list_holds (is @ map (\<lambda>c. arg_item (arg c)) (chunks (mdv_field_type_size t) n bs)) item'"
  using assms(1,3)
proof (induction n arbitrary: bs item oks "is")
  case (Suc n)
  obtain ok oks1 where ok: "next_ok oks = (ok, oks1)" by (cases "next_ok oks")
  obtain item1 where add: "binn_list_add_arg ok (arg bs) item = Some (True, item1)"
    and rest: "add_elements t n (Some (drop (mdv_field_type_size t) bs)) (item1, oks1) = Some (True, item', oks')"
    using Suc.prems(1) assms(2) by (auto simp: ok binn_add_to_list_def bind_eq_Some_conv split: if_splits)
  have "adds (arg_item (arg bs)) item item1"
    using Suc.prems(2) by (intro list_add_arg_run [OF add] field_arg_wf [OF assms(2)]) (simp add: list_holds_def)
  from Suc.IH [OF rest adds_holds [OF Suc.prems(2) this]] show ?case
    using field_arg_take [OF assms(2), of bs] by simp
qed simp

lemma unbinn_elements_run:
  assumes "list_all2 (\<lambda>e c. binn_get fp m e t = Some (Some c)) es cs"
    and "dataspace + mdv_field_type_size t * length es \<le> row_size"
  shows "unbinn_elements fp m t row_size es dataspace out = Some (Some (out @ concat cs))"
  using assms by (induction arbitrary: dataspace out rule: list_all2_induct) auto


section \<open>Columns\<close>

definition data_bytes :: "mdv_data \<Rightarrow> bytes" where
  "data_bytes d = (case d_ptr d of None \<Rightarrow> [] | Some bs \<Rightarrow> bs)"

text \<open>A field within what its column allows.\<close>

definition field_ok :: "float_ops \<Rightarrow> mdv_field \<Rightarrow> mdv_data \<Rightarrow> bool" where
  "field_ok fp fld d \<longleftrightarrow>
     (let k = mdv_field_type_size (fld_type fld); n = d_size d div k in
      k \<noteq> 0 \<and> d_size d = k * n \<and> (fld_limit fld \<noteq> 0 \<longrightarrow> n \<le> fld_limit fld) \<and>
      length (data_bytes d) = d_size d \<and> d_size d \<le> 0x1000000 \<and>
      (fld_limit fld = 1 \<longrightarrow> n = 1) \<and>
      (fld_limit fld = 1 \<or> k \<noteq> 1 \<longrightarrow> (\<forall>c \<in> set (chunks k n (data_bytes d)). element_ok fp (fld_type fld) c)))"

text \<open>The value that a column becomes, and the field it comes back as.\<close>

definition field_as :: "mdv_field \<Rightarrow> mdv_data \<Rightarrow> binn_item \<Rightarrow> bool" where
  "field_as fld d i \<longleftrightarrow>
     (let k = mdv_field_type_size (fld_type fld); arg = the (field_arg (fld_type fld)) in
      if fld_limit fld = 1 then i = arg_item (arg (data_bytes d))
      else if k = 1 then i = Item_blob (data_bytes d)
      else \<exists>nested. i = Item_container (binn_serialised nested) \<and>
        list_holds (map (\<lambda>c. arg_item (arg c)) (chunks k (d_size d div k) (data_bytes d))) nested)"

definition field_back :: "mdv_field \<Rightarrow> mdv_data \<Rightarrow> mdv_data" where
  "field_back fld d = \<lparr> d_size = d_size d, d_ptr =
     (if fld_limit fld \<noteq> 1 \<and> mdv_field_type_size (fld_type fld) = 1 \<and> d_size d = 0 then None else Some (data_bytes d)) \<rparr>"

lemma list_add_holds:
  assumes "binn_list_add_arg ok a item = Some (True, item')" "list_holds is item" "arg_wf a"
  shows "list_holds (is @ [arg_item a]) item'"
  using assms by (intro adds_holds [OF assms(2) list_add_arg_run [OF assms(1)]]) (simp_all add: list_holds_def)

lemma add_with_holds:
  assumes "add_with a (item, oks) = Some (True, item', oks')" "list_holds is item" "arg_wf a"
  shows "list_holds (is @ [arg_item a]) item'"
  using assms by (auto simp: add_with_def split: prod.splits intro: list_add_holds)

lemma serialised_wf: "list_holds is item \<Longrightarrow> arg_wf (Arg_list (binn_serialised item))"
  using serialised_list [of "is" item] concat_length container_size_ge(3)
  by (fastforce simp: is_container_def)

lemma field_ok_exists: "field_ok fp fld d \<Longrightarrow> field_exists d"
  by (auto simp: field_ok_def field_exists_def data_bytes_def Let_def split: option.splits)

lemma add_array_run:
  assumes "add_array t n data (item, oks) = Some (True, item', oks')" "field_arg t = Some arg" "list_holds is item"
    and "data = None \<longrightarrow> n = 0"
  shows "\<exists>nested. list_holds (map (\<lambda>c. arg_item (arg c))
      (chunks (mdv_field_type_size t) n (case data of None \<Rightarrow> [] | Some bs \<Rightarrow> bs))) nested \<and>
    list_holds (is @ [Item_container (binn_serialised nested)]) item'"
proof -
  obtain ok oks1 where ok: "next_ok oks = (ok, oks1)" by (cases "next_ok oks")
  obtain fresh nested oks2 where fresh: "binn_create_list ok = Some fresh"
    and nested: "add_elements t n data (fresh, oks1) = Some (True, nested, oks2)"
    and add: "add_with (Arg_list (binn_serialised nested)) (item, oks2) = Some (True, item', oks')"
    using assms(1) by (auto simp: add_array_def ok bind_eq_Some_conv split: option.splits if_splits)
  have "ok" using fresh by (cases ok) (simp_all add: binn_create_list_def binn_create_def)
  with fresh have "list_holds [] fresh" by (simp add: new_list_holds)
  then have holds: "list_holds (map (\<lambda>c. arg_item (arg c))
      (chunks (mdv_field_type_size t) n (case data of None \<Rightarrow> [] | Some bs \<Rightarrow> bs))) nested"
    using nested assms(2,4) add_elements_run [of t n _ fresh oks1 nested oks2 arg "[]"]
    by (cases data) auto
  from add_with_holds [OF add assms(3) serialised_wf [OF holds]] holds show ?thesis by auto
qed

lemma row_field_run:
  assumes "binn_row_field fld d (item, oks) = Some (True, item', oks')" "field_ok fp fld d" "list_holds is item"
  shows "\<exists>i. field_as fld d i \<and> list_holds (is @ [i]) item'"
proof -
  let ?k = "mdv_field_type_size (fld_type fld)" and ?n = "d_size d div mdv_field_type_size (fld_type fld)"
  have k: "?k \<noteq> 0" and sizes: "d_size d = ?k * ?n" "length (data_bytes d) = d_size d" "fld_limit fld = 1 \<longrightarrow> ?n = 1"
    using assms(2) by (auto simp: field_ok_def Let_def)
  obtain arg where arg: "field_arg (fld_type fld) = Some arg" using field_arg_some [OF k] by blast
  consider (one) "fld_limit fld = 1" | (blob) "fld_limit fld \<noteq> 1" "?k = 1" | (array) "fld_limit fld \<noteq> 1" "?k \<noteq> 1" by blast
  then show ?thesis
  proof cases
    case one
    obtain ok oks1 where ok: "next_ok oks = (ok, oks1)" by (cases "next_ok oks")
    have "binn_list_add_arg ok (arg (data_bytes d)) item = Some (True, item')"
      using assms(1) field_ok_exists [OF assms(2)] one k
      by (auto simp: binn_row_field_def Let_def ok binn_add_to_list_def arg data_bytes_def split: if_splits option.splits)
    from list_add_holds [OF this assms(3) field_arg_wf [OF arg]] one show ?thesis
      by (auto simp: field_as_def arg)
  next
    case blob
    have "\<exists>p. add_with (Arg_blob p) (item, oks) = Some (True, item', oks') \<and> (case p of None \<Rightarrow> [] | Some bs \<Rightarrow> bs) = data_bytes d"
      using assms(1) field_ok_exists [OF assms(2)] blob sizes(2)
      by (auto simp: binn_row_field_def Let_def data_bytes_def split: if_splits option.splits)
    then obtain p where p: "add_with (Arg_blob p) (item, oks) = Some (True, item', oks')"
      "(case p of None \<Rightarrow> [] | Some bs \<Rightarrow> bs) = data_bytes d" by blast
    from add_with_holds [OF p(1) assms(3)] blob p(2) show ?thesis by (auto simp: field_as_def)
  next
    case array
    have add: "add_array (fld_type fld) ?n (d_ptr d) (item, oks) = Some (True, item', oks')"
      using assms(1) field_ok_exists [OF assms(2)] array k by (auto simp: binn_row_field_def Let_def split: if_splits)
    have null: "d_ptr d = None \<longrightarrow> ?n = 0" using sizes(2) by (auto simp: data_bytes_def)
    obtain nested where nested: "list_holds (map (\<lambda>c. arg_item (arg c)) (chunks ?k ?n (data_bytes d))) nested"
      "list_holds (is @ [Item_container (binn_serialised nested)]) item'"
      using add_array_run [OF add arg assms(3) null] by (auto simp: data_bytes_def)
    have "field_as fld d (Item_container (binn_serialised nested))"
      using array nested(1) arg unfolding field_as_def Let_def by auto
    with nested(2) show ?thesis by blast
  qed
qed

lemma row_fields_run:
  assumes "binn_row_fields flds row (item, oks) = Some (True, item', oks')" "list_all2 (field_ok fp) flds row"
    and "list_holds is item"
  shows "\<exists>js. list_holds (is @ js) item' \<and> length js = length flds \<and>
    (\<forall>n < length flds. field_as (flds ! n) (row ! n) (js ! n))"
  using assms(2,1,3)
proof (induction arbitrary: item oks "is" rule: list_all2_induct)
  case (Cons f fs d ds)
  obtain item1 oks1 where one: "binn_row_field f d (item, oks) = Some (True, item1, oks1)"
    and rest: "binn_row_fields fs ds (item1, oks1) = Some (True, item', oks')"
    using Cons.prems(1) by (auto simp: bind_eq_Some_conv split: if_splits)
  from row_field_run [OF one Cons.hyps(1) Cons.prems(2)] obtain i where
    i: "field_as f d i" "list_holds (is @ [i]) item1" by blast
  from Cons.IH [OF rest i(2)] obtain js where "list_holds ((is @ [i]) @ js) item'" "length js = length fs"
    "\<forall>n < length fs. field_as (fs ! n) (ds ! n) (js ! n)" by blast
  with i(1) show ?case by (auto intro!: exI [of _ "i # js"] simp: nth_Cons split: nat.splits)
qed (auto intro: exI [of _ "[]"])


section \<open>Reading the columns\<close>

lemma decode_mem:
  "decode m v = Some (Item_container bs) \<Longrightarrow> value_mem m v (v_size v) = Some bs"
  "decode m v = Some (Item_blob bs) \<Longrightarrow> value_mem m v (v_size v) = Some bs"
  by (auto simp: decode_def bind_eq_Some_conv split: if_splits)

lemma nested_values:
  assumes "list_holds is nested" "rds m p n = Some (binn_serialised nested)"
  shows "\<exists>es. binn_list_foreach m p = Some es \<and> decodes m es is"
proof -
  from serialised_list [OF assms(1)] obtain encs where
    ser: "binn_serialised nested = container BINN_LIST (length is) (concat encs)"
      "list_all2 reads_as encs is" "container_size (length is) (concat encs) < 2 ^ 31" by blast
  from foreach_run [OF ser(2) _ ser(3)] holds_at_rds [OF assms(2)] show ?thesis unfolding ser(1) by blast
qed

lemma value_elements_run:
  assumes "decode m v = Some (Item_container (binn_serialised nested))" "list_holds is nested"
  shows "\<exists>em es. value_elements m v = Some (em, es) \<and> v_ptr v \<noteq> Null_value \<and> decodes em es is \<and> (\<forall>e \<in> set es. value_ok e)"
  using decode_mem(1) [OF assms(1)] nested_values [OF assms(2)] foreach_ok
  by (fastforce simp: value_mem_def value_elements_def split: value_ptr.splits)

lemma elements_back:
  assumes "decodes em es (map (\<lambda>c. arg_item (arg c)) cs)" "\<forall>e \<in> set es. value_ok e" "field_arg t = Some arg"
    and "\<forall>c \<in> set cs. length c = mdv_field_type_size t \<and> element_ok fp t c"
  shows "list_all2 (\<lambda>e c. binn_get fp em e t = Some (Some c)) es cs"
  using assms by (auto simp: decodes_def list_all2_conv_all_nth intro!: element_back)

text \<open>A value that both passes of the reader take for the given field.\<close>

definition reads_field :: "float_ops \<Rightarrow> bytes \<Rightarrow> mdv_field \<Rightarrow> binn_value \<Rightarrow> mdv_data \<Rightarrow> bool" where
  "reads_field fp m fld v d \<longleftrightarrow> mdv_field_type_size (fld_type fld) \<noteq> 0 \<and> field_bytes m fld v = Some (d_size d) \<and>
     (\<forall>row_size ds. ds + d_size d \<le> row_size \<longrightarrow> unbinn_field fp m fld row_size ds v = Some (Some (d, ds + d_size d)))"

lemma field_reads:
  assumes "field_ok fp fld d" "field_as fld d i" "decode m v = Some i" "value_ok v"
  shows "reads_field fp m fld v (field_back fld d)"
proof -
  let ?k = "mdv_field_type_size (fld_type fld)" and ?n = "d_size d div mdv_field_type_size (fld_type fld)"
  have k: "?k \<noteq> 0" and sizes: "?k * ?n = d_size d" "length (data_bytes d) = d_size d" "fld_limit fld = 1 \<longrightarrow> ?n = 1"
    and oks: "fld_limit fld = 1 \<or> ?k \<noteq> 1 \<longrightarrow> (\<forall>c \<in> set (chunks ?k ?n (data_bytes d)). element_ok fp (fld_type fld) c)"
    using assms(1) by (auto simp: field_ok_def Let_def)
  obtain arg where arg: "field_arg (fld_type fld) = Some arg" using field_arg_some [OF k] by blast
  consider (one) "fld_limit fld = 1" | (blob) "fld_limit fld \<noteq> 1" "?k = 1" | (array) "fld_limit fld \<noteq> 1" "?k \<noteq> 1" by blast
  then show ?thesis
  proof cases
    case one
    then have size: "d_size d = ?k" using sizes by simp
    then have "binn_get fp m v (fld_type fld) = Some (Some (data_bytes d))"
      using assms(2-4) one oks sizes arg by (intro element_back) (auto simp: field_as_def)
    with one k size show ?thesis
      by (simp add: reads_field_def field_bytes_def unbinn_field_def field_back_def Let_def)
  next
    case blob
    then have mem: "value_mem m v (v_size v) = Some (data_bytes d)"
      using assms(2,3) decode_mem(2) by (auto simp: field_as_def)
    then have "v_size v = d_size d" "v_ptr v \<noteq> Null_value"
      using sizes(2) by (auto simp: value_mem_def split: value_ptr.splits dest: length_rds)
    with blob mem show ?thesis
      by (simp add: reads_field_def field_bytes_def unbinn_field_def field_back_def Let_def)
  next
    case array
    then obtain nested where nested: "i = Item_container (binn_serialised nested)"
      "list_holds (map (\<lambda>c. arg_item (arg c)) (chunks ?k ?n (data_bytes d))) nested"
      using assms(2) arg by (auto simp: field_as_def Let_def)
    from value_elements_run [OF _ nested(2)] assms(3) nested(1) obtain em es where
      es: "value_elements m v = Some (em, es)" "v_ptr v \<noteq> Null_value"
        "decodes em es (map (\<lambda>c. arg_item (arg c)) (chunks ?k ?n (data_bytes d)))" "\<forall>e \<in> set es. value_ok e" by blast
    have "\<forall>c \<in> set (chunks ?k ?n (data_bytes d)). length c = ?k \<and> element_ok fp (fld_type fld) c"
      using oks array chunk_length [of ?k ?n "data_bytes d"] sizes by simp
    from elements_back [OF es(3,4) arg this]
    have get: "list_all2 (\<lambda>e c. binn_get fp em e (fld_type fld) = Some (Some c)) es (chunks ?k ?n (data_bytes d))" .
    then have "length es = ?n" by (auto dest: list_all2_lengthD)
    then have len: "?k * length es = d_size d" using sizes(1) by simp
    have "concat (chunks ?k ?n (data_bytes d)) = data_bytes d" using sizes by (simp add: concat_chunks)
    with unbinn_elements_run [OF get] array k es(1,2) len show ?thesis
      by (simp add: reads_field_def field_bytes_def unbinn_field_def field_back_def Let_def)
  qed
qed

lemma calc_row_run:
  assumes "\<forall>j < length vs. reads_field fp m (flds ! (n + j)) (vs ! j) (outs ! j)" "length outs = length vs"
    and "n + length vs \<le> length flds" "\<forall>j < length flds. mdv_bitset_test fmask j = Some (j \<in> sel)"
  shows "calc_row_loop m flds fmask n vs (row_size, fields_count) = Some (Some
    (row_size + sum_list (map d_size (nths outs {j. n + j \<in> sel})), fields_count + length (nths outs {j. n + j \<in> sel})))"
  using assms(1-3)
proof (induction vs arbitrary: n outs row_size fields_count)
  case (Cons v vs)
  then obtain d ds where outs: "outs = d # ds" by (cases outs) auto
  have "reads_field fp m (flds ! n) v d" using Cons.prems(1) by (auto simp: outs)
  moreover have "\<forall>j < length vs. reads_field fp m (flds ! (Suc n + j)) (vs ! j) (ds ! j)"
    using Cons.prems(1) by (auto simp: outs dest: spec [of _ "Suc _"])
  ultimately show ?case
    using Cons.IH [of "Suc n" ds] Cons.prems(2,3) assms(4)
    by (simp add: outs reads_field_def nths_Cons Let_def)
qed simp

lemma unbinn_row_run:
  assumes "\<forall>j < length vs. reads_field fp m (flds ! (n + j)) (vs ! j) (outs ! j)" "length outs = length vs"
    and "n + length vs \<le> length flds" "\<forall>j < length flds. mdv_bitset_test fmask j = Some (j \<in> sel)"
    and "dataspace + sum_list (map d_size (nths outs {j. n + j \<in> sel})) \<le> row_size"
  shows "unbinn_loop fp m flds fmask row_size n vs dataspace = Some (Some (nths outs {j. n + j \<in> sel}))"
  using assms(1-3,5)
proof (induction vs arbitrary: n outs dataspace)
  case (Cons v vs)
  then obtain d ds where outs: "outs = d # ds" by (cases outs) auto
  have "reads_field fp m (flds ! n) v d" using Cons.prems(1) by (auto simp: outs)
  moreover have "\<forall>j < length vs. reads_field fp m (flds ! (Suc n + j)) (vs ! j) (ds ! j)"
    using Cons.prems(1) by (auto simp: outs dest: spec [of _ "Suc _"])
  ultimately show ?case
    using Cons.IH [of "Suc n" ds] Cons.prems(2-4) assms(4)
    by (auto simp: outs reads_field_def nths_Cons)
qed simp

end
