(* ===== verification/Mdv_Row_Spec.thy ===== *)
theory Mdv_Row_Spec
  imports Mdv_Row_Roundtrip
begin

text \<open>
  Whole rows: the writer succeeds on every row within the limits when memory does
  not run out, and the reader gives back the columns it is asked for.
\<close>

section \<open>Reading a row back\<close>

lemma sum_list_nths_le: "sum_list (nths xs A) \<le> (sum_list xs :: nat)"
proof (induction xs arbitrary: A)
  case (Cons x xs)
  from Cons.IH [of "{j. Suc j \<in> A}"] show ?case by (simp add: nths_Cons)
qed simp

lemma length_nths_le: "length (nths xs A) \<le> length xs"
  using card_mono [of "{i. i < length xs}" "{i. i < length xs \<and> i \<in> A}"] by (auto simp: length_nths)

lemma has_any_data_run:
  "length flds = length row \<Longrightarrow> has_any_data flds row = Some (\<exists>d \<in> set row. d_ptr d \<noteq> None \<and> d_size d > 0)"
  by (induction flds row rule: has_any_data.induct) auto

lemma binn_row_run:
  assumes "mdv_binn_row oks row desc = Some (Some item)" "list_all2 (field_ok fp) (td_fields desc) row"
  shows "\<exists>js. list_holds js item \<and> length js = length (td_fields desc) \<and> js \<noteq> [] \<and>
    (\<forall>n < length js. field_as (td_fields desc ! n) (row ! n) (js ! n))"
proof -
  obtain ok oks1 where ok: "next_ok oks = (ok, oks1)" by (cases "next_ok oks")
  obtain fresh oks2 where fresh: "binn_create_list ok = Some fresh" and ne: "td_fields desc \<noteq> []"
    and run: "binn_row_fields (td_fields desc) row (fresh, oks1) = Some (True, item, oks2)"
    using assms(1) by (auto simp: mdv_binn_row_def ok bind_eq_Some_conv split: option.splits if_splits)
  have "ok" using fresh by (cases ok) (simp_all add: binn_create_list_def binn_create_def)
  with fresh have "list_holds [] fresh" by (simp add: new_list_holds)
  from row_fields_run [OF run assms(2) this] ne show ?thesis by auto
qed

lemma row_valid:
  assumes "list_holds is item" "is \<noteq> []" "m = pre @ binn_serialised item @ post" "p = length pre"
  shows "\<exists>r vs. binn_is_valid m p = Some (Some r) \<and> binn_list_foreach m p = Some vs \<and> decodes m vs is \<and>
    mdv_binn_list_length m p = Some (length is) \<and> (\<forall>v \<in> set vs. value_ok v)"
proof -
  from serialised_list [OF assms(1)] obtain encs where
    ser: "binn_serialised item = container BINN_LIST (length is) (concat encs)" "list_all2 reads_as encs is" by blast
  have "1 \<le> length (concat encs)" using concat_length [OF ser(2)] assms(2) by (cases "is") auto
  then have "4 \<le> length (binn_serialised item @ post)"
    by (simp add: ser(1) length_container container_size_def Let_def)
  from serialised_read_as [OF assms(1) this, of pre] obtain v vs where
    read: "binn_load m p = Some (Some v)" "binn_list_foreach m p = Some vs" "map (decode m) vs = map Some is"
      "mdv_binn_list_length m p = Some (length is)"
    by (auto simp: list_read_as_def assms(3,4))
  have "length vs = length is" using read(3) by (metis length_map)
  then have "decodes m vs is"
    using read(3) by (auto simp: decodes_def list_all2_conv_all_nth list_eq_iff_nth_eq)
  moreover obtain r where "binn_is_valid m p = Some (Some r)"
    using read(1) by (auto simp: binn_load_def bind_eq_Some_conv)
  ultimately show ?thesis using read(2,4) foreach_ok [OF read(2)] by blast
qed

lemma row_read_back:
  assumes "list_holds js item" "length js = length (td_fields desc)" "js \<noteq> []" "length (td_fields desc) \<le> 1000"
    and "list_all2 (field_ok fp) (td_fields desc) row"
    and as: "\<forall>n < length js. field_as (td_fields desc ! n) (row ! n) (js ! n)"
    and sel: "\<forall>n < length row. mdv_bitset_test fmask n = Some (n \<in> sel)" "\<exists>n < length row. n \<in> sel"
    and total: "sum_list (map d_size row) \<le> 2 ^ 27"
  shows "mdv_unbinn_row_slice fp True (pre @ binn_serialised item @ post) (length pre) desc fmask =
    Some (Some (nths (map2 field_back (td_fields desc) row) sel))"
proof -
  let ?m = "pre @ binn_serialised item @ post" and ?outs = "map2 field_back (td_fields desc) row"
  have len: "length row = length (td_fields desc)" using assms(5) by (auto dest: list_all2_lengthD)
  obtain r vs where valid: "binn_is_valid ?m (length pre) = Some (Some r)" "binn_list_foreach ?m (length pre) = Some vs"
    "decodes ?m vs js" "mdv_binn_list_length ?m (length pre) = Some (length js)" "\<forall>v \<in> set vs. value_ok v"
    using row_valid [OF assms(1,3) refl refl] by blast
  have lvs: "length vs = length js" using valid(3) by (auto simp: decodes_def dest: list_all2_lengthD)
  have "reads_field fp ?m (td_fields desc ! j) (vs ! j) (?outs ! j)" if "j < length vs" for j
    using field_reads [of fp "td_fields desc ! j" "row ! j" "js ! j" ?m "vs ! j"] that lvs len assms(2,5) as valid(3,5)
    by (auto simp: decodes_def list_all2_conv_all_nth)
  then have reads: "\<forall>j < length vs. reads_field fp ?m (td_fields desc ! (0 + j)) (vs ! j) (?outs ! j)" by simp
  define total1 count where "total1 = sum_list (map d_size (nths ?outs sel))" and "count = length (nths ?outs sel)"
  have louts: "length ?outs = length vs" "0 + length vs \<le> length (td_fields desc)" using lvs len assms(2) by auto
  have test: "\<forall>j < length (td_fields desc). mdv_bitset_test fmask j = Some (j \<in> sel)" using sel(1) len by simp
  have calc: "calc_row_loop ?m (td_fields desc) fmask 0 vs (0, 0) = Some (Some (total1, count))"
    using calc_row_run [OF reads louts test, of 0 0] by (simp add: total1_def count_def)
  have loop: "unbinn_loop fp ?m (td_fields desc) fmask (total1 + row_overhead count + 16) 0 vs (row_overhead count) =
      Some (Some (nths ?outs sel))"
    using unbinn_row_run [OF reads louts test, of "row_overhead count" "total1 + row_overhead count + 16"]
    by (simp add: total1_def)
  have "map d_size ?outs = map d_size row"
    using len by (auto simp: list_eq_iff_nth_eq field_back_def)
  then have "total1 \<le> sum_list (map d_size row)"
    using sum_list_nths_le [of "map d_size ?outs" sel] unfolding total1_def nths_map by argo
  moreover have "count \<le> 1000" using length_nths_le [of ?outs sel] assms(4) len by (simp add: count_def)
  ultimately have small: "total1 + row_overhead count + 16 \<le> 0x10000000" using total by simp
  have "count \<noteq> 0" using sel(2) len by (auto simp: count_def length_nths)
  moreover have "td_fields desc \<noteq> []" using assms(2,3) by auto
  ultimately show ?thesis using calc loop valid small assms(3,4)
    by (auto simp: mdv_unbinn_row_slice_def mdv_calc_row_size_def)
qed


section \<open>Writing succeeds\<close>

lemma next_ok_Nil [simp]: "next_ok [] = (True, [])"
  by (simp add: next_ok_def)

lemma field_arg_room: "field_arg t = Some arg \<Longrightarrow> arg_room (arg bs) = 10"
  by (cases t) auto

lemma add_elements_some:
  assumes "field_arg t = Some arg" "buffer_pow item" "b_type item = BINN_LIST"
    and "mdv_field_type_size t * n \<le> length bs" "used_size item + 10 * n \<le> 2 ^ 30"
  shows "\<exists>item'. add_elements t n (Some bs) (item, []) = Some (True, item', []) \<and> used_size item' \<le> used_size item + 10 * n"
  using assms(2-5)
proof (induction n arbitrary: bs item)
  case (Suc n)
  have room: "used_size item + arg_room (arg bs) \<le> 2 ^ 30" using Suc.prems(4) field_arg_room [OF assms(1), of bs] by simp
  from list_add_arg_some [OF field_arg_wf [OF assms(1)] Suc.prems(1,2) room] obtain item1 where
    item1: "binn_list_add_arg True (arg bs) item = Some (True, item1)" "buffer_pow item1"
      "used_size item1 \<le> used_size item + 10" "b_type item1 = BINN_LIST"
    by (auto simp: field_arg_room [OF assms(1)])
  have "mdv_field_type_size t * n \<le> length (drop (mdv_field_type_size t) bs)" "used_size item1 + 10 * n \<le> 2 ^ 30"
    using Suc.prems(3,4) item1(3) by auto
  from Suc.IH [OF item1(2,4) this] obtain item' where
    "add_elements t n (Some (drop (mdv_field_type_size t) bs)) (item1, []) = Some (True, item', [])"
    "used_size item' \<le> used_size item1 + 10 * n" by blast
  with item1(1,3) Suc.prems(3) show ?case by (auto simp: binn_add_to_list_def assms(1))
qed simp

lemma serialised_short:
  assumes "list_holds is item"
  shows "length (binn_serialised item) \<le> used_size item"
proof -
  have "length (binn_serialised item) = container_size (b_count item) (payload item)"
    using assms by (simp add: list_holds_def serialised_container length_container)
  moreover have "length (payload item) = used_size item - 9" "9 \<le> used_size item"
    using assms by (simp_all add: list_holds_def payload_def buffer_ok_def)
  ultimately show ?thesis by (simp add: container_size_def Let_def split: if_splits)
qed

lemma add_with_some:
  assumes "arg_wf a" "list_holds is item" "buffer_pow item" "used_size item + arg_room a \<le> 2 ^ 30"
  shows "\<exists>item'. add_with a (item, []) = Some (True, item', []) \<and> buffer_pow item' \<and> used_size item' \<le> used_size item + arg_room a"
  using list_add_arg_some [OF assms(1,3) _ assms(4)] assms(2) by (fastforce simp: add_with_def list_holds_def)

lemma add_array_some:
  assumes "field_arg t = Some arg" "list_holds is item" "buffer_pow item" "used_size item + 10 * n + 11 \<le> 2 ^ 30"
    and "mdv_field_type_size t * n \<le> length (case data of None \<Rightarrow> [] | Some bs \<Rightarrow> bs)" "mdv_field_type_size t \<noteq> 0"
  shows "\<exists>item'. add_array t n data (item, []) = Some (True, item', []) \<and> buffer_pow item' \<and>
    used_size item' \<le> used_size item + 10 * n + 11"
proof -
  have new: "list_holds [] new_list" "b_type new_list = BINN_LIST" "used_size new_list = 9"
    using new_list_holds [OF create_new_list] by (simp_all add: new_list_def)
  obtain nested where nested: "add_elements t n data (new_list, []) = Some (True, nested, [])"
    "used_size nested \<le> 9 + 10 * n" "\<exists>js. list_holds js nested"
  proof (cases data)
    case None
    then have "n = 0" using assms(5,6) by auto
    with new None show ?thesis by (intro that [of new_list]) auto
  next
    case (Some bs)
    then have "mdv_field_type_size t * n \<le> length bs" "used_size new_list + 10 * n \<le> 2 ^ 30" using assms(4,5) new(3) by auto
    from add_elements_some [OF assms(1) new_list_pow new(2) this] obtain nested where
      "add_elements t n (Some bs) (new_list, []) = Some (True, nested, [])" "used_size nested \<le> 9 + 10 * n"
      using new(3) by auto
    with add_elements_run [OF _ assms(1) new(1)] Some show ?thesis by (intro that [of nested]) blast+
  qed
  then obtain js where js: "list_holds js nested" by blast
  have room: "arg_room (Arg_list (binn_serialised nested)) \<le> 10 * n + 11"
    using serialised_short [OF js] nested(2) by simp
  then have "used_size item + arg_room (Arg_list (binn_serialised nested)) \<le> 2 ^ 30" using assms(4) by linarith
  from add_with_some [OF serialised_wf [OF js] assms(2,3) this] obtain item' where
    item': "add_with (Arg_list (binn_serialised nested)) (item, []) = Some (True, item', [])" "buffer_pow item'"
    "used_size item' \<le> used_size item + arg_room (Arg_list (binn_serialised nested))" by blast
  moreover have "add_array t n data (item, []) = Some (True, item', [])"
    using item'(1) nested(1) by (simp add: add_array_def create_new_list)
  ultimately show ?thesis using room by (intro exI [of _ item']) linarith
qed

text \<open>Room for one field: an element of two bytes or more is written in at most ten.\<close>

abbreviation (input) field_room :: "mdv_data \<Rightarrow> nat" where
  "field_room d \<equiv> 5 * d_size d + 17"

lemma row_field_some:
  assumes "field_ok fp fld d" "list_holds is item" "buffer_pow item" "used_size item + field_room d \<le> 2 ^ 30"
  shows "\<exists>item'. binn_row_field fld d (item, []) = Some (True, item', []) \<and> buffer_pow item' \<and>
    used_size item' \<le> used_size item + field_room d"
proof -
  let ?k = "mdv_field_type_size (fld_type fld)" and ?n = "d_size d div mdv_field_type_size (fld_type fld)"
  have k: "?k \<noteq> 0" and limit: "fld_limit fld \<noteq> 0 \<longrightarrow> ?n \<le> fld_limit fld"
    and sizes: "?k * ?n = d_size d" "length (data_bytes d) = d_size d" "fld_limit fld = 1 \<longrightarrow> ?n = 1"
    using assms(1) by (auto simp: field_ok_def Let_def)
  have whole: "d_size d mod ?k = 0" using sizes(1) by (metis mod_mult_self1_is_0)
  obtain arg where arg: "field_arg (fld_type fld) = Some arg" using field_arg_some [OF k] by blast
  have list: "b_type item = BINN_LIST" using assms(2) by (simp add: list_holds_def)
  note row_field = binn_row_field_def Let_def field_ok_exists [OF assms(1)] whole
  consider (one) "fld_limit fld = 1" | (blob) "fld_limit fld \<noteq> 1" "?k = 1" | (array) "fld_limit fld \<noteq> 1" "?k \<noteq> 1" by blast
  then show ?thesis
  proof cases
    case one
    then have size: "d_size d = ?k" using sizes by simp
    then obtain bs where bs: "d_ptr d = Some bs" "length bs = ?k" using sizes(2) k by (auto simp: data_bytes_def split: option.splits)
    have "used_size item + arg_room (arg bs) \<le> 2 ^ 30" using assms(4) field_arg_room [OF arg, of bs] by simp
    from list_add_arg_some [OF field_arg_wf [OF arg] assms(3) list this] obtain item' where
      "binn_list_add_arg True (arg bs) item = Some (True, item')" "buffer_pow item'" "used_size item' \<le> used_size item + 10"
      by (auto simp: field_arg_room [OF arg])
    with one k bs size show ?thesis by (auto simp: row_field binn_add_to_list_def arg)
  next
    case blob
    define p where "p = (if d_ptr d = None \<or> d_size d = 0 then None else Some (take (d_size d) (data_bytes d)))"
    have room: "arg_room (Arg_blob p) \<le> field_room d" by (simp add: p_def sizes(2))
    then have "used_size item + arg_room (Arg_blob p) \<le> 2 ^ 30" using assms(4) by linarith
    from add_with_some [OF _ assms(2,3) this] obtain item' where
      item': "add_with (Arg_blob p) (item, []) = Some (True, item', [])" "buffer_pow item'"
      "used_size item' \<le> used_size item + arg_room (Arg_blob p)" by auto
    have "binn_row_field fld d (item, []) = Some (True, item', [])"
      using blob limit item'(1) sizes(2) by (auto simp: row_field p_def data_bytes_def split: option.splits if_splits)
    with item' room show ?thesis by (intro exI [of _ item']) linarith
  next
    case array
    then have n: "2 * ?n \<le> d_size d" using sizes(1) k by (metis One_nat_def Suc_1 less_2_cases_iff mult_le_mono1 not_less)
    have len: "?k * ?n \<le> length (case d_ptr d of None \<Rightarrow> [] | Some bs \<Rightarrow> bs)"
      using sizes(1,2) by (simp add: data_bytes_def)
    have "used_size item + 10 * ?n + 11 \<le> 2 ^ 30" using assms(4) n by linarith
    from add_array_some [OF arg assms(2,3) this len k] obtain item' where
      item': "add_array (fld_type fld) ?n (d_ptr d) (item, []) = Some (True, item', [])" "buffer_pow item'"
      "used_size item' \<le> used_size item + 10 * ?n + 11" by blast
    have "binn_row_field fld d (item, []) = Some (True, item', [])"
      using array k limit item'(1) by (auto simp: row_field)
    with item' n show ?thesis by (intro exI [of _ item']) linarith
  qed
qed

lemma row_fields_some:
  assumes "list_all2 (field_ok fp) flds row" "list_holds is item" "buffer_pow item"
    and "used_size item + (\<Sum>d \<leftarrow> row. field_room d) \<le> 2 ^ 30"
  shows "\<exists>item'. binn_row_fields flds row (item, []) = Some (True, item', []) \<and>
    used_size item' \<le> used_size item + (\<Sum>d \<leftarrow> row. field_room d)"
  using assms
proof (induction arbitrary: item "is" rule: list_all2_induct)
  case (Cons f fs d ds)
  have "used_size item + field_room d \<le> 2 ^ 30" using Cons.prems(3) by simp
  from row_field_some [OF Cons.hyps(1) Cons.prems(1,2) this] obtain item1 where
    item1: "binn_row_field f d (item, []) = Some (True, item1, [])" "buffer_pow item1"
    "used_size item1 \<le> used_size item + field_room d" by blast
  from row_field_run [OF item1(1) Cons.hyps(1) Cons.prems(1)] obtain i where holds: "list_holds (is @ [i]) item1" by blast
  have "used_size item1 + (\<Sum>d \<leftarrow> ds. field_room d) \<le> 2 ^ 30" using Cons.prems(3) item1(3) by simp
  from Cons.IH [OF holds item1(2) this] item1(1,3) show ?case by fastforce
qed simp

lemma binn_row_some:
  assumes "list_all2 (field_ok fp) (td_fields desc) row" "td_fields desc \<noteq> []" "length (td_fields desc) \<le> 1000"
    and "sum_list (map d_size row) \<le> 2 ^ 27" "\<exists>d \<in> set row. d_ptr d \<noteq> None \<and> d_size d > 0"
  shows "\<exists>item. mdv_binn_row [] row desc = Some (Some item) \<and> used_size item \<le> 9 + 5 * sum_list (map d_size row) + 17 * length row"
proof -
  have len: "length (td_fields desc) = length row" using assms(1) by (auto dest: list_all2_lengthD)
  have room: "(\<Sum>d \<leftarrow> row. field_room d) = 5 * sum_list (map d_size row) + 17 * length row"
    by (induction row) simp_all
  then have "used_size new_list + (\<Sum>d \<leftarrow> row. field_room d) \<le> 2 ^ 30"
    using assms(3,4) len by (simp add: new_list_def)
  from row_fields_some [OF assms(1) new_list_holds [OF create_new_list] new_list_pow this] obtain item where
    "binn_row_fields (td_fields desc) row (new_list, []) = Some (True, item, [])"
    "used_size item \<le> used_size new_list + (\<Sum>d \<leftarrow> row. field_room d)" by blast
  with assms(2,5) len room show ?thesis by (simp add: mdv_binn_row_def create_new_list has_any_data_run) (simp add: new_list_def)
qed

definition sample_desc :: mdv_table_desc where
  "sample_desc = \<lparr> td_name = [116], td_fields =
     [\<lparr> fld_type = MDV_FLD_TYPE_INT32, fld_limit = 1, fld_name = [105, 100] \<rparr>,
      \<lparr> fld_type = MDV_FLD_TYPE_CHAR, fld_limit = 0, fld_name = [110] \<rparr>,
      \<lparr> fld_type = MDV_FLD_TYPE_UINT16, fld_limit = 4, fld_name = [99] \<rparr>,
      \<lparr> fld_type = MDV_FLD_TYPE_BYTE, fld_limit = 0, fld_name = [110, 111] \<rparr>] \<rparr>"

definition sample_row :: mdv_row where
  "sample_row = [\<lparr> d_size = 4, d_ptr = Some [1, 2, 0, 0] \<rparr>, \<lparr> d_size = 2, d_ptr = Some [104, 105] \<rparr>,
     \<lparr> d_size = 4, d_ptr = Some [5, 0, 255, 255] \<rparr>, \<lparr> d_size = 0, d_ptr = None \<rparr>]"

definition sample_floats :: float_ops where
  "sample_floats = \<lparr> f32_to_f64 = ucast, f64_to_f32 = ucast, f64_of_int = of_int, f64_nonzero = (\<lambda>w. w \<noteq> 0),
     f32_within = (\<lambda>lo hi w. lo \<le> uint w \<and> uint w \<le> hi), f64_within = (\<lambda>lo hi w. lo \<le> uint w \<and> uint w \<le> hi),
     f64_roundval = uint, c_atof = le_word, c_atoi = (\<lambda>bs. 0) \<rparr>"



end
