(* ===== verification/Mdv_Table_Roundtrip.thy ===== *)
theory Mdv_Table_Roundtrip
  imports Mdv_Table Mdv_Row_Spec
begin

text \<open>
  A table that was serialised is read back with the same identifier, name and
  fields: what the objects hold after a chain of settings, that the chains succeed
  while memory lasts, and the reads of the nested containers.
\<close>

section \<open>Chains of settings\<close>

definition key_items :: "(bytes \<times> binn_arg) list \<Rightarrow> (bytes \<times> binn_item) list" where
  "key_items kas = map (\<lambda>(key, a). (key, arg_item a)) kas"

definition keys_wf :: "(bytes \<times> binn_arg) list \<Rightarrow> bool" where
  "keys_wf kas \<longleftrightarrow> (\<forall>(key, a) \<in> set kas. arg_wf a \<and> 0 \<notin> set key)"

definition keys_room :: "(bytes \<times> binn_arg) list \<Rightarrow> nat" where
  "keys_room kas = (\<Sum>(key, a) \<leftarrow> kas. 1 + length key + arg_room a)"

lemma set_keys_holds:
  assumes "set_keys kas (item, oks) = Some (True, item', oks')" "object_holds kis item" "keys_wf kas"
  shows "object_holds (kis @ key_items kas) item'"
  using assms
proof (induction kas arbitrary: kis item oks)
  case (Cons ka kas)
  obtain key a where ka: "ka = (key, a)" by (cases ka)
  obtain ok1 ok2 oks1 oks2 where oks: "next_ok oks = (ok1, oks1)" "next_ok oks1 = (ok2, oks2)"
    by (cases "next_ok oks"; cases "next_ok (snd (next_ok oks))") simp
  obtain item1 where one: "binn_object_set_arg (ok1, ok2) key a item = Some (True, item1)"
    "set_keys kas (item1, oks2) = Some (True, item', oks')"
    using Cons.prems(1) by (auto simp: ka oks bind_eq_Some_conv split: if_splits)
  have "object_holds (kis @ [(key, arg_item a)]) item1"
    using object_set_run [OF one(1) Cons.prems(2)] Cons.prems(3) by (auto simp: ka keys_wf_def)
  from Cons.IH [OF one(2) this] Cons.prems(3) show ?case by (simp add: ka key_items_def keys_wf_def)
qed (simp add: key_items_def)

lemma set_keys_some:
  assumes "keys_wf kas" "\<forall>(key, a) \<in> set kas. length key \<le> 255"
    and "distinct (map (\<lambda>(key, a). map lower key) kas)" "\<forall>(key, a) \<in> set kas. key_item key kis = None"
    and "object_holds kis item" "buffer_pow item" "used_size item + keys_room kas \<le> 2 ^ 30"
  shows "\<exists>item'. set_keys kas (item, []) = Some (True, item', []) \<and> buffer_pow item' \<and>
    used_size item' \<le> used_size item + keys_room kas"
  using assms
proof (induction kas arbitrary: kis item)
  case (Cons ka kas)
  obtain key a where ka: "ka = (key, a)" by (cases ka)
  have head: "arg_wf a" "key_ok key" "key_item key kis = None" "0 \<notin> set key"
    using Cons.prems(1,2,4) by (auto simp: ka keys_wf_def key_ok_def)
  have room: "used_size item + (1 + length key) + arg_room a \<le> 2 ^ 30" using Cons.prems(7) by (simp add: ka keys_room_def)
  from object_set_some [OF Cons.prems(5,6) head(1-3) room] obtain item1 where
    item1: "binn_object_set_arg (True, True) key a item = Some (True, item1)" "buffer_pow item1"
      "used_size item1 \<le> used_size item + (1 + length key) + arg_room a" by blast
  have holds: "object_holds (kis @ [(key, arg_item a)]) item1"
    using object_set_run [OF item1(1) Cons.prems(5) head(1,4)] by simp
  have fresh: "\<forall>(key', a') \<in> set kas. key_item key' (kis @ [(key, arg_item a)]) = None"
    using Cons.prems(3,4) by (force simp: ka key_item_None)
  have "used_size item1 + keys_room kas \<le> 2 ^ 30" using Cons.prems(7) item1(3) by (simp add: ka keys_room_def)
  from Cons.IH [OF _ _ _ fresh holds item1(2) this] Cons.prems(1-3) obtain item' where
    "set_keys kas (item1, []) = Some (True, item', [])" "buffer_pow item'" "used_size item' \<le> used_size item1 + keys_room kas"
    by (auto simp: ka keys_wf_def)
  with item1 show ?case by (auto simp: ka keys_room_def)
qed (simp add: keys_room_def)

lemma create_object_holds:
  assumes "create_object kas oks = Some (Some obj, oks')" "keys_wf kas"
  shows "object_holds (key_items kas) obj"
proof -
  obtain ok oks1 where ok: "next_ok oks = (ok, oks1)" by (cases "next_ok oks")
  then obtain fresh where fresh: "binn_create_object ok = Some fresh" "set_keys kas (fresh, oks1) = Some (True, obj, oks')"
    using assms(1) by (auto simp: create_object_def bind_eq_Some_conv split: option.splits if_splits)
  have "ok" using fresh(1) by (cases ok) (simp_all add: binn_create_object_def binn_create_def)
  with fresh(1) have "object_holds [] fresh" by (simp add: new_object_holds)
  from set_keys_holds [OF fresh(2) this assms(2)] show ?thesis by simp
qed

lemma create_object_some:
  assumes "keys_wf kas" "\<forall>(key, a) \<in> set kas. length key \<le> 255"
    and "distinct (map (\<lambda>(key, a). map lower key) kas)" "9 + keys_room kas \<le> 2 ^ 30"
  shows "\<exists>obj. create_object kas [] = Some (Some obj, []) \<and> buffer_pow obj \<and> used_size obj \<le> 9 + keys_room kas"
proof -
  have "used_size new_object = 9" by (simp add: new_object_def)
  with set_keys_some [OF assms(1-3) _ new_object_pow(2,1)] assms(4) obtain item' where
    "set_keys kas (new_object, []) = Some (True, item', [])" "buffer_pow item'" "used_size item' \<le> 9 + keys_room kas"
    by (auto simp: key_item_def)
  then show ?thesis by (simp add: create_object_def create_new_object)
qed

lemma serialised_object_wf: "object_holds kis item \<Longrightarrow> arg_wf (Arg_object (binn_serialised item))"
  using serialised_object [of kis item] by (auto simp: is_container_def)

lemma serialised_object_short:
  assumes "object_holds kis item"
  shows "length (binn_serialised item) \<le> used_size item"
proof -
  have "length (binn_serialised item) = container_size (b_count item) (payload item)"
    using assms by (simp add: object_holds_def serialised_container length_container)
  moreover have "length (payload item) = used_size item - 9" "9 \<le> used_size item"
    using assms by (simp_all add: object_holds_def payload_def buffer_ok_def)
  ultimately show ?thesis by (simp add: container_size_def Let_def split: if_splits)
qed


section \<open>Typed reads of an object\<close>

lemma get_uint_run:
  assumes "object_at m p kis" "0 \<notin> set key" "key_item key kis = Some (Item_int (int n))" "t \<in> {BINN_UINT32, BINN_UINT64}"
    and "n < 256 ^ int_width t"
  shows "get_uint fp m p key t = Some (Some n)"
proof -
  have t: "int_type t = BINN_UNSIGNED_INT" "int_width t \<in> {4, 8}" using assms(4) by (auto simp: int_type_def int_width_def)
  have "in_range t (int n)"
    using assms(5) t by (auto simp: in_range_def)
  note read = object_get_uint [OF assms(1-4) this, of fp]
  have "n < 2 ^ 64" using assms(5) t(2) by auto
  then have "unat (of_nat n :: u64) = n" by (simp add: unsigned_of_nat take_bit_nat_eq_self)
  then have "le_value (le_bytes (int_width t) (of_nat n :: u64)) = n" using assms(5) by (simp add: le_value_le_bytes)
  with read show ?thesis by (simp add: get_uint_def)
qed

lemma holds_at_split: "holds_at m p bs \<Longrightarrow> \<exists>pre post. m = pre @ bs @ post \<and> length pre = p"
  by (rule exI [of _ "take p m"], rule exI [of _ "drop (p + length bs) m"])
    (auto simp: holds_at_def rds_def subarray_def split: if_splits, metis append_take_drop_id drop_drop add.commute)

lemma c_string_run: "holds_at m q (s @ [0]) \<Longrightarrow> 0 \<notin> set s \<Longrightarrow> c_string m (In_buffer q) = Some s"
proof -
  assume at: "holds_at m q (s @ [0])" and s: "0 \<notin> set s"
  from holds_at_split [OF at] obtain pre post where "m = pre @ (s @ [0]) @ post" "length pre = q" by blast
  moreover have "takeWhile (\<lambda>b. b \<noteq> 0) (s @ 0 # post) = s" for post using s by (induction s) auto
  ultimately show ?thesis by (auto simp: c_string_def)
qed

lemma get_ptr_str:
  assumes "object_at m p kis" "0 \<notin> set key" "key_item key kis = Some (Item_string s)" "0 \<notin> set s"
  shows "\<exists>q. get_ptr fp m p key BINN_STRING = Some (Some q) \<and> c_string m q = Some s"
  using object_get_str [OF assms(1-3), of fp] c_string_run [OF _ assms(4)] by (auto simp: get_ptr_def)

lemma get_string_run:
  assumes "object_at m p kis" "0 \<notin> set key" "key_item key kis = Some (Item_string s)" "0 \<notin> set s"
  shows "get_string fp m p key = Some (Some s)"
  using get_ptr_str [OF assms, of fp] by (auto simp: get_string_def)

lemma get_ptr_container:
  assumes "object_at m p kis" "0 \<notin> set key" "key_item key kis = Some (Item_container bs)"
    and "t \<in> {BINN_LIST, BINN_MAP, BINN_OBJECT}"
  shows "\<exists>q. get_ptr fp m p key t = Some (Some (In_buffer q)) \<and> holds_at m q bs"
  using object_get_container [OF assms, of fp] by (auto simp: get_ptr_def)

lemma decode_container_at:
  assumes "decode m v = Some (Item_container bs)" "value_ok v"
  shows "\<exists>q. value_place m v = Some (m, q) \<and> holds_at m q bs"
proof -
  have t: "v_type v \<in> {BINN_LIST, BINN_MAP, BINN_OBJECT}" "value_mem m v (v_size v) = Some bs"
    using assms(1) by (auto simp: decode_def bind_eq_Some_conv type_family_def split: if_splits)
  then obtain q where "v_ptr v = In_buffer q" using assms(2) by (auto simp: value_ok_def)
  with t(2) show ?thesis by (auto simp: value_place_def value_mem_def intro: holds_at_rds)
qed

text \<open>The address of a container is not taken for a structure.\<close>

lemma ptr_type_run:
  assumes "holds_at m q (container t c body)" "t \<in> {BINN_LIST, BINN_OBJECT}" "q + 4 \<le> length m"
  shows "binn_get_ptr_type m q = Some ()"
proof -
  have "m ! q \<in> {0xE0, 0xE2}" using assms by (auto simp: container_def rd_def split: if_splits)
  then have "\<exists>b \<in> {0xE0, 0xE2}. subarray m q 4 = b # subarray m (q + 1) 3"
    using assms(3) by (auto simp: subarray_def Cons_nth_drop_Suc [symmetric])
  then have "le_value (subarray m q 4) \<noteq> BINN_MAGIC"
    unfolding BINN_MAGIC_def by (elim bexE insertE; simp) presburger+
  then show ?thesis using assms(3) by (simp add: binn_get_ptr_type_def rds_def)
qed


section \<open>Fields\<close>

definition field_wf :: "mdv_field \<Rightarrow> bool" where
  "field_wf fld \<longleftrightarrow> field_type_code (fld_type fld) < 2 ^ 32 \<and> code_field_type (field_type_code (fld_type fld)) = fld_type fld \<and>
     fld_limit fld < 2 ^ 32 \<and> 0 \<notin> set (fld_name fld)"

definition field_items :: "mdv_field \<Rightarrow> (bytes \<times> binn_item) list" where
  "field_items fld = [(key_T, Item_int (int (field_type_code (fld_type fld)))), (key_L, Item_int (int (fld_limit fld))),
     (key_N, Item_string (fld_name fld))]"

definition field_at :: "mdv_field \<Rightarrow> binn_item \<Rightarrow> bool" where
  "field_at fld i \<longleftrightarrow> (\<exists>bs. i = Item_container bs \<and> (\<forall>m p. holds_at m p bs \<longrightarrow> object_at m p (field_items fld)))"

lemma uint_of_nat_u32: "n < 2 ^ 32 \<Longrightarrow> uint (of_nat n :: u32) = int n"
  by (simp add: unsigned_of_nat take_bit_nat_eq_self take_bit_int_eq_self)

lemma binn_field_run:
  assumes "binn_field fld oks = Some (Some obj, oks')" "field_wf fld"
  shows "object_holds (field_items fld) obj"
  using create_object_holds [OF assms(1) [unfolded binn_field_def]] assms(2)
  by (simp add: keys_wf_def field_wf_def key_items_def field_items_def uint_of_nat_u32)

lemma binn_fields_run:
  assumes "binn_fields fs (item, oks) = Some (True, item', oks')" "list_holds is item" "\<forall>f \<in> set fs. field_wf f"
  shows "\<exists>js. list_holds (is @ js) item' \<and> list_all2 field_at fs js"
  using assms
proof (induction fs arbitrary: "is" item oks)
  case (Cons f fs)
  obtain obj oks1 item1 oks2 where
    fld: "binn_field f oks = Some (Some obj, oks1)"
    and add: "add_with (Arg_object (binn_serialised obj)) (item, oks1) = Some (True, item1, oks2)"
    and rest: "binn_fields fs (item1, oks2) = Some (True, item', oks')"
    using Cons.prems(1) by (auto simp: bind_eq_Some_conv split: option.splits if_splits)
  have obj: "object_holds (field_items f) obj" using binn_field_run [OF fld] Cons.prems(3) by simp
  have "list_holds (is @ [Item_container (binn_serialised obj)]) item1"
    using add_with_holds [OF add Cons.prems(2) serialised_object_wf [OF obj]] by simp
  from Cons.IH [OF rest this] Cons.prems(3) obtain js where
    "list_holds ((is @ [Item_container (binn_serialised obj)]) @ js) item'" "list_all2 field_at fs js" by auto
  moreover have "field_at f (Item_container (binn_serialised obj))"
    using serialised_object [OF obj] by (auto simp: field_at_def)
  ultimately show ?case by (intro exI [of _ "Item_container (binn_serialised obj) # js"]) simp
qed simp

lemma field_keys:
  "key_item key_T (field_items f) = Some (Item_int (int (field_type_code (fld_type f))))"
  "key_item key_L (field_items f) = Some (Item_int (int (fld_limit f)))"
  "key_item key_N (field_items f) = Some (Item_string (fld_name f))"
  by (simp_all add: key_item_def field_items_def lower_def)

lemma value_field_run:
  assumes "field_at f i" "decode m v = Some i" "value_ok v" "field_wf f"
  shows "value_field_name fp m v = Some (Some (fld_name f))" "unbinn_table_field fp m v = Some (Some f)"
proof -
  obtain q where place: "value_place m v = Some (m, q)" and at: "object_at m q (field_items f)"
    using assms(1-3) decode_container_at by (fastforce simp: field_at_def)
  have name: "get_string fp m q key_N = Some (Some (fld_name f))"
    using assms(4) by (intro get_string_run [OF at _ field_keys(3)]) (simp_all add: field_wf_def)
  have "get_uint fp m q key_T BINN_UINT32 = Some (Some (field_type_code (fld_type f)))"
    "get_uint fp m q key_L BINN_UINT32 = Some (Some (fld_limit f))"
    using assms(4) get_uint_run [OF at _ field_keys(1), of BINN_UINT32] get_uint_run [OF at _ field_keys(2), of BINN_UINT32]
    by (simp_all add: field_wf_def int_width_def)
  with place name assms(4) show "value_field_name fp m v = Some (Some (fld_name f))" "unbinn_table_field fp m v = Some (Some f)"
    by (simp_all add: value_field_name_def unbinn_table_field_def field_wf_def)
qed

lemma field_passes_run:
  assumes "list_all2 field_at fs js" "decodes m vs js" "\<forall>v \<in> set vs. value_ok v" "\<forall>f \<in> set fs. field_wf f"
    and "i + length fs \<le> n"
  shows "field_names_size fp m vs = Some (Some (\<Sum>f \<leftarrow> fs. length (fld_name f) + 1)) \<and>
    unbinn_table_fields fp m n i vs = Some (Some fs)"
  using assms
proof (induction fs js arbitrary: vs i rule: list_all2_induct)
  case Nil
  then show ?case by (simp add: decodes_def)
next
  case (Cons f fs j js)
  obtain v vs' where vs: "vs = v # vs'" "decode m v = Some j" "decodes m vs' js"
    using Cons.prems(1) by (auto simp: decodes_def list_all2_Cons2)
  have one: "value_field_name fp m v = Some (Some (fld_name f))" "unbinn_table_field fp m v = Some (Some f)"
    using value_field_run [OF Cons.hyps(1) vs(2)] Cons.prems(2,3) by (simp_all add: vs(1))
  with Cons.IH [OF vs(3), of "i + 1"] Cons.prems(2-4) show ?case by (simp add: vs(1))
qed

end
