(* ===== verification/Mdv_Table_Spec.thy ===== *)
theory Mdv_Table_Spec
  imports Mdv_Table_Roundtrip
begin

text \<open>
  Descriptions and tables as a whole: what their objects hold, the reads that give
  them back, that writing succeeds while memory lasts, and the slices of a table.
\<close>

section \<open>Descriptions\<close>

definition desc_wf :: "mdv_table_desc \<Rightarrow> bool" where
  "desc_wf desc \<longleftrightarrow> td_fields desc \<noteq> [] \<and> (\<forall>f \<in> set (td_fields desc). field_wf f) \<and> 0 \<notin> set (td_name desc)"

definition desc_room :: "mdv_table_desc \<Rightarrow> nat" where
  "desc_room desc = length (td_name desc) + (\<Sum>f \<leftarrow> td_fields desc. length (fld_name f) + 64)"

lemma desc_room_fields: "64 * length (td_fields desc) \<le> desc_room desc"
  "length (td_name desc) + (\<Sum>f \<leftarrow> td_fields desc. length (fld_name f) + 1) \<le> desc_room desc"
proof -
  have "64 * length fs \<le> (\<Sum>f \<leftarrow> fs. length (fld_name f) + 64)"
    "(\<Sum>f \<leftarrow> fs. length (fld_name f) + 1) \<le> (\<Sum>f \<leftarrow> fs. length (fld_name f) + 64)" for fs
    by (induction fs) simp_all
  then show "64 * length (td_fields desc) \<le> desc_room desc"
    "length (td_name desc) + (\<Sum>f \<leftarrow> td_fields desc. length (fld_name f) + 1) \<le> desc_room desc"
    by (auto simp: desc_room_def intro: trans_le_add2)
qed

definition desc_items :: "mdv_table_desc \<Rightarrow> binn \<Rightarrow> (bytes \<times> binn_item) list" where
  "desc_items desc flds = [(key_N, Item_string (td_name desc)), (key_S, Item_int (int (length (td_fields desc)))),
     (key_F, Item_container (binn_serialised flds))]"

lemma desc_keys:
  "key_item key_N (desc_items desc flds) = Some (Item_string (td_name desc))"
  "key_item key_S (desc_items desc flds) = Some (Item_int (int (length (td_fields desc))))"
  "key_item key_F (desc_items desc flds) = Some (Item_container (binn_serialised flds))"
  by (simp_all add: key_item_def desc_items_def lower_def)

lemma binn_table_desc_run:
  assumes "mdv_binn_table_desc desc oks = Some (Some obj, oks')" "desc_wf desc" "length (td_fields desc) < 2 ^ 32"
  shows "\<exists>js flds. object_holds (desc_items desc flds) obj \<and> list_holds js flds \<and> list_all2 field_at (td_fields desc) js"
proof -
  let ?kas = "[(key_N, Arg_str (td_name desc)), (key_S, Arg_uint32 (of_nat (length (td_fields desc))))]"
  obtain head oks1 where head: "create_object ?kas oks = Some (Some head, oks1)"
    using assms(1) by (auto simp: mdv_binn_table_desc_def bind_eq_Some_conv split: option.splits)
  obtain ok oks2 where ok: "next_ok oks1 = (ok, oks2)" by (cases "next_ok oks1")
  obtain fresh flds oks3 where fresh: "binn_create_list ok = Some fresh"
    and flds: "binn_fields (td_fields desc) (fresh, oks2) = Some (True, flds, oks3)"
    and set: "set_keys [(key_F, Arg_list (binn_serialised flds))] (head, oks3) = Some (True, obj, oks')"
    using assms(1) by (auto simp: mdv_binn_table_desc_def head ok bind_eq_Some_conv simp del: set_keys.simps split: option.splits if_splits)
  have "ok" using fresh by (cases ok) (simp_all add: binn_create_list_def binn_create_def)
  with fresh have "list_holds [] fresh" by (simp add: new_list_holds)
  with binn_fields_run [OF flds] assms(2) obtain js where js: "list_holds js flds" "list_all2 field_at (td_fields desc) js"
    by (fastforce simp: desc_wf_def)
  have "object_holds (key_items ?kas) head"
    using create_object_holds [OF head] assms(2) by (simp add: keys_wf_def desc_wf_def)
  from set_keys_holds [OF set this] serialised_wf [OF js(1)]
  have "object_holds (key_items ?kas @ key_items [(key_F, Arg_list (binn_serialised flds))]) obj" by (simp add: keys_wf_def)
  then have "object_holds (desc_items desc flds) obj"
    using assms(3) by (simp add: key_items_def desc_items_def uint_of_nat_u32)
  with js show ?thesis by blast
qed

lemma list_in_memory:
  assumes "list_holds is item" "is \<noteq> []" "holds_at m q (binn_serialised item)"
  shows "\<exists>vs. binn_get_ptr_type m q = Some () \<and> binn_list_foreach m q = Some vs \<and> decodes m vs is \<and> (\<forall>v \<in> set vs. value_ok v)"
proof -
  obtain pre post where m: "m = pre @ binn_serialised item @ post" "length pre = q" using holds_at_split [OF assms(3)] by blast
  from row_valid [OF assms(1,2) m(1) m(2) [symmetric]] obtain vs where
    vs: "binn_list_foreach m q = Some vs" "decodes m vs is" "\<forall>v \<in> set vs. value_ok v" by blast
  from serialised_list [OF assms(1)] obtain encs where
    ser: "binn_serialised item = container BINN_LIST (length is) (concat encs)" "list_all2 reads_as encs is" by blast
  have "1 \<le> length (concat encs)" using concat_length [OF ser(2)] assms(2) by (cases "is") auto
  then have "4 \<le> length (binn_serialised item)" by (simp add: ser(1) length_container container_size_def Let_def)
  then have "q + 4 \<le> length m" by (simp add: m(1) m(2) [symmetric])
  from ptr_type_run [OF assms(3) [unfolded ser(1)] _ this] vs show ?thesis by simp
qed

lemma unbinn_table_desc_run:
  assumes "object_at m p (desc_items desc flds)" "list_holds js flds" "list_all2 field_at (td_fields desc) js"
    and "desc_wf desc" "desc_room desc \<le> 2 ^ 28"
  shows "mdv_unbinn_table_desc fp True m p = Some (Some desc)"
proof -
  note wf = assms(4) [unfolded desc_wf_def]
  have js: "js \<noteq> []" using assms(3) wf by auto
  have count: "length (td_fields desc) \<le> 2 ^ 22" using desc_room_fields(1) [of desc] assms(5) by simp
  obtain qn where name: "get_ptr fp m p key_N BINN_STRING = Some (Some qn)" "c_string m qn = Some (td_name desc)"
    using get_ptr_str [OF assms(1) _ desc_keys(1), of fp] wf by auto
  have size0: "get_uint fp m p key_S BINN_UINT32 = Some (Some (length (td_fields desc)))"
    using count by (intro get_uint_run [OF assms(1) _ desc_keys(2)]) (simp_all add: int_width_def)
  obtain q where q: "get_ptr fp m p key_F BINN_LIST = Some (Some (In_buffer q))" "holds_at m q (binn_serialised flds)"
    using get_ptr_container [OF assms(1) _ desc_keys(3), of BINN_LIST fp] by auto
  from list_in_memory [OF assms(2) js q(2)] obtain vs where
    vs: "binn_get_ptr_type m q = Some ()" "binn_list_foreach m q = Some vs" "decodes m vs js" "\<forall>v \<in> set vs. value_ok v" by blast
  from field_passes_run [OF assms(3) vs(3,4), of 0 "length (td_fields desc)" fp] wf have
    passes: "field_names_size fp m vs = Some (Some (\<Sum>f \<leftarrow> td_fields desc. length (fld_name f) + 1))"
      "unbinn_table_fields fp m (length (td_fields desc)) 0 vs = Some (Some (td_fields desc))" by auto
  have "\<not> 24 + 16 * length (td_fields desc) + (length (td_name desc) + 1) + (\<Sum>f \<leftarrow> td_fields desc. length (fld_name f) + 1) \<ge> 2 ^ 32"
    using count desc_room_fields(2) [of desc] assms(5) by simp
  with name size0 q(1) vs(1,2) passes show ?thesis by (simp add: mdv_unbinn_table_desc_def)
qed


section \<open>Tables\<close>

lemma slice_fields_run:
  assumes "\<forall>n < length fs. mdv_bitset_test fmask (i + n) = Some (n \<in> sel)"
  shows "slice_fields fmask i fs = Some (nths fs sel)"
  using assms
proof (induction fs arbitrary: i sel)
  case (Cons f fs)
  have "\<forall>n < length fs. mdv_bitset_test fmask (i + 1 + n) = Some (n \<in> {j. Suc j \<in> sel})"
    using Cons.prems by (auto dest: spec [of _ "Suc _"])
  from Cons.IH [OF this] Cons.prems have "slice_fields fmask (i + 1) fs = Some (nths fs {j. Suc j \<in> sel})"
    "mdv_bitset_test fmask i = Some (0 \<in> sel)" by force+
  then show ?case by (simp add: nths_Cons)
qed simp

lemma table_create_run: "mdv_table_create True u desc = Some (Some \<lparr> tbl_rc = 1, tbl_id = u, tbl_desc = desc \<rparr>)"
proof -
  have "slice_fields None 0 (td_fields desc) = Some (nths (td_fields desc) UNIV)"
    by (rule slice_fields_run) (simp add: mdv_bitset_test_def)
  moreover have "nths (td_fields desc) UNIV = td_fields desc" by (simp add: nths_all)
  ultimately show ?thesis by (cases desc) (simp add: mdv_table_create_def mdv_table_create_impl_def)
qed

definition table_items :: "mdv_uuid \<Rightarrow> binn \<Rightarrow> (bytes \<times> binn_item) list" where
  "table_items u desc = [(key_U 0x30, Item_int (uint (uuid_lo u))), (key_U 0x31, Item_int (uint (uuid_hi u))),
     (key_D, Item_container (binn_serialised desc))]"

lemma table_keys:
  "key_item (key_U 0x30) (table_items u desc) = Some (Item_int (int (unat (uuid_lo u))))"
  "key_item (key_U 0x31) (table_items u desc) = Some (Item_int (int (unat (uuid_hi u))))"
  "key_item key_D (table_items u desc) = Some (Item_container (binn_serialised desc))"
  by (simp_all add: key_item_def table_items_def lower_def)

lemma binn_table_run:
  assumes "mdv_binn_table table oks = Some (Some obj, oks')"
  shows "\<exists>desc oks1 oks2. mdv_binn_table_desc (tbl_desc table) oks1 = Some (Some desc, oks2) \<and>
    (\<forall>kis. object_holds kis desc \<longrightarrow> object_holds (table_items (tbl_id table) desc) obj)"
proof -
  let ?u = "tbl_id table"
  obtain fresh desc obj1 oks1 oks2 oks3 where fresh: "create_object [] oks = Some (Some fresh, oks1)"
    and desc: "mdv_binn_table_desc (tbl_desc table) oks1 = Some (Some desc, oks2)"
    and one: "mdv_binn_table_uuid ?u (fresh, oks2) = Some (True, obj1, oks3)"
    and set: "set_keys [(key_D, Arg_object (binn_serialised desc))] (obj1, oks3) = Some (True, obj, oks')"
    using assms by (auto simp: mdv_binn_table_def bind_eq_Some_conv simp del: set_keys.simps split: option.splits if_splits)
  have "object_holds [] fresh" using create_object_holds [OF fresh] by (simp add: keys_wf_def key_items_def)
  from set_keys_holds [OF one [unfolded mdv_binn_table_uuid_def] this]
  have "object_holds [(key_U 0x30, Item_int (uint (uuid_lo ?u))), (key_U 0x31, Item_int (uint (uuid_hi ?u)))] obj1"
    by (simp add: keys_wf_def key_items_def)
  from set_keys_holds [OF set this]
  have "object_holds kis desc \<Longrightarrow> object_holds (table_items ?u desc) obj" for kis
    using serialised_object_wf [of kis desc] by (simp add: keys_wf_def key_items_def table_items_def)
  with desc show ?thesis by blast
qed

lemma unbinn_table_uuid_run:
  assumes "object_at m p (table_items u desc)"
  shows "mdv_unbinn_table_uuid fp m p = Some (Some u)"
proof -
  have "get_uint fp m p (key_U 0x30) BINN_UINT64 = Some (Some (unat (uuid_lo u)))"
    "get_uint fp m p (key_U 0x31) BINN_UINT64 = Some (Some (unat (uuid_hi u)))"
    using get_uint_run [OF assms _ table_keys(1), of BINN_UINT64 fp] get_uint_run [OF assms _ table_keys(2), of BINN_UINT64 fp]
      unsigned_less [of "uuid_lo u", where ?'a = nat] unsigned_less [of "uuid_hi u", where ?'a = nat]
    by (simp_all add: int_width_def)
  then show ?thesis by (cases u) (simp add: mdv_unbinn_table_uuid_def)
qed


lemma object_ptr_type:
  assumes "object_at m q kis" "kis \<noteq> []"
  shows "binn_get_ptr_type m q = Some ()"
proof -
  obtain encs body where body: "body = concat (map2 (\<lambda>ki enc. entry_bytes (fst ki, enc)) kis encs)"
    "list_all2 (\<lambda>enc ki. reads_as enc (snd ki) \<and> key_ok (fst ki)) encs kis"
    and at: "holds_at m q (container BINN_OBJECT (length kis) body)"
    using assms(1) by (auto simp: object_at_def)
  have "1 \<le> length kis" using assms(2) by (cases kis) auto
  then have "1 \<le> length body" using entries_length [OF body(2)] by (simp add: body(1))
  then have "q + 4 \<le> length m" using at by (auto simp: holds_at_def length_container container_size_def Let_def split: if_splits)
  from ptr_type_run [OF at _ this] show ?thesis by simp
qed

lemma unbinn_table_run:
  assumes "object_at m p (table_items u dobj)" "object_holds (desc_items desc flds) dobj" "list_holds js flds"
    "list_all2 field_at (td_fields desc) js" "desc_wf desc" "desc_room desc \<le> 2 ^ 28"
  shows "mdv_unbinn_table fp (True, True) m p = Some (Some \<lparr> tbl_rc = 1, tbl_id = u, tbl_desc = desc \<rparr>)"
proof -
  obtain q where q: "get_ptr fp m p key_D BINN_OBJECT = Some (Some (In_buffer q))" "holds_at m q (binn_serialised dobj)"
    using get_ptr_container [OF assms(1) _ table_keys(3), of BINN_OBJECT fp] by auto
  have at: "object_at m q (desc_items desc flds)" using serialised_object [OF assms(2)] q(2) by blast
  then have "binn_get_ptr_type m q = Some ()" by (rule object_ptr_type) (simp add: desc_items_def)
  with q(1) unbinn_table_uuid_run [OF assms(1), of fp] unbinn_table_desc_run [OF at assms(3-6), of fp] table_create_run
  show ?thesis by (simp add: mdv_unbinn_table_def)
qed


section \<open>Writing succeeds\<close>

lemma binn_field_some:
  assumes "field_wf fld" "length (fld_name fld) \<le> 2 ^ 28"
  shows "\<exists>obj. binn_field fld [] = Some (Some obj, []) \<and> length (binn_serialised obj) \<le> length (fld_name fld) + 42"
proof -
  let ?kas = "[(key_T, Arg_uint32 (of_nat (field_type_code (fld_type fld)))), (key_L, Arg_uint32 (of_nat (fld_limit fld))),
    (key_N, Arg_str (fld_name fld))]"
  have "keys_wf ?kas" "keys_room ?kas = length (fld_name fld) + 33" "distinct (map (\<lambda>(key, a). map lower key) ?kas)"
    using assms(1) by (simp_all add: keys_wf_def keys_room_def field_wf_def lower_def)
  with create_object_some [of ?kas] assms(2) obtain obj where
    obj: "binn_field fld [] = Some (Some obj, [])" "used_size obj \<le> length (fld_name fld) + 42"
    by (auto simp: binn_field_def)
  from serialised_object_short [OF binn_field_run [OF obj(1) assms(1)]] obj show ?thesis by auto
qed

lemma binn_fields_some:
  assumes "\<forall>f \<in> set fs. field_wf f" "list_holds is item" "buffer_pow item"
    and "used_size item + (\<Sum>f \<leftarrow> fs. length (fld_name f) + 64) \<le> 2 ^ 28"
  shows "\<exists>item'. binn_fields fs (item, []) = Some (True, item', []) \<and>
    used_size item' \<le> used_size item + (\<Sum>f \<leftarrow> fs. length (fld_name f) + 64)"
  using assms
proof (induction fs arbitrary: "is" item)
  case (Cons f fs)
  obtain obj where obj: "binn_field f [] = Some (Some obj, [])" "length (binn_serialised obj) \<le> length (fld_name f) + 42"
    using binn_field_some [of f] Cons.prems(1,4) by auto
  have wf: "arg_wf (Arg_object (binn_serialised obj))"
    using serialised_object_wf [OF binn_field_run [OF obj(1)]] Cons.prems(1) by simp
  have "used_size item + arg_room (Arg_object (binn_serialised obj)) \<le> 2 ^ 30" using obj(2) Cons.prems(4) by simp
  from add_with_some [OF wf Cons.prems(2,3) this] obtain item1 where
    item1: "add_with (Arg_object (binn_serialised obj)) (item, []) = Some (True, item1, [])" "buffer_pow item1"
      "used_size item1 \<le> used_size item + length (fld_name f) + 44" using obj(2) by auto
  have holds: "list_holds (is @ [arg_item (Arg_object (binn_serialised obj))]) item1"
    by (rule add_with_holds [OF item1(1) Cons.prems(2) wf])
  have "used_size item1 + (\<Sum>f \<leftarrow> fs. length (fld_name f) + 64) \<le> 2 ^ 28" using item1(3) Cons.prems(4) by simp
  from Cons.IH [OF _ holds item1(2) this] Cons.prems(1) obtain item' where
    "binn_fields fs (item1, []) = Some (True, item', [])"
    "used_size item' \<le> used_size item1 + (\<Sum>f \<leftarrow> fs. length (fld_name f) + 64)" by auto
  with obj(1) item1(1,3) show ?case by simp
qed simp

lemma binn_table_desc_some:
  assumes "desc_wf desc" "desc_room desc \<le> 2 ^ 27"
  shows "\<exists>obj. mdv_binn_table_desc desc [] = Some (Some obj, []) \<and> used_size obj \<le> 2 ^ 29"
proof -
  let ?kas = "[(key_N, Arg_str (td_name desc)), (key_S, Arg_uint32 (of_nat (length (td_fields desc))))]"
  have kas: "keys_wf ?kas" "keys_room ?kas = length (td_name desc) + 21" "distinct (map (\<lambda>(key, a). map lower key) ?kas)"
    using assms(1) by (simp_all add: keys_wf_def keys_room_def desc_wf_def lower_def)
  have small: "length (td_name desc) \<le> desc_room desc" "(\<Sum>f \<leftarrow> td_fields desc. length (fld_name f) + 64) \<le> desc_room desc"
    by (simp_all add: desc_room_def)
  from create_object_some [of ?kas] kas small(1) assms(2) obtain head where
    head: "create_object ?kas [] = Some (Some head, [])" "buffer_pow head" "used_size head \<le> length (td_name desc) + 30" by auto
  have holds: "object_holds (key_items ?kas) head" by (rule create_object_holds [OF head(1) kas(1)])
  have new: "list_holds [] new_list" "used_size new_list = 9" using new_list_holds [OF create_new_list] by (simp_all add: new_list_def)
  have wf: "\<forall>f \<in> set (td_fields desc). field_wf f" using assms(1) by (simp add: desc_wf_def)
  from binn_fields_some [OF wf new(1) new_list_pow] small(2) assms(2) new(2) obtain flds where
    flds: "binn_fields (td_fields desc) (new_list, []) = Some (True, flds, [])" "used_size flds \<le> desc_room desc + 9" by auto
  from binn_fields_run [OF flds(1) new(1) wf] obtain js where js: "list_holds js flds" by auto
  let ?set = "[(key_F, Arg_list (binn_serialised flds))]"
  have set: "keys_wf ?set" "keys_room ?set \<le> desc_room desc + 13" "key_item key_F (key_items ?kas) = None"
    using serialised_wf [OF js] serialised_short [OF js] flds(2)
    by (simp_all add: keys_wf_def keys_room_def key_item_def key_items_def lower_def)
  have "used_size head + keys_room ?set \<le> 2 ^ 29" using head(3) set(2) small(1) assms(2) by simp
  with set_keys_some [OF set(1) _ _ _ holds head(2)] set(3) obtain obj where
    "set_keys ?set (head, []) = Some (True, obj, [])" "used_size obj \<le> 2 ^ 29" by fastforce
  with head(1) flds(1) show ?thesis by (simp add: mdv_binn_table_desc_def create_new_list)
qed

lemma binn_table_some:
  assumes "desc_wf (tbl_desc table)" "desc_room (tbl_desc table) \<le> 2 ^ 27"
  shows "\<exists>obj. mdv_binn_table table [] = Some (Some obj, [])"
proof -
  from binn_table_desc_some [OF assms] obtain desc where
    desc: "mdv_binn_table_desc (tbl_desc table) [] = Some (Some desc, [])" "used_size desc \<le> 2 ^ 29" by blast
  have "length (td_fields (tbl_desc table)) < 2 ^ 32" using desc_room_fields(1) [of "tbl_desc table"] assms(2) by simp
  from binn_table_desc_run [OF desc(1) assms(1) this] obtain kis where holds: "object_holds kis desc" by blast
  let ?u = "[(key_U 0x30, Arg_uint64 (uuid_lo (tbl_id table))), (key_U 0x31, Arg_uint64 (uuid_hi (tbl_id table)))]"
  have u: "keys_wf ?u" "keys_room ?u = 26" "distinct (map (\<lambda>(key, a). map lower key) ?u)"
    by (simp_all add: keys_wf_def keys_room_def lower_def)
  have "used_size new_object = 9" by (simp add: new_object_def)
  with set_keys_some [OF u(1) _ u(3) _ new_object_pow(2,1)] u(2) obtain obj1 where
    obj1: "set_keys ?u (new_object, []) = Some (True, obj1, [])" "buffer_pow obj1" "used_size obj1 \<le> 35"
    by (fastforce simp: key_item_def)
  have holds1: "object_holds (key_items ?u) obj1" using set_keys_holds [OF obj1(1) new_object_pow(2) u(1)] by simp
  let ?set = "[(key_D, Arg_object (binn_serialised desc))]"
  have set: "keys_wf ?set" "keys_room ?set \<le> 2 ^ 29 + 4" "key_item key_D (key_items ?u) = None"
    using serialised_object_wf [OF holds] serialised_object_short [OF holds] desc(2)
    by (simp_all add: keys_wf_def keys_room_def key_item_def key_items_def lower_def)
  have "used_size obj1 + keys_room ?set \<le> 2 ^ 30" using obj1(3) set(2) by simp
  with set_keys_some [OF set(1) _ _ _ holds1 obj1(2)] set(3) obtain obj where
    "set_keys ?set (obj1, []) = Some (True, obj, [])" by fastforce
  with desc(1) obj1(1) show ?thesis
    by (simp add: mdv_binn_table_def mdv_binn_table_uuid_def create_object_def create_new_object del: set_keys.simps(2))
qed


section \<open>The round trip\<close>

text \<open>
  C9. Tables survive serialisation: whatever allocations fail while it is written,
  a table that was serialised is, wherever its bytes are put in memory and if the
  allocations of the reader succeed, read back with the same identifier, name and
  fields and one reference, its description likewise, and nothing outside the
  memory is read. The table has at least one field, its names have no byte zero,
  its types and limits fit 32 bits and its description takes at most 2^27 bytes.
  Writing succeeds if the allocations do. A slice of the table
  keeps the identifier, the name and, in order, the selected fields.
\<close>

theorem table_roundtrip:
  assumes "desc_wf (tbl_desc table)" "desc_room (tbl_desc table) \<le> 2 ^ 27"
    and "\<forall>n < length (td_fields (tbl_desc table)). mdv_bitset_test fmask n = Some (n \<in> sel)"
  shows "(\<forall>oks obj oks' pre post. mdv_binn_table table oks = Some (Some obj, oks') \<longrightarrow>
      mdv_unbinn_table fp (True, True) (pre @ binn_serialised obj @ post) (length pre) = Some (Some (table \<lparr> tbl_rc := 1 \<rparr>))) \<and>
    (\<forall>oks obj oks' pre post. mdv_binn_table_desc (tbl_desc table) oks = Some (Some obj, oks') \<longrightarrow>
      mdv_unbinn_table_desc fp True (pre @ binn_serialised obj @ post) (length pre) = Some (Some (tbl_desc table))) \<and>
    (\<exists>obj. mdv_binn_table table [] = Some (Some obj, [])) \<and>
    mdv_table_slice True table fmask = Some (Some \<lparr> tbl_rc = 1, tbl_id = tbl_id table,
      tbl_desc = \<lparr> td_name = td_name (tbl_desc table), td_fields = nths (td_fields (tbl_desc table)) sel \<rparr> \<rparr>)"
proof -
  let ?d = "tbl_desc table"
  have small: "length (td_fields ?d) < 2 ^ 32" "desc_room ?d \<le> 2 ^ 28" using desc_room_fields(1) [of ?d] assms(2) by simp_all
  have "mdv_unbinn_table_desc fp True (pre @ binn_serialised obj @ post) (length pre) = Some (Some ?d)"
    if "mdv_binn_table_desc ?d oks = Some (Some obj, oks')" for oks obj oks' pre post
  proof -
    from binn_table_desc_run [OF that assms(1) small(1)] obtain js flds where
      holds: "object_holds (desc_items ?d flds) obj" "list_holds js flds" "list_all2 field_at (td_fields ?d) js" by blast
    have "object_at (pre @ binn_serialised obj @ post) (length pre) (desc_items ?d flds)"
      using serialised_object [OF holds(1)] holds_at_mid by blast
    from unbinn_table_desc_run [OF this holds(2,3) assms(1) small(2)] show ?thesis .
  qed
  moreover have "mdv_unbinn_table fp (True, True) (pre @ binn_serialised obj @ post) (length pre) = Some (Some (table \<lparr> tbl_rc := 1 \<rparr>))"
    if run: "mdv_binn_table table oks = Some (Some obj, oks')" for oks obj oks' pre post
  proof -
    from binn_table_run [OF run] obtain desc oks1 oks2 where desc: "mdv_binn_table_desc ?d oks1 = Some (Some desc, oks2)"
      "\<forall>kis. object_holds kis desc \<longrightarrow> object_holds (table_items (tbl_id table) desc) obj" by blast
    from binn_table_desc_run [OF desc(1) assms(1) small(1)] obtain js flds where
      holds: "object_holds (desc_items ?d flds) desc" "list_holds js flds" "list_all2 field_at (td_fields ?d) js" by blast
    have "object_at (pre @ binn_serialised obj @ post) (length pre) (table_items (tbl_id table) desc)"
      using serialised_object desc(2) holds(1) holds_at_mid by blast
    from unbinn_table_run [OF this holds assms(1) small(2), of fp] show ?thesis by (cases table) simp
  qed
  ultimately show ?thesis
    using binn_table_some [OF assms(1,2)] slice_fields_run [of "td_fields ?d" fmask 0 sel] assms(3)
    by (auto simp: mdv_table_slice_def mdv_table_create_impl_def)
qed

lemma table_roundtrip_witness:
  "\<exists>obj. mdv_binn_table \<lparr> tbl_rc = 3, tbl_id = UUID 5 7, tbl_desc = sample_desc \<rparr> [] = Some (Some obj, []) \<and>
    mdv_unbinn_table sample_floats (True, True) ([7] @ binn_serialised obj @ [9]) 1 =
      Some (Some \<lparr> tbl_rc = 1, tbl_id = UUID 5 7, tbl_desc = sample_desc \<rparr>)"
proof -
  let ?t = "\<lparr> tbl_rc = 3, tbl_id = UUID 5 7, tbl_desc = sample_desc \<rparr>"
  have wf: "desc_wf (tbl_desc ?t)" "desc_room (tbl_desc ?t) \<le> 2 ^ 27"
    by (simp_all add: desc_wf_def desc_room_def sample_desc_def field_wf_def code_field_type_def)
  have sel: "\<forall>n < length (td_fields (tbl_desc ?t)). mdv_bitset_test None n = Some (n \<in> UNIV)" by (simp add: mdv_bitset_test_def)
  note rt = table_roundtrip [OF wf sel, of sample_floats]
  obtain obj where obj: "mdv_binn_table ?t [] = Some (Some obj, [])" using conjunct1 [OF conjunct2 [OF conjunct2 [OF rt]]] by blast
  have "mdv_unbinn_table sample_floats (True, True) ([7] @ binn_serialised obj @ [9]) (length [7 :: u8]) = Some (Some (?t \<lparr> tbl_rc := 1 \<rparr>))"
    using conjunct1 [OF rt] obj by blast
  with obj show ?thesis by (auto simp del: append.simps append_Cons)
qed

end
