(* ===== verification/Mdv_Rowset.thy ===== *)
theory Mdv_Rowset
  imports Mdv_Table_Spec
begin

text \<open>
  Row sets as lists of rows, each followed by an object with its identifier unless
  that is the placeholder (mdv_binn_rowset of mdv_types/mdv_serialization.c). The
  outcomes of the allocations come in two lists for every row, for the row itself
  and for its addition to the set.
\<close>

section \<open>Identifiers\<close>

record mdv_objid =
  oid_node :: u32
  oid_id :: u64

definition objid_u8 :: "mdv_objid \<Rightarrow> bytes" where
  "objid_u8 i = le_bytes 4 (oid_node i) @ le_bytes 8 (oid_id i)"

lemma length_objid_u8 [simp]: "length (objid_u8 i) = 12"
  by (simp add: objid_u8_def)

lemma objid_u8_inject: "objid_u8 i = objid_u8 j \<longleftrightarrow> i = j"
proof
  assume eq: "objid_u8 i = objid_u8 j"
  then have "le_bytes 4 (oid_node i) = le_bytes 4 (oid_node j)" "le_bytes 8 (oid_id i) = le_bytes 8 (oid_id j)"
    by (simp_all add: objid_u8_def append_eq_append_conv)
  then have "oid_node i = oid_node j" "oid_id i = oid_id j" by (metis le_word_u32, metis le_word_u64)
  then show "i = j" by (cases i; cases j) simp
qed simp


section \<open>Writing\<close>

abbreviation (input) key_id :: bytes where "key_id \<equiv> [0x69, 0x64]"

definition binn_rowset_row ::
  "mdv_table_desc \<Rightarrow> mdv_row \<times> mdv_objid \<Rightarrow> bool list \<times> bool list \<Rightarrow> binn \<Rightarrow> (bool \<times> binn) option" where
  "binn_rowset_row desc r outcomes list0 = do {
     fields0 \<leftarrow> mdv_binn_row (fst outcomes) (fst r) desc;
     case fields0 of None \<Rightarrow> Some (True, list0)
     | Some fields0 \<Rightarrow> do {
         (added, list0, oks) \<leftarrow> add_with (Arg_list (binn_serialised fields0)) (list0, snd outcomes);
         if \<not> added then Some (False, list0)
         else if oid_node (snd r) = 0 \<and> oid_id (snd r) = 0 then Some (True, list0)
         else
           let (ok, oks) = next_ok oks in
           (case binn_create_object ok of
              None \<Rightarrow> Some (False, list0)
            | Some obj \<Rightarrow> do {
                (added, obj, oks) \<leftarrow> set_keys [(key_id, Arg_blob (Some (objid_u8 (snd r))))] (obj, oks);
                if added then do {
                  (added, list0, oks) \<leftarrow> add_with (Arg_object (binn_serialised obj)) (list0, oks);
                  Some (added, list0)
                }
                else Some (True, list0)
              })
       }
   }"

fun binn_rowset_rows ::
  "mdv_table_desc \<Rightarrow> (mdv_row \<times> mdv_objid) list \<Rightarrow> (bool list \<times> bool list) list \<Rightarrow> binn \<Rightarrow> (bool \<times> binn) option" where
  "binn_rowset_rows desc [] outcomes list0 = Some (True, list0)"
| "binn_rowset_rows desc (r # rs) outcomes list0 =
     (let (now, later) = (case outcomes of [] \<Rightarrow> (([], []), []) | os # later \<Rightarrow> (os, later)) in do {
        (added, list0) \<leftarrow> binn_rowset_row desc r now list0;
        if added then binn_rowset_rows desc rs later list0 else Some (False, list0)
      })"

text \<open>The list and the enumerator are allocated first.\<close>

definition mdv_binn_rowset ::
  "bool \<times> bool \<Rightarrow> mdv_table_desc \<Rightarrow> (mdv_row \<times> mdv_objid) list \<Rightarrow> (bool list \<times> bool list) list \<Rightarrow> binn option option" where
  "mdv_binn_rowset oks desc rows outcomes =
     (case binn_create_list (fst oks) of
        None \<Rightarrow> Some None
      | Some list0 \<Rightarrow>
          if \<not> snd oks then Some None
          else do {
            (added, list0) \<leftarrow> binn_rowset_rows desc rows outcomes list0;
            Some (if added then Some list0 else None)
          })"


section \<open>What a row set holds\<close>

text \<open>A row of a set: the bytes of a list that is not empty.\<close>

definition row_bytes :: "bytes \<Rightarrow> bool" where
  "row_bytes bs \<longleftrightarrow> (\<exists>js item. list_holds js item \<and> js \<noteq> [] \<and> bs = binn_serialised item)"

definition row_as :: "float_ops \<Rightarrow> mdv_table_desc \<Rightarrow> mdv_row \<Rightarrow> bytes \<Rightarrow> bool" where
  "row_as fp desc row bs \<longleftrightarrow> row_bytes bs \<and> (\<exists>oks item. mdv_binn_row oks row desc = Some (Some item) \<and> bs = binn_serialised item)"

lemma rowset_row_run:
  assumes "binn_rowset_row desc (row, \<lparr> oid_node = 0, oid_id = 0 \<rparr>) outcomes list0 = Some (True, list')"
    "list_holds is list0" "list_all2 (field_ok fp) (td_fields desc) row"
  shows "list' = list0 \<and> mdv_binn_row (fst outcomes) row desc = Some None \<or>
    (\<exists>bs. row_as fp desc row bs \<and> list_holds (is @ [Item_container bs]) list')"
proof (cases "mdv_binn_row (fst outcomes) row desc")
  case (Some r)
  show ?thesis
  proof (cases r)
    case (Some item)
    with \<open>mdv_binn_row _ _ _ = Some r\<close> have row: "mdv_binn_row (fst outcomes) row desc = Some (Some item)" by simp
    from binn_row_run [OF row assms(3)] obtain js where js: "list_holds js item" "js \<noteq> []" by blast
    obtain oks where "add_with (Arg_list (binn_serialised item)) (list0, snd outcomes) = Some (True, list', oks)"
      using assms(1) by (auto simp: binn_rowset_row_def row bind_eq_Some_conv split: if_splits)
    from add_with_holds [OF this assms(2) serialised_wf [OF js(1)]] have "list_holds (is @ [Item_container (binn_serialised item)]) list'"
      by simp
    moreover have "row_as fp desc row (binn_serialised item)" using js row by (auto simp: row_as_def row_bytes_def)
    ultimately show ?thesis by blast
  qed (use Some assms(1) in \<open>simp add: binn_rowset_row_def\<close>)
qed (use assms(1) in \<open>simp add: binn_rowset_row_def\<close>)

text \<open>Rows with data are serialised when no allocation fails.\<close>

definition row_fits :: "float_ops \<Rightarrow> mdv_table_desc \<Rightarrow> mdv_row \<Rightarrow> bool" where
  "row_fits fp desc row \<longleftrightarrow> list_all2 (field_ok fp) (td_fields desc) row \<and>
     sum_list (map d_size row) \<le> 2 ^ 27 \<and> (\<exists>d \<in> set row. d_ptr d \<noteq> None \<and> d_size d > 0)"

lemma rowset_rows_run:
  assumes "binn_rowset_rows desc (map (\<lambda>row. (row, \<lparr> oid_node = 0, oid_id = 0 \<rparr>)) rows) outcomes list0 = Some (True, list')"
    "list_holds is list0" "\<forall>row \<in> set rows. row_fits fp desc row" "\<forall>os \<in> set outcomes. fst os = []"
    "td_fields desc \<noteq> []" "length (td_fields desc) \<le> 1000"
  shows "\<exists>bss. list_all2 (row_as fp desc) rows bss \<and> list_holds (is @ map Item_container bss) list'"
  using assms
proof (induction rows arbitrary: outcomes list0 "is")
  case (Cons row rows)
  obtain now later where os: "(case outcomes of [] \<Rightarrow> (([], []), []) | os # later \<Rightarrow> (os, later)) = (now, later)"
    by (cases "case outcomes of [] \<Rightarrow> (([], []), []) | os # later \<Rightarrow> (os, later)")
  have now: "fst now = []" "\<forall>os \<in> set later. fst os = []" using Cons.prems(4) os by (cases outcomes; auto)+
  obtain list1 where one: "binn_rowset_row desc (row, \<lparr> oid_node = 0, oid_id = 0 \<rparr>) now list0 = Some (True, list1)"
    "binn_rowset_rows desc (map (\<lambda>row. (row, \<lparr> oid_node = 0, oid_id = 0 \<rparr>)) rows) later list1 = Some (True, list')"
    using Cons.prems(1) by (auto simp: os bind_eq_Some_conv split: if_splits)
  have fits: "row_fits fp desc row" using Cons.prems(3) by simp
  then have ok: "list_all2 (field_ok fp) (td_fields desc) row" by (simp add: row_fits_def)
  have "mdv_binn_row [] row desc \<noteq> Some None"
    using binn_row_some [OF ok Cons.prems(5,6)] fits by (auto simp: row_fits_def)
  with rowset_row_run [OF one(1) Cons.prems(2) ok] now(1) obtain bs where
    bs: "row_as fp desc row bs" "list_holds (is @ [Item_container bs]) list1" by auto
  from Cons.IH [OF one(2) bs(2) _ now(2) Cons.prems(5,6)] Cons.prems(3) obtain bss where
    "list_all2 (row_as fp desc) rows bss" "list_holds ((is @ [Item_container bs]) @ map Item_container bss) list'" by auto
  with bs(1) show ?case by (intro exI [of _ "bs # bss"]) simp
qed simp


definition row_room :: "mdv_row \<Rightarrow> nat" where
  "row_room row = 11 + 5 * sum_list (map d_size row) + 17 * length row"

lemma rowset_rows_some:
  assumes "\<forall>row \<in> set rows. row_fits fp desc row" "td_fields desc \<noteq> []" "length (td_fields desc) \<le> 1000"
    and "list_holds is list0" "buffer_pow list0" "used_size list0 + sum_list (map row_room rows) \<le> 2 ^ 30"
  shows "\<exists>list'. binn_rowset_rows desc (map (\<lambda>row. (row, \<lparr> oid_node = 0, oid_id = 0 \<rparr>)) rows) [] list0 = Some (True, list')"
  using assms
proof (induction rows arbitrary: list0 "is")
  case (Cons row rows)
  have fits: "list_all2 (field_ok fp) (td_fields desc) row" "sum_list (map d_size row) \<le> 2 ^ 27"
    "\<exists>d \<in> set row. d_ptr d \<noteq> None \<and> d_size d > 0" using Cons.prems(1) by (simp_all add: row_fits_def)
  from binn_row_some [OF fits(1) Cons.prems(2,3) fits(2,3)] obtain item where
    item: "mdv_binn_row [] row desc = Some (Some item)" "used_size item \<le> 9 + 5 * sum_list (map d_size row) + 17 * length row" by blast
  from binn_row_run [OF item(1) fits(1)] obtain js where js: "list_holds js item" by blast
  have "arg_room (Arg_list (binn_serialised item)) \<le> row_room row"
    using serialised_short [OF js] item(2) by (simp add: row_room_def)
  with Cons.prems(6) have room: "used_size list0 + arg_room (Arg_list (binn_serialised item)) \<le> 2 ^ 30"
    "used_size list0 + arg_room (Arg_list (binn_serialised item)) + sum_list (map row_room rows) \<le> 2 ^ 30" by simp_all
  from add_with_some [OF serialised_wf [OF js] Cons.prems(4,5) room(1)] obtain list1 where
    list1: "add_with (Arg_list (binn_serialised item)) (list0, []) = Some (True, list1, [])" "buffer_pow list1"
      "used_size list1 \<le> used_size list0 + arg_room (Arg_list (binn_serialised item))" by blast
  have "binn_rowset_row desc (row, \<lparr> oid_node = 0, oid_id = 0 \<rparr>) ([], []) list0 = Some (True, list1)"
    using item(1) list1(1) by (simp add: binn_rowset_row_def)
  moreover have "used_size list1 + sum_list (map row_room rows) \<le> 2 ^ 30" using list1(3) room(2) by linarith
  with Cons.IH [OF _ Cons.prems(2,3) add_with_holds [OF list1(1) Cons.prems(4) serialised_wf [OF js]] list1(2)] Cons.prems(1)
  obtain list' where "binn_rowset_rows desc (map (\<lambda>row. (row, \<lparr> oid_node = 0, oid_id = 0 \<rparr>)) rows) [] list1 = Some (True, list')" by auto
  ultimately show ?case by simp
qed simp

lemma binn_rowset_some:
  assumes "\<forall>row \<in> set rows. row_fits fp desc row" "td_fields desc \<noteq> []" "length (td_fields desc) \<le> 1000"
    and "sum_list (map row_room rows) \<le> 2 ^ 29"
  shows "\<exists>rowset. mdv_binn_rowset (True, True) desc (map (\<lambda>row. (row, \<lparr> oid_node = 0, oid_id = 0 \<rparr>)) rows) [] = Some (Some rowset)"
proof -
  have "used_size new_list + sum_list (map row_room rows) \<le> 2 ^ 30" using assms(4) by (simp add: new_list_def)
  from rowset_rows_some [OF assms(1-3) new_list_holds [OF create_new_list] new_list_pow this] show ?thesis
    by (auto simp: mdv_binn_rowset_def create_new_list)
qed

end
