(* ===== verification/Mdv_Rowdata.thy ===== *)
theory Mdv_Rowdata
  imports Mdv_2pset_Idgen Mdv_Rowset
begin

text \<open>
  The row storage of a table (mdv_core/storage/mdv_rowdata.c): a two-phase set keyed
  by row identifiers, with the insertion of a serialised row set. None is a read
  outside the memory of the row set.
\<close>

record mdv_rowdata =
  rd_objects :: mdv_2pset
  rd_table :: mdv_uuid

definition mdv_rowdata_retain :: "mdv_rowdata \<Rightarrow> mdv_rowdata" where
  "mdv_rowdata_retain rowdata = rowdata \<lparr> rd_objects := mdv_2pset_retain (rd_objects rowdata) \<rparr>"

definition mdv_rowdata_release :: "mdv_rowdata \<Rightarrow> mdv_rowdata option" where
  "mdv_rowdata_release rowdata =
     map_option (\<lambda>objs. rowdata \<lparr> rd_objects := objs \<rparr>) (mdv_2pset_release (rd_objects rowdata))"

definition mdv_rowdata_reserve :: "mdv_errno \<Rightarrow> u32 \<Rightarrow> mdv_rowdata \<Rightarrow> (mdv_errno \<times> u64 option) \<times> mdv_rowdata" where
  "mdv_rowdata_reserve lock_result range0 rowdata =
     (let (r, objs) = mdv_2pset_reserve_ids_range lock_result range0 (rd_objects rowdata)
      in (r, rowdata \<lparr> rd_objects := objs \<rparr>))"

text \<open>A call on the storage of the objects.\<close>

definition on_objects :: "(mdv_lmdb, 'a) state \<Rightarrow> mdv_rowdata \<Rightarrow> 'a \<times> mdv_rowdata" where
  "on_objects call rowdata =
     (let (r, e) = run_state call (s_storage (rd_objects rowdata))
      in (r, rowdata \<lparr> rd_objects := rd_objects rowdata \<lparr> s_storage := e \<rparr> \<rparr>))"

definition mdv_rowdata_add_raw :: "mdv_objid \<Rightarrow> bytes \<Rightarrow> mdv_rowdata \<Rightarrow> mdv_errno \<times> mdv_rowdata" where
  "mdv_rowdata_add_raw oid row = on_objects (mdv_2pset_add (objid_u8 oid) row)"

definition mdv_rowdata_delete :: "mdv_objid \<Rightarrow> mdv_rowdata \<Rightarrow> mdv_errno \<times> mdv_rowdata" where
  "mdv_rowdata_delete oid = on_objects (mdv_2pset_delete (objid_u8 oid))"

text \<open>One item of a row set: it is copied, looked at for the log, stored and the copy freed. A value
  in the union of its structure has no size.\<close>

definition add_rowset_item :: "bytes \<Rightarrow> mdv_objid \<Rightarrow> binn_value \<Rightarrow> mdv_rowdata \<Rightarrow> (mdv_errno \<times> mdv_rowdata) option" where
  "add_rowset_item m rowid v rowdata =
     (case v_ptr v of
        In_buffer q \<Rightarrow>
          if v_size v = 0 then Some (MDV_FAILED, rowdata)
          else
            let (ok, rowdata) = on_objects (in_frame mdv_alloc) rowdata in
            if \<not> ok then Some (MDV_NO_MEM, rowdata)
            else do {
              copied_data \<leftarrow> rds m q (v_size v);
              binn_is_valid m q;
              mdv_binn_list_length m q;
              let (add_err, rowdata) = mdv_rowdata_add_raw rowid copied_data rowdata;
              Some (add_err, snd (on_objects (in_frame mdv_free) rowdata))
            }
      | Null_value \<Rightarrow> Some (MDV_FAILED, rowdata)
      | In_union \<Rightarrow> if v_size v = 0 then Some (MDV_FAILED, rowdata) else None)"

text \<open>As many turns as the list has values and one for its end suffice.\<close>

primrec add_rowset_loop ::
  "nat \<Rightarrow> bytes \<Rightarrow> binn_iter \<Rightarrow> u32 \<Rightarrow> u64 \<Rightarrow> mdv_rowdata \<Rightarrow> (mdv_errno \<times> mdv_rowdata) option" where
  "add_rowset_loop 0 m it node current_id rowdata = None"
| "add_rowset_loop (Suc n) m it node current_id rowdata = do {
     (item, it) \<leftarrow> binn_list_next m it;
     case item of None \<Rightarrow> Some (MDV_OK, rowdata)
     | Some v \<Rightarrow> do {
         (err, rowdata) \<leftarrow> add_rowset_item m \<lparr> oid_node = node, oid_id = current_id \<rparr> v rowdata;
         if err \<noteq> MDV_OK then Some (err, rowdata) else add_rowset_loop n m it node (current_id + 1) rowdata
       }
   }"

definition mdv_rowdata_add_raw_rowset ::
  "mdv_objid \<Rightarrow> bytes \<Rightarrow> nat \<Rightarrow> mdv_rowdata \<Rightarrow> (mdv_errno \<times> mdv_rowdata) option" where
  "mdv_rowdata_add_raw_rowset oid m p rowdata = do {
     it \<leftarrow> binn_iter_init m p BINN_LIST;
     add_rowset_loop (it_count it + 1) m it (oid_node oid) (oid_id oid) rowdata
   }"


section \<open>The stored rows\<close>

definition rd_abs :: "mdv_rowdata \<Rightarrow> tp_set" where
  "rd_abs rowdata = tp_abs (env_dbs (s_storage (rd_objects rowdata)))"

text \<open>A storage on which nothing fails, with its number of references.\<close>

definition rd_healthy :: "int \<Rightarrow> mdv_rowdata \<Rightarrow> bool" where
  "rd_healthy k rowdata \<longleftrightarrow> healthy (s_storage (rd_objects rowdata)) \<and> ref_counter (s_storage (rd_objects rowdata)) = k"

lemma objects_exec:
  assumes "rd_healthy k rowdata"
  shows "\<exists>rowdata'. mdv_rowdata_add_raw oid row rowdata = (MDV_OK, rowdata') \<and> rd_healthy k rowdata' \<and>
      rd_abs rowdata' = tp_add (objid_u8 oid) row (rd_abs rowdata)"
    "\<exists>r rowdata'. mdv_rowdata_delete oid rowdata = (r, rowdata') \<and> r \<in> {MDV_OK, MDV_NOT_FOUND} \<and> rd_healthy k rowdata' \<and>
      rd_abs rowdata' = tp_delete (objid_u8 oid) (rd_abs rowdata)"
proof -
  let ?e = "s_storage (rd_objects rowdata)"
  have e: "healthy ?e" "1 \<le> ref_counter ?e" "ref_counter ?e = k" using assms by (simp_all add: rd_healthy_def healthy_def)
  show "\<exists>rowdata'. mdv_rowdata_add_raw oid row rowdata = (MDV_OK, rowdata') \<and> rd_healthy k rowdata' \<and>
      rd_abs rowdata' = tp_add (objid_u8 oid) row (rd_abs rowdata)"
    using add_run [OF e(2), of "objid_u8 oid" row] add_tp [OF e(1), of "objid_u8 oid" row] e(1,3)
    by (auto simp: mdv_rowdata_add_raw_def on_objects_def rd_abs_def rd_healthy_def healthy_def balanced_def)
  show "\<exists>r rowdata'. mdv_rowdata_delete oid rowdata = (r, rowdata') \<and> r \<in> {MDV_OK, MDV_NOT_FOUND} \<and> rd_healthy k rowdata' \<and>
      rd_abs rowdata' = tp_delete (objid_u8 oid) (rd_abs rowdata)"
    using delete_run [OF e(2), of "objid_u8 oid"] delete_tp [OF e(1), of "objid_u8 oid"] e(1,3)
    by (auto simp: mdv_rowdata_delete_def on_objects_def rd_abs_def rd_healthy_def healthy_def balanced_def split: if_splits)
qed

lemma copy_calls:
  assumes "rd_healthy k rowdata"
  shows "\<exists>rowdata'. on_objects (in_frame mdv_alloc) rowdata = (True, rowdata') \<and> rd_healthy k rowdata' \<and> rd_abs rowdata' = rd_abs rowdata"
    "rd_healthy k (snd (on_objects (in_frame mdv_free) rowdata))"
    "rd_abs (snd (on_objects (in_frame mdv_free) rowdata)) = rd_abs rowdata"
  using assms
  by (simp_all add: on_objects_def in_frame_def mdv_alloc_def mdv_free_def frame_init_def sys_adv_def tape_ok_def
      rd_healthy_def healthy_def rd_abs_def)

lemma row_in_memory:
  assumes "row_bytes bs" "holds_at m q bs"
  shows "\<exists>r n. binn_is_valid m q = Some r \<and> mdv_binn_list_length m q = Some n" "length bs \<noteq> 0"
proof -
  obtain js item where item: "list_holds js item" "js \<noteq> []" "bs = binn_serialised item" using assms(1) by (auto simp: row_bytes_def)
  obtain pre post where m: "m = pre @ bs @ post" "length pre = q" using holds_at_split [OF assms(2)] by blast
  from row_valid [OF item(1,2) m(1) [unfolded item(3)] m(2) [symmetric]]
  show "\<exists>r n. binn_is_valid m q = Some r \<and> mdv_binn_list_length m q = Some n" by blast
  from serialised_list [OF item(1)] show "length bs \<noteq> 0" by (auto simp: item(3) container_def)
qed

lemma rowset_item_run:
  assumes "decode m v = Some (Item_container bs)" "value_ok v" "row_bytes bs" "rd_healthy k rowdata"
  shows "\<exists>rowdata'. add_rowset_item m rowid v rowdata = Some (MDV_OK, rowdata') \<and> rd_healthy k rowdata' \<and>
    rd_abs rowdata' = tp_add (objid_u8 rowid) bs (rd_abs rowdata)"
proof -
  have t: "v_type v \<in> {BINN_LIST, BINN_MAP, BINN_OBJECT}" "value_mem m v (v_size v) = Some bs"
    using assms(1) by (auto simp: decode_def bind_eq_Some_conv type_family_def split: if_splits)
  then obtain q where q: "v_ptr v = In_buffer q" using assms(2) by (auto simp: value_ok_def)
  with t(2) have rds: "rds m q (v_size v) = Some bs" by (simp add: value_mem_def)
  note row = row_in_memory [OF assms(3) holds_at_rds [OF rds]]
  from row(2) length_rds [OF rds] have size0: "v_size v \<noteq> 0" by simp
  from copy_calls(1) [OF assms(4)] obtain rd1 where
    rd1: "on_objects (in_frame mdv_alloc) rowdata = (True, rd1)" "rd_healthy k rd1" "rd_abs rd1 = rd_abs rowdata" by blast
  from objects_exec(1) [OF rd1(2), of rowid bs] obtain rd2 where
    rd2: "mdv_rowdata_add_raw rowid bs rd1 = (MDV_OK, rd2)" "rd_healthy k rd2" "rd_abs rd2 = tp_add (objid_u8 rowid) bs (rd_abs rd1)" by blast
  show ?thesis using row(1) size0 rd1 rd2 copy_calls(2,3) [OF rd2(2)] by (auto simp: add_rowset_item_def q rds)
qed

text \<open>The rows of a set go under consecutive identifiers.\<close>

fun row_adds :: "u32 \<Rightarrow> u64 \<Rightarrow> bytes list \<Rightarrow> tp_op list" where
  "row_adds node i [] = []"
| "row_adds node i (bs # bss) = Add (objid_u8 \<lparr> oid_node = node, oid_id = i \<rparr>) bs # row_adds node (i + 1) bss"

lemma rowset_loop_run:
  assumes "list_values n m it = Some vs" "decodes m vs (map Item_container bss)" "\<forall>v \<in> set vs. value_ok v"
    "\<forall>bs \<in> set bss. row_bytes bs" "rd_healthy k rowdata"
  shows "\<exists>rowdata'. add_rowset_loop n m it node i rowdata = Some (MDV_OK, rowdata') \<and> rd_healthy k rowdata' \<and>
    rd_abs rowdata' = fold tp_step (row_adds node i bss) (rd_abs rowdata)"
  using assms
proof (induction n arbitrary: it vs bss i rowdata)
  case (Suc n)
  obtain item it1 where "next": "binn_list_next m it = Some (item, it1)"
    and rest: "(case item of None \<Rightarrow> Some [] | Some v \<Rightarrow> map_option ((#) v) (list_values n m it1)) = Some vs"
    using Suc.prems(1) by (auto simp: bind_eq_Some_conv)
  show ?case
  proof (cases item)
    case None
    then have "bss = []" using rest Suc.prems(2) by (auto simp: decodes_def)
    with None Suc.prems(5) show ?thesis by (simp add: "next")
  next
    case (Some v)
    then obtain vs' where vs: "vs = v # vs'" "list_values n m it1 = Some vs'" using rest by auto
    then obtain bs bss' where bss: "bss = bs # bss'" "decode m v = Some (Item_container bs)" "decodes m vs' (map Item_container bss')"
      using Suc.prems(2) by (cases bss) (auto simp: decodes_def)
    from rowset_item_run [OF bss(2) _ _ Suc.prems(5), of "\<lparr> oid_node = node, oid_id = i \<rparr>"] Suc.prems(3,4) obtain rd1 where
      rd1: "add_rowset_item m \<lparr> oid_node = node, oid_id = i \<rparr> v rowdata = Some (MDV_OK, rd1)" "rd_healthy k rd1"
        "rd_abs rd1 = tp_add (objid_u8 \<lparr> oid_node = node, oid_id = i \<rparr>) bs (rd_abs rowdata)"
      by (auto simp: vs(1) bss(1))
    from Suc.IH [OF vs(2) bss(3) _ _ rd1(2), of "i + 1"] Suc.prems(3,4) obtain rd2 where
      "add_rowset_loop n m it1 node (i + 1) rd1 = Some (MDV_OK, rd2)" "rd_healthy k rd2"
      "rd_abs rd2 = fold tp_step (row_adds node (i + 1) bss') (rd_abs rd1)"
      by (auto simp: vs(1) bss(1))
    with rd1 show ?thesis by (auto simp: "next" Some bss(1))
  qed
qed simp

text \<open>A row set in memory.\<close>

definition rowset_at :: "bytes \<Rightarrow> nat \<Rightarrow> bytes list \<Rightarrow> bool" where
  "rowset_at m p bss \<longleftrightarrow> (\<exists>vs. binn_list_foreach m p = Some vs \<and> decodes m vs (map Item_container bss) \<and> (\<forall>v \<in> set vs. value_ok v)) \<and>
     (\<forall>bs \<in> set bss. row_bytes bs)"

lemma add_raw_rowset_run:
  assumes "rowset_at m p bss" "rd_healthy k rowdata"
  shows "\<exists>rowdata'. mdv_rowdata_add_raw_rowset \<lparr> oid_node = node, oid_id = i \<rparr> m p rowdata = Some (MDV_OK, rowdata') \<and>
    rd_healthy k rowdata' \<and> rd_abs rowdata' = fold tp_step (row_adds node i bss) (rd_abs rowdata)"
proof -
  obtain vs where vs: "binn_list_foreach m p = Some vs" "decodes m vs (map Item_container bss)" "\<forall>v \<in> set vs. value_ok v"
    "\<forall>bs \<in> set bss. row_bytes bs" using assms(1) by (auto simp: rowset_at_def)
  then obtain it where "binn_iter_init m p BINN_LIST = Some it" "list_values (it_count it + 1) m it = Some vs"
    by (auto simp: binn_list_foreach_def bind_eq_Some_conv)
  with rowset_loop_run [OF this(2) vs(2-4) assms(2), of node i] show ?thesis by (simp add: mdv_rowdata_add_raw_rowset_def)
qed

end
