(* ===== verification/Mdv_Trlog.thy ===== *)
theory Mdv_Trlog
  imports Mdv_Lmdb_Map
begin

text \<open>
  The transaction log of mdv_core/storage/mdv_trlog.c: operations under 64-bit
  ids in the map TRLOG, the application position in the map APPLIED, and in
  memory the next free id (top) and the application position. An operation is
  the bytes of its mdv_trlog_op, whose first word is its size. Published
  change events are counted.
\<close>

definition MDV_MAP_TRLOG :: string where "MDV_MAP_TRLOG = ''TRLOG''"
definition MDV_MAP_APPLIED :: string where "MDV_MAP_APPLIED = ''APPLIED''"

lemma trlog_names [simp]: "MDV_MAP_TRLOG \<noteq> MDV_MAP_APPLIED" "MDV_MAP_APPLIED \<noteq> MDV_MAP_TRLOG"
  by (simp_all add: MDV_MAP_TRLOG_def MDV_MAP_APPLIED_def)

type_synonym trlog_data = "u64 \<times> bytes"

record mdv_trlog =
  tl_storage :: mdv_lmdb
  tl_top :: u64
  tl_applied :: u64
  tl_events :: nat

definition applied_key :: bytes where
  "applied_key = le_bytes 4 (0 :: u32)"

definition op_size :: "bytes \<Rightarrow> nat" where
  "op_size op = le_value (take 4 op)"


section \<open>Opening\<close>

definition trlog_init_frame :: "(frame, u64 \<times> u64) state" where
  "trlog_init_frame = do {
     ok \<leftarrow> mdv_transaction_start;
     if \<not> ok then State_Monad.return (0, 0)
     else do {
       ok \<leftarrow> mdv_map_open MapA MDV_MAP_TRLOG False True;
       pos \<leftarrow> (if \<not> ok then State_Monad.return 0
         else do {
           t \<leftarrow> mdv_map_foreach_explicit MapA [] MDV_CURSOR_LAST
             (\<lambda>entry t. State_Monad.return (True, case entry of None \<Rightarrow> t | Some (k, v) \<Rightarrow> le_word k + 1)) 0;
           mdv_map_close MapA;
           State_Monad.return t
         });
       ok \<leftarrow> mdv_map_open MapA MDV_MAP_APPLIED False True;
       applied \<leftarrow> (if \<not> ok then State_Monad.return 0
         else do {
           v \<leftarrow> mdv_map_get MapA applied_key;
           mdv_map_close MapA;
           State_Monad.return (case v of None \<Rightarrow> 0 | Some val \<Rightarrow> le_word val)
         });
       mdv_transaction_abort;
       State_Monad.return (pos, applied)
     }
   }"

definition mdv_trlog_init :: "mdv_trlog \<Rightarrow> mdv_trlog" where
  "mdv_trlog_init trlog =
     (let ((pos, applied), s) = run_state trlog_init_frame (frame_init (tl_storage trlog))
      in trlog \<lparr> tl_storage := f_env s, tl_top := pos, tl_applied := applied \<rparr>)"

definition mdv_trlog_retain :: "mdv_trlog \<Rightarrow> mdv_trlog" where
  "mdv_trlog_retain trlog = trlog \<lparr> tl_storage := mdv_storage_retain (tl_storage trlog) \<rparr>"

definition mdv_trlog_release :: "mdv_trlog \<Rightarrow> mdv_trlog option" where
  "mdv_trlog_release trlog =
     (let e = mdv_storage_release (tl_storage trlog)
      in if ref_counter e = 0 then None else Some (trlog \<lparr> tl_storage := e \<rparr>))"


section \<open>Positions\<close>

definition mdv_trlog_new_id :: "mdv_trlog \<Rightarrow> u64 \<times> mdv_trlog" where
  "mdv_trlog_new_id trlog = (tl_top trlog, trlog \<lparr> tl_top := tl_top trlog + 1 \<rparr>)"

text \<open>The compare-exchange loop, without a concurrent writer.\<close>

definition mdv_trlog_id_maximize :: "u64 \<Rightarrow> u64 \<Rightarrow> u64" where
  "mdv_trlog_id_maximize id0 pos = (let i = id0 + 1 in if i > pos then i else pos)"

definition applied_pos_frame :: "u64 \<Rightarrow> (frame, unit) state" where
  "applied_pos_frame applied_pos = do {
     ok \<leftarrow> mdv_transaction_start;
     if \<not> ok then State_Monad.return ()
     else do {
       ok \<leftarrow> mdv_map_open MapA MDV_MAP_APPLIED True True;
       if \<not> ok then do { mdv_transaction_abort; State_Monad.return () }
       else do {
         ok \<leftarrow> mdv_map_put MapA applied_key (le_bytes 8 applied_pos);
         if ok then do { mdv_transaction_commit; mdv_map_close MapA }
         else do { mdv_map_close MapA; mdv_transaction_abort; State_Monad.return () }
       }
     }
   }"

definition mdv_trlog_applied_pos_set :: "u64 \<Rightarrow> mdv_trlog \<Rightarrow> mdv_trlog" where
  "mdv_trlog_applied_pos_set applied_pos trlog =
     (let (u, s) = run_state (applied_pos_frame applied_pos) (frame_init (tl_storage trlog))
      in trlog \<lparr> tl_storage := f_env s, tl_applied := applied_pos \<rparr>)"


section \<open>Writing\<close>

text \<open>Creating the change event may fail; a created one is published and released.\<close>

definition mdv_trlog_changed_notify :: "(frame, bool) state" where
  "mdv_trlog_changed_notify = do {
     ok \<leftarrow> mdv_alloc;
     if ok then do { mdv_free; State_Monad.return True } else State_Monad.return False
   }"

primrec trlog_add_loop :: "trlog_data list \<Rightarrow> bool \<Rightarrow> u64 \<Rightarrow> (frame, bool \<times> u64) state" where
  "trlog_add_loop [] changed pos = State_Monad.return (changed, pos)"
| "trlog_add_loop (op # ops) changed pos = do {
     ok \<leftarrow> mdv_map_put_unique MapA (le_bytes 8 (fst op)) (take (op_size (snd op)) (snd op));
     if ok then trlog_add_loop ops True (mdv_trlog_id_maximize (fst op) pos)
     else trlog_add_loop ops changed pos
   }"

definition trlog_add_frame :: "trlog_data list \<Rightarrow> u64 \<Rightarrow> (frame, bool \<times> u64 \<times> bool) state" where
  "trlog_add_frame ops pos =
     with_map False MDV_MAP_TRLOG True True (False, pos, False) (False, pos, False) (do {
       (changed, pos') \<leftarrow> trlog_add_loop ops False pos;
       ok \<leftarrow> mdv_transaction_commit;
       if \<not> ok then do { rollback; State_Monad.return (False, pos', False) }
       else do {
         close_map;
         published \<leftarrow> (if changed then mdv_trlog_changed_notify else State_Monad.return False);
         State_Monad.return (True, pos', published)
       }
     })"

definition mdv_trlog_add :: "trlog_data list \<Rightarrow> mdv_trlog \<Rightarrow> bool \<times> mdv_trlog" where
  "mdv_trlog_add ops trlog =
     (let ((ok, pos, published), s) =
        run_state (trlog_add_frame ops (tl_top trlog)) (start_frame False (tl_storage trlog))
      in (ok, trlog \<lparr> tl_storage := f_env s, tl_top := pos,
                      tl_events := tl_events trlog + (if published then 1 else 0) \<rparr>))"

text \<open>The frame answers whether the operation was stored, whether an id was taken and whether
  the event was published.\<close>

definition trlog_add_op_frame :: "u64 \<Rightarrow> bytes \<Rightarrow> (frame, bool \<times> bool \<times> bool) state" where
  "trlog_add_op_frame id0 op =
     with_map False MDV_MAP_TRLOG True True (False, False, False) (False, False, False) (do {
       ok \<leftarrow> mdv_map_put_unique MapA (le_bytes 8 id0) (take (op_size op) op);
       if \<not> ok then do { rollback; State_Monad.return (False, True, False) }
       else do {
         ok \<leftarrow> mdv_transaction_commit;
         if \<not> ok then do { rollback; State_Monad.return (False, True, False) }
         else do {
           close_map;
           published \<leftarrow> mdv_trlog_changed_notify;
           State_Monad.return (True, True, published)
         }
       }
     })"

definition mdv_trlog_add_op :: "bytes \<Rightarrow> mdv_trlog \<Rightarrow> bool \<times> mdv_trlog" where
  "mdv_trlog_add_op op trlog =
     (let (id0, bumped) = mdv_trlog_new_id trlog;
          ((ok, taken, published), s) =
            run_state (trlog_add_op_frame id0 op) (start_frame False (tl_storage trlog));
          trlog' = (if taken then bumped else trlog)
      in (ok, trlog' \<lparr> tl_storage := f_env s, tl_events := tl_events trlog + (if published then 1 else 0) \<rparr>))"



section \<open>Reading\<close>

text \<open>
  The assertion on the size of a stored operation is not an outcome of its own: the
  functions of the log keep it true.
\<close>

definition read_entry :: "bytes \<times> bytes \<Rightarrow> trlog_data" where
  "read_entry p = (le_word (fst p), take (op_size (snd p)) (snd p))"

definition trlog_read_frame :: "u64 \<Rightarrow> nat \<Rightarrow> (frame, trlog_data list) state" where
  "trlog_read_frame pos size0 =
     with_map False MDV_MAP_TRLOG False True [] [] (do {
       ops \<leftarrow> mdv_map_foreach_explicit MapA (le_bytes 8 pos) MDV_CURSOR_SET_RANGE
         (collect_body read_entry (\<lambda>p. False) (\<lambda>n. n \<ge> size0)) [];
       end_read;
       State_Monad.return ops
     })"

definition trlog_range_frame :: "u64 \<Rightarrow> u64 \<Rightarrow> (frame, trlog_data list) state" where
  "trlog_range_frame from0 to0 =
     with_map False MDV_MAP_TRLOG False True [] [] (do {
       ops \<leftarrow> mdv_map_foreach_explicit MapA (le_bytes 8 from0) MDV_CURSOR_SET_RANGE
         (collect_body read_entry (\<lambda>p. fst (read_entry p) \<ge> to0) (\<lambda>n. False)) [];
       end_read;
       State_Monad.return ops
     })"

definition mdv_trlog_read :: "u64 \<Rightarrow> nat \<Rightarrow> mdv_trlog \<Rightarrow> trlog_data list \<times> mdv_trlog" where
  "mdv_trlog_read pos size0 trlog =
     (let (ops, s) = run_state (trlog_read_frame pos size0) (start_frame False (tl_storage trlog))
      in (ops, trlog \<lparr> tl_storage := f_env s \<rparr>))"

definition mdv_trlog_range_read :: "u64 \<Rightarrow> u64 \<Rightarrow> mdv_trlog \<Rightarrow> trlog_data list \<times> mdv_trlog" where
  "mdv_trlog_range_read from0 to0 trlog =
     (let (ops, s) = run_state (trlog_range_frame from0 to0) (start_frame False (tl_storage trlog))
      in (ops, trlog \<lparr> tl_storage := f_env s \<rparr>))"

text \<open>mdv_list_clear frees the entries that were read.\<close>

definition free_ops :: "trlog_data list \<Rightarrow> mdv_trlog \<Rightarrow> mdv_trlog" where
  "free_ops ops trlog = trlog \<lparr> tl_storage := (tl_storage trlog)
     \<lparr> env_live := env_live (tl_storage trlog) - int (length ops) \<rparr> \<rparr>"


section \<open>Applying\<close>

definition mdv_trlog_changed :: "mdv_trlog \<Rightarrow> bool" where
  "mdv_trlog_changed trlog \<longleftrightarrow> tl_top trlog > tl_applied trlog"

text \<open>The callback works on a state of its own and answers whether it accepted the operation.\<close>

primrec apply_loop :: "(bytes \<Rightarrow> 'x \<Rightarrow> bool \<times> 'x) \<Rightarrow> trlog_data list \<Rightarrow> u64 \<Rightarrow> nat \<Rightarrow> 'x \<Rightarrow> (u64 \<times> nat) \<times> 'x" where
  "apply_loop fn [] pos n x = ((pos, n), x)"
| "apply_loop fn (op # ops) pos n x =
     (let (ok, x') = fn (snd op) x
      in if ok then apply_loop fn ops (fst op + 1) (n + 1) x' else ((pos, n), x'))"

definition mdv_trlog_apply ::
  "nat \<Rightarrow> (bytes \<Rightarrow> 'x \<Rightarrow> bool \<times> 'x) \<Rightarrow> mdv_trlog \<times> 'x \<Rightarrow> nat \<times> mdv_trlog \<times> 'x" where
  "mdv_trlog_apply batch_size fn tx =
     (let (trlog, x) = tx; applied_pos = tl_applied trlog in
      if applied_pos \<ge> tl_top trlog then (0, trlog, x)
      else
        let (ops, trlog) = mdv_trlog_read applied_pos batch_size trlog in
        if ops = [] then (0, trlog, x)
        else
          let ((new_pos, n), x) = apply_loop fn ops applied_pos 0 x;
              trlog = free_ops ops trlog
          in if n > 0 then (n, mdv_trlog_applied_pos_set new_pos trlog, x) else (n, trlog, x))"

primrec foreach_ops :: "(trlog_data \<Rightarrow> 'x \<Rightarrow> bool \<times> 'x) \<Rightarrow> trlog_data list \<Rightarrow> nat \<Rightarrow> 'x \<Rightarrow> nat \<times> 'x" where
  "foreach_ops fn [] n x = (n, x)"
| "foreach_ops fn (op # ops) n x =
     (let (ok, x') = fn op x in if ok then foreach_ops fn ops (n + 1) x' else (n, x'))"

definition mdv_trlog_foreach ::
  "u64 \<Rightarrow> nat \<Rightarrow> (trlog_data \<Rightarrow> 'x \<Rightarrow> bool \<times> 'x) \<Rightarrow> mdv_trlog \<times> 'x \<Rightarrow> nat \<times> mdv_trlog \<times> 'x" where
  "mdv_trlog_foreach id0 batch_size fn tx =
     (let (trlog, x) = tx; (ops, trlog) = mdv_trlog_read id0 batch_size trlog in
      if ops = [] then (0, trlog, x)
      else let (n, x) = foreach_ops fn ops 0 x in (n, free_ops ops trlog, x))"

end
