(* ===== verification/Mdv_Trlog_Spec.thy ===== *)
theory Mdv_Trlog_Spec
  imports Mdv_Trlog
begin

text \<open>
  What the transaction log promises: operations are read in ascending order of
  their ids, an append is atomic and takes the next id, remote operations are
  stored once, and the application position moves over exactly the operations
  that were applied, across restarts.
\<close>

section \<open>The stored log\<close>

definition log_kv :: "dbs \<Rightarrow> kv" where
  "log_kv d = (case d MDV_MAP_TRLOG of None \<Rightarrow> [] | Some b \<Rightarrow> db_kv b)"

definition log_list :: "dbs \<Rightarrow> trlog_data list" where
  "log_list d = map read_entry (log_kv d)"

definition log_wf :: "dbs \<Rightarrow> bool" where
  "log_wf d \<longleftrightarrow> (\<forall>b. d MDV_MAP_TRLOG = Some b \<longrightarrow> db_intkey b \<and>
     sorted_wrt (\<lambda>p q. key_less True (fst p) (fst q)) (db_kv b) \<and>
     (\<forall>p \<in> set (db_kv b). length (fst p) = 8))"

lemma le_value_bound: "le_value bs < 256 ^ length bs"
proof (induction bs)
  case (Cons b bs)
  have "unat b < 256" by (rule unat_bounds)
  with Cons show ?case by simp
qed simp

lemma unat_le_word: "length bs = 8 \<Longrightarrow> unat (le_word bs :: u64) = le_value bs"
  using le_value_bound [of bs] by (simp add: le_word_def unsigned_of_nat take_bit_nat_eq_self)

lemma le_bytes_le_word: "length bs = 8 \<Longrightarrow> le_bytes 8 (le_word bs :: u64) = bs"
  by (rule le_value_inj) (simp_all add: unat_le_word)

lemma key_less_word:
  assumes "length a = 8" "length b = 8"
  shows "key_less True a b \<longleftrightarrow> (le_word a :: u64) < le_word b"
  using assms by (simp add: key_less_def word_less_nat_alt unat_le_word)

lemma log_kv_wf:
  assumes "log_wf d"
  shows "sorted_wrt (\<lambda>p q. key_less True (fst p) (fst q)) (log_kv d)" "\<forall>p \<in> set (log_kv d). length (fst p) = 8"
  using assms by (cases "d MDV_MAP_TRLOG"; fastforce simp: log_wf_def log_kv_def)+

lemma log_list_sorted:
  assumes "log_wf d"
  shows "sorted_wrt (<) (map fst (log_list d))"
proof -
  have "sorted_wrt (\<lambda>p q. fst (read_entry p) < fst (read_entry q)) (log_kv d)"
    by (rule sorted_wrt_mono_rel [OF _ log_kv_wf(1) [OF assms]])
      (use log_kv_wf(2) [OF assms] key_less_word in \<open>auto simp: read_entry_def\<close>)
  then show ?thesis by (simp add: log_list_def sorted_wrt_map)
qed

lemma log_range_drop:
  assumes "log_wf d"
  shows "map read_entry (drop (kv_range True (le_bytes 8 pos) (log_kv d)) (log_kv d)) =
    dropWhile (\<lambda>e. fst e < pos) (log_list d)"
proof -
  have "key_less True (fst p) (le_bytes 8 pos) \<longleftrightarrow> fst (read_entry p) < pos" if "p \<in> set (log_kv d)" for p
    using key_less_word [of "fst p" "le_bytes 8 pos"] that log_kv_wf(2) [OF assms]
    by (simp add: read_entry_def)
  then have "dropWhile (\<lambda>p. key_less True (fst p) (le_bytes 8 pos)) (log_kv d) =
      dropWhile ((\<lambda>e. fst e < pos) \<circ> read_entry) (log_kv d)"
    by (intro dropWhile_cong) auto
  then show ?thesis
    by (simp add: kv_range_def log_list_def dropWhile_map flip: dropWhile_eq_drop)
qed

text \<open>On a list in ascending order the two while-filters select by value.\<close>

lemma dropWhile_sorted:
  assumes "sorted_wrt (<) (map fst xs)"
  shows "dropWhile (\<lambda>e. fst e < (a :: u64)) xs = filter (\<lambda>e. a \<le> fst e) xs"
  using assms
proof (induction xs)
  case (Cons x xs)
  then show ?case
    by (cases "fst x < a") (auto simp: not_less intro!: filter_True [symmetric])
qed simp

lemma takeWhile_sorted:
  assumes "sorted_wrt (<) (map fst xs)"
  shows "takeWhile (\<lambda>e. \<not> (b :: u64) \<le> fst e) xs = filter (\<lambda>e. fst e < b) xs"
  using assms
proof (induction xs)
  case (Cons x xs)
  then show ?case
    by (cases "fst x < b") (auto simp: not_le filter_empty_conv intro!: filter_False [symmetric])
qed simp

lemma collect_full:
  "collect conv (\<lambda>p. False) (\<lambda>n. n \<ge> k) ps acc = acc @ map conv (take (max 1 (k - length acc)) ps)"
proof (induction ps arbitrary: acc)
  case (Cons p ps)
  show ?case
    by (cases "k \<le> length acc + 1") (auto simp: Cons.IH max_def take_Cons' Suc_diff_le)
qed simp

lemma collect_stop:
  "collect conv stop (\<lambda>n. False) ps acc = acc @ map conv (takeWhile (\<lambda>p. \<not> stop p) ps)"
  by (induction ps arbitrary: acc) simp_all



section \<open>Reading\<close>

text \<open>The operations from a position on, and those of a half-open range of ids.\<close>

definition log_from :: "u64 \<Rightarrow> dbs \<Rightarrow> trlog_data list" where
  "log_from a d = filter (\<lambda>e. a \<le> fst e) (log_list d)"

definition log_range :: "u64 \<Rightarrow> u64 \<Rightarrow> dbs \<Rightarrow> trlog_data list" where
  "log_range a b d = filter (\<lambda>e. a \<le> fst e \<and> fst e < b) (log_list d)"

lemma log_db:
  assumes "log_wf d" "has_db d MDV_MAP_TRLOG"
  shows "db_intkey (the (d MDV_MAP_TRLOG))" "db_kv (the (d MDV_MAP_TRLOG)) = log_kv d"
  using assms by (auto simp: log_wf_def has_db_def log_kv_def)

lemma log_from_collect:
  assumes "log_wf d"
  shows "collect read_entry (\<lambda>p. False) (\<lambda>n. n \<ge> k)
      (drop (kv_range True (le_bytes 8 a) (log_kv d)) (log_kv d)) [] = take (max 1 k) (log_from a d)"
  using assms by (simp add: collect_full log_range_drop dropWhile_sorted log_list_sorted log_from_def
      flip: take_map)

lemma log_range_collect:
  assumes "log_wf d"
  shows "collect read_entry (\<lambda>p. b \<le> fst (read_entry p)) (\<lambda>n. False)
      (drop (kv_range True (le_bytes 8 a) (log_kv d)) (log_kv d)) [] = log_range a b d"
proof -
  let ?ps = "drop (kv_range True (le_bytes 8 a) (log_kv d)) (log_kv d)"
  have "map read_entry (takeWhile (\<lambda>p. \<not> b \<le> fst (read_entry p)) ?ps) =
      takeWhile (\<lambda>e. \<not> b \<le> fst e) (map read_entry ?ps)"
    by (simp add: takeWhile_map comp_def)
  also have "map read_entry ?ps = log_from a d"
    using assms by (simp add: log_range_drop dropWhile_sorted log_list_sorted log_from_def)
  also have "takeWhile (\<lambda>e. \<not> b \<le> fst e) (log_from a d) = filter (\<lambda>e. fst e < b) (log_from a d)"
    unfolding log_from_def
    by (rule takeWhile_sorted) (use log_list_sorted [OF assms] in
      \<open>auto simp: sorted_wrt_map intro: sorted_wrt_filter\<close>)
  finally show ?thesis
    by (simp add: collect_stop log_range_def log_from_def conj_commute)
qed

lemma open_log:
  assumes "map_opens False MDV_MAP_TRLOG e"
  shows "create_db MDV_MAP_TRLOG True (env_dbs e) = env_dbs e" "has_db (env_dbs e) MDV_MAP_TRLOG"
  using assms by (auto simp: map_opens_def create_db_def has_db_def)

lemma no_log: "\<not> has_db d MDV_MAP_TRLOG \<Longrightarrow> log_list d = []"
  by (simp add: log_list_def log_kv_def has_db_def)

text \<open>
  A reading function returns a beginning of the matching operations, all of
  them when nothing fails, and leaves the storage as it was but for the copied
  entries.
\<close>

definition reads :: "mdv_lmdb \<Rightarrow> trlog_data list \<Rightarrow> trlog_data list \<times> frame \<Rightarrow> bool" where
  "reads e full rs \<longleftrightarrow> (\<exists>m. fst rs = take m full \<and> m \<le> length full \<and>
     (env_faults e = [] \<longrightarrow> m = length full) \<and>
     env_dbs (f_env (snd rs)) = env_dbs e \<and>
     balanced (e \<lparr> env_live := env_live e + int m \<rparr>) (f_env (snd rs)))"

lemma with_map_reads:
  assumes e: "1 \<le> ref_counter e" "log_wf (env_dbs e)"
    and full: "collect read_entry stop f (drop (kv_range True (le_bytes 8 a) (log_kv (env_dbs e))) (log_kv (env_dbs e))) [] = full"
    and none: "log_list (env_dbs e) = [] \<Longrightarrow> full = []"
  shows "reads e full (run_state (with_map False MDV_MAP_TRLOG False True [] [] (do {
       ops \<leftarrow> mdv_map_foreach_explicit MapA (le_bytes 8 a) MDV_CURSOR_SET_RANGE (collect_body read_entry stop f) [];
       end_read;
       State_Monad.return ops
     })) (start_frame False e))"
proof (cases "map_opens False MDV_MAP_TRLOG e")
  case True
  note db = open_log [OF True] and kv = log_db [OF e(2) open_log(2) [OF True]]
  from foreach_range_run [OF e(1) db(2), where conv = read_entry and stop = stop and full = f
      and key = "le_bytes 8 a" and mx = False and n = 3, OF refl]
  obtain m n' where run: "run_state (mdv_map_foreach_explicit MapA (le_bytes 8 a) MDV_CURSOR_SET_RANGE
        (collect_body read_entry stop f) []) (opened_map False MDV_MAP_TRLOG e (Some (env_dbs e)) 3) =
      (take m full, opened_map False MDV_MAP_TRLOG (e \<lparr> env_live := env_live e + int m \<rparr>) (Some (env_dbs e)) n')"
    "m \<le> length full" "env_faults e = [] \<longrightarrow> m = length full"
    unfolding kv eqTrueI [OF kv(1)] full by blast
  then show ?thesis
    using e(1) end_read_opened_map [of "e \<lparr> env_live := env_live e + int m \<rparr>"]
    by (simp add: reads_def run_with_map_ok [OF True] db(1) split_beta) blast
next
  case False
  then have "env_faults e = [] \<Longrightarrow> full = []"
    using none no_log by (auto simp: map_opens_def txn_opens_def)
  moreover let ?body = "do {
       ops \<leftarrow> mdv_map_foreach_explicit MapA (le_bytes 8 a) MDV_CURSOR_SET_RANGE (collect_body read_entry stop f) [];
       end_read;
       State_Monad.return ops
     }"
  obtain s where "run_state (with_map False MDV_MAP_TRLOG False True [] [] ?body) (start_frame False e) = ([], s)"
    "env_dbs (f_env s) = env_dbs e" "balanced e (f_env s)"
    using run_with_map_fail [OF False e(1), of False True "[]" "[]" ?body] by auto
  ultimately show ?thesis by (auto simp: reads_def intro!: exI [of _ 0])
qed

lemma read_run:
  assumes "1 \<le> ref_counter e" "log_wf (env_dbs e)"
  shows "reads e (take (max 1 k) (log_from a (env_dbs e))) (run_state (trlog_read_frame a k) (start_frame False e))"
  unfolding trlog_read_frame_def
  by (rule with_map_reads [OF assms log_from_collect [OF assms(2)]]) (simp add: log_from_def)

lemma range_run:
  assumes "1 \<le> ref_counter e" "log_wf (env_dbs e)"
  shows "reads e (log_range a b (env_dbs e)) (run_state (trlog_range_frame a b) (start_frame False e))"
  unfolding trlog_range_frame_def
  by (rule with_map_reads [OF assms log_range_collect [OF assms(2)]]) (simp add: log_range_def)



section \<open>Writing\<close>

definition log_map :: "dbs \<Rightarrow> u64 \<Rightarrow> bytes option" where
  "log_map d = map_of (log_list d)"

text \<open>An operation whose size word is its length.\<close>

definition op_wf :: "bytes \<Rightarrow> bool" where
  "op_wf op \<longleftrightarrow> op_size op = length op"

lemma map_of_read_entry:
  assumes "\<forall>p \<in> set m. length (fst p) = 8"
  shows "map_of (map read_entry m) i = map_option (\<lambda>v. take (op_size v) v) (map_of m (le_bytes 8 i))"
  using assms
proof (induction m)
  case (Cons p m)
  have "le_word (fst p) = i \<longleftrightarrow> fst p = le_bytes 8 i"
    using Cons.prems le_bytes_le_word [of "fst p"] by auto
  with Cons show ?case by (cases p) (auto simp: read_entry_def)
qed simp

lemma log_map_db:
  assumes "log_wf d"
  shows "log_map d i = map_option (\<lambda>v. take (op_size v) v) (db_map d MDV_MAP_TRLOG (le_bytes 8 i))"
  using map_of_read_entry [OF log_kv_wf(2) [OF assms]]
  by (auto simp: log_map_def log_list_def db_map_def log_kv_def split: option.splits)

lemma log_wf_create [simp]: "log_wf (create_db MDV_MAP_TRLOG True d) = log_wf d"
  by (auto simp: log_wf_def create_db_def)

lemma log_map_create [simp]: "log_map (create_db MDV_MAP_TRLOG True d) = log_map d"
  by (simp add: log_map_def log_list_def log_kv_def create_db_def split: option.splits)

lemma log_wf_put: "log_wf d \<Longrightarrow> log_wf (db_put MDV_MAP_TRLOG (le_bytes 8 i) v d)"
  using sorted_kv_put [of True _ "le_bytes 8 i" v] set_kv_put [of True "le_bytes 8 i" v]
  by (fastforce simp: log_wf_def db_put_def split: option.splits)

text \<open>
  A log of such operations. \<^verbatim>\<open>mdv_trlog_read\<close> asserts that every stored operation is one; on
  a log like this it copies the whole value.
\<close>

definition log_sized :: "dbs \<Rightarrow> bool" where
  "log_sized d \<longleftrightarrow> (\<forall>p \<in> set (log_kv d). op_wf (snd p))"

lemma read_entry_sized: "log_sized d \<Longrightarrow> p \<in> set (log_kv d) \<Longrightarrow> read_entry p = (le_word (fst p), snd p)"
  by (simp add: log_sized_def read_entry_def op_wf_def)

lemma log_sized_put: "log_sized d \<Longrightarrow> op_wf op \<Longrightarrow> log_sized (db_put MDV_MAP_TRLOG k op d)"
  using set_kv_put [of _ k op] by (fastforce simp: log_sized_def log_kv_def db_put_def split: option.splits)

lemma log_sized_create [simp]: "log_sized (create_db name i d) = log_sized d"
  by (simp add: log_sized_def log_kv_def create_db_def split: option.splits)

lemma log_map_put:
  assumes "log_wf d" "has_db d MDV_MAP_TRLOG" "op_wf op"
  shows "log_map (db_put MDV_MAP_TRLOG (le_bytes 8 i) op d) = (log_map d)(i \<mapsto> op)"
  using assms by (auto simp: fun_eq_iff log_map_db log_wf_put op_wf_def)

text \<open>Every outcome of an append: put 3, commit 4, event 5.\<close>

definition add_op_ok :: "u64 \<Rightarrow> mdv_lmdb \<Rightarrow> bool" where
  "add_op_ok i e \<longleftrightarrow> map_opens True MDV_MAP_TRLOG e \<and> tape_ok (drop 3 (env_faults e)) \<and>
     db_map (env_dbs e) MDV_MAP_TRLOG (le_bytes 8 i) = None \<and> tape_ok (drop 4 (env_faults e))"

lemma notify_run:
  "\<exists>s'. run_state mdv_trlog_changed_notify s = (tape_ok (env_faults (f_env s)), s') \<and>
     env_dbs (f_env s') = env_dbs (f_env s) \<and> ref_counter (f_env s') = ref_counter (f_env s) \<and>
     env_live (f_env s') = env_live (f_env s) \<and> env_open (f_env s') = env_open (f_env s) \<and>
     env_faults (f_env s') = drop 1 (env_faults (f_env s))"
  by (simp add: mdv_trlog_changed_notify_def mdv_alloc_def mdv_free_def sys_adv_def)

lemma consumed_trans_drop: "consumed fs fs' \<Longrightarrow> consumed fs (drop n fs')"
  by (auto simp: consumed_def)

lemma close_notify:
  assumes "1 \<le> ref_counter e"
  shows "\<exists>b s. run_state mdv_trlog_changed_notify (snd (run_state close_map (opened_map mx name e None n))) = (b, s) \<and>
    env_dbs (f_env s) = env_dbs e \<and> balanced e (f_env s) \<and> (env_faults e = [] \<longrightarrow> b)"
  using notify_run [of "snd (run_state close_map (opened_map mx name e None n))"]
    close_opened_map [OF assms, where mx = mx and name = name and n = n]
  by (auto simp: balanced_def consumed_trans_drop)

lemma add_op_frame_run:
  assumes "1 \<le> ref_counter e"
  shows "\<exists>b s. run_state (trlog_add_op_frame i op) (start_frame False e) =
      ((add_op_ok i e, map_opens True MDV_MAP_TRLOG e, b), s) \<and>
    env_dbs (f_env s) = (if add_op_ok i e
      then db_put MDV_MAP_TRLOG (le_bytes 8 i) (take (op_size op) op) (create_db MDV_MAP_TRLOG True (env_dbs e))
      else env_dbs e) \<and>
    balanced e (f_env s) \<and> (b \<longrightarrow> add_op_ok i e) \<and> (env_faults e = [] \<longrightarrow> b = add_op_ok i e)"
proof (cases "map_opens True MDV_MAP_TRLOG e")
  case True
  let ?d = "db_put MDV_MAP_TRLOG (le_bytes 8 i) (take (op_size op) op) (create_db MDV_MAP_TRLOG True (env_dbs e))"
  from assms have "1 \<le> ref_counter (e \<lparr> env_dbs := ?d \<rparr>)" by simp
  from close_notify [OF this, where mx = False and name = MDV_MAP_TRLOG and n = 5]
  obtain b s where "run_state mdv_trlog_changed_notify
      (snd (run_state close_map (opened_map False MDV_MAP_TRLOG (e \<lparr> env_dbs := ?d \<rparr>) None 5))) = (b, s)"
    "env_dbs (f_env s) = ?d" "balanced e (f_env s)" "env_faults e = [] \<longrightarrow> b"
    by auto
  note fin = this
  note step = trlog_add_op_frame_def run_with_map_ok [OF True] opened_map_calls split_beta
    leave_opened_map add_op_ok_def
  show ?thesis
  proof (cases "add_op_ok i e")
    case ok: True
    then show ?thesis
      using True assms fin by (intro exI [of _ b] exI [of _ s]) (simp add: step)
  next
    case fails: False
    show ?thesis
      using True assms fails
      by (intro exI [of _ False] exI [of _ "snd (run_state (trlog_add_op_frame i op) (start_frame False e))"]
          conjI prod_eqI) (auto simp: step)
  qed
next
  case False
  note fails = with_map_fails [OF False assms]
  show ?thesis
    unfolding trlog_add_op_frame_def
    using False
    by (intro exI [of _ False] exI [of _ "snd (run_state (with_map False MDV_MAP_TRLOG True True
        (False, False, False) (False, False, False) _) (start_frame False e))"] conjI prod_eqI)
      (simp_all add: fails add_op_ok_def)
qed

text \<open>
  C17. Append: whatever fails, a call that reports success has stored the
  operation under the id that was the top, which was free, and one that reports
  failure has left the stored log as it was. The id is used up exactly when the
  transaction and the map could be opened, so also when the append fails after
  that; otherwise the top stays. Without failures the call succeeds exactly when
  the id is free. The log stays ordered, with every operation of the size it
  states, and no reference or block is leaked when the rollbacker could be
  allocated.
\<close>

theorem trlog_add_op_outcome:
  assumes "1 \<le> ref_counter (tl_storage t)" "log_wf (env_dbs (tl_storage t))" "op_wf op"
  shows "let (ok, t') = mdv_trlog_add_op op t; d = env_dbs (tl_storage t); d' = env_dbs (tl_storage t') in
    (ok \<longrightarrow> log_map d (tl_top t) = None \<and> log_map d' = (log_map d)(tl_top t \<mapsto> op)) \<and>
    (\<not> ok \<longrightarrow> d' = d) \<and> log_wf d' \<and> (log_sized d \<longrightarrow> log_sized d') \<and>
    tl_top t' = (if map_opens True MDV_MAP_TRLOG (tl_storage t) then tl_top t + 1 else tl_top t) \<and>
    (ok \<longrightarrow> map_opens True MDV_MAP_TRLOG (tl_storage t)) \<and>
    (env_faults (tl_storage t) = [] \<longrightarrow> (ok \<longleftrightarrow> log_map d (tl_top t) = None)) \<and>
    tl_applied t' = tl_applied t \<and> balanced (tl_storage t) (tl_storage t')"
proof -
  let ?e = "tl_storage t"
  from add_op_frame_run [OF assms(1), of "tl_top t" op] obtain b s where
    run: "run_state (trlog_add_op_frame (tl_top t) op) (start_frame False ?e) =
        ((add_op_ok (tl_top t) ?e, map_opens True MDV_MAP_TRLOG ?e, b), s)"
      "env_dbs (f_env s) = (if add_op_ok (tl_top t) ?e
        then db_put MDV_MAP_TRLOG (le_bytes 8 (tl_top t)) (take (op_size op) op)
          (create_db MDV_MAP_TRLOG True (env_dbs ?e)) else env_dbs ?e)" "balanced ?e (f_env s)"
    by blast
  have fresh: "log_map (env_dbs ?e) (tl_top t) = None" "map_opens True MDV_MAP_TRLOG ?e"
    if "add_op_ok (tl_top t) ?e"
    using that assms(2) by (auto simp: add_op_ok_def log_map_db)
  have calm: "add_op_ok (tl_top t) ?e \<longleftrightarrow> log_map (env_dbs ?e) (tl_top t) = None" if "env_faults ?e = []"
    using that assms(2) by (auto simp: add_op_ok_def map_opens_def txn_opens_def log_map_db)
  show ?thesis
    using run fresh calm assms(2,3)
    by (auto simp: mdv_trlog_add_op_def mdv_trlog_new_id_def log_wf_put log_map_put log_sized_put op_wf_def)
qed


lemma trlog_add_op_outcome_witness:
  "let t = \<lparr> tl_storage = \<lparr> env_dbs = (\<lambda>_. None), ref_counter = 1, env_open = True, env_live = 1,
               env_faults = [True, True, True, True, False] \<rparr>, tl_top = 5, tl_applied = 0, tl_events = 0 \<rparr>;
       (ok, t') = mdv_trlog_add_op [4, 0, 0, 0] t
   in tl_top t' = 6 \<and> log_wf (env_dbs (tl_storage t')) \<and> (\<not> ok \<longrightarrow> env_dbs (tl_storage t') = env_dbs (tl_storage t))"
proof -
  let ?t = "\<lparr> tl_storage = \<lparr> env_dbs = (\<lambda>_. None), ref_counter = 1, env_open = True, env_live = 1,
               env_faults = [True, True, True, True, False] \<rparr>, tl_top = 5, tl_applied = 0, tl_events = 0 \<rparr>"
  have "1 \<le> ref_counter (tl_storage ?t)" "log_wf (env_dbs (tl_storage ?t))" "op_wf [4, 0, 0, 0]"
    by (simp_all add: log_wf_def op_wf_def op_size_def)
  from trlog_add_op_outcome [OF this] show ?thesis
    by (auto simp: Let_def map_opens_def txn_opens_def tape_ok_def split: prod.splits)
qed

text \<open>Operations of a peer: the first operation stored under an id stays.\<close>

definition log_add :: "trlog_data list \<Rightarrow> (u64 \<Rightarrow> bytes option) \<Rightarrow> u64 \<Rightarrow> bytes option" where
  "log_add ops m = fold (\<lambda>op m. if m (fst op) = None then m(fst op \<mapsto> snd op) else m) ops m"

lemma maximize_le: "t \<le> mdv_trlog_id_maximize i t" "i + 1 \<le> mdv_trlog_id_maximize i t"
  by (auto simp: mdv_trlog_id_maximize_def Let_def)

text \<open>What a run of the loop may do to the log, the top and the change mark.\<close>

definition log_extends :: "trlog_data list \<Rightarrow> dbs \<Rightarrow> u64 \<Rightarrow> dbs \<Rightarrow> u64 \<Rightarrow> bool" where
  "log_extends ops d t d' t' \<longleftrightarrow> has_db d' MDV_MAP_TRLOG \<and> log_wf d' \<and> log_map d \<subseteq>\<^sub>m log_map d' \<and> t \<le> t' \<and>
     (\<forall>i v. log_map d' i = Some v \<and> log_map d i = None \<longrightarrow> (i, v) \<in> set ops \<and> i + 1 \<le> t') \<and>
     (log_sized d \<longrightarrow> log_sized d')"

lemma log_extends_refl: "has_db d MDV_MAP_TRLOG \<Longrightarrow> log_wf d \<Longrightarrow> log_extends ops d t d t"
  by (auto simp: log_extends_def)

lemma log_extends_put:
  assumes "log_extends ops (db_put MDV_MAP_TRLOG (le_bytes 8 i) op d) (mdv_trlog_id_maximize i t) d' t'"
    and "has_db d MDV_MAP_TRLOG" "log_wf d" "op_wf op" "log_map d i = None"
  shows "log_extends ((i, op) # ops) d t d' t'"
proof -
  have m: "log_map (db_put MDV_MAP_TRLOG (le_bytes 8 i) op d) = (log_map d)(i \<mapsto> op)"
    using assms by (simp add: log_map_put)
  have le: "log_map d \<subseteq>\<^sub>m (log_map d)(i \<mapsto> op)" using assms(5) by (auto simp: map_le_def)
  have ext: "(log_map d)(i \<mapsto> op) \<subseteq>\<^sub>m log_map d'" "mdv_trlog_id_maximize i t \<le> t'"
    and new: "\<And>j v. log_map d' j = Some v \<Longrightarrow> j \<noteq> i \<Longrightarrow> log_map d j = None \<Longrightarrow> (j, v) \<in> set ops \<and> j + 1 \<le> t'"
    using assms(1) unfolding log_extends_def m by auto
  have i: "log_map d' i = Some op" using ext(1) by (auto simp: map_le_def dest: bspec [of _ _ i])
  have "(j, v) \<in> set ((i, op) # ops) \<and> j + 1 \<le> t'" if "log_map d' j = Some v" "log_map d j = None" for j v
    using that i new [of j v] maximize_le(2) [of i t] ext(2) by (cases "j = i") auto
  moreover have "t \<le> t'" using maximize_le(1) ext(2) by (rule order.trans)
  moreover have "log_map d \<subseteq>\<^sub>m log_map d'" using le ext(1) by (rule map_le_trans)
  moreover have "log_sized d \<longrightarrow> log_sized d'" using assms(1,4) log_sized_put unfolding log_extends_def by blast
  ultimately show ?thesis using assms(1) unfolding log_extends_def by blast
qed

lemma log_extends_skip: "log_extends ops d t d' t' \<Longrightarrow> log_extends (op # ops) d t d' t'"
  unfolding log_extends_def by auto

lemma add_loop_run:
  assumes "has_db d MDV_MAP_TRLOG" "log_wf d" "\<forall>op \<in> set ops. op_wf (snd op)"
  shows "\<exists>c' t' d' n'. run_state (trlog_add_loop ops c t) (opened_map mx MDV_MAP_TRLOG e (Some d) n) =
      ((c', t'), opened_map mx MDV_MAP_TRLOG e (Some d') n') \<and> log_extends ops d t d' t' \<and>
    (env_faults e = [] \<longrightarrow> log_map d' = log_add ops (log_map d))"
  using assms
proof (induction ops arbitrary: c t d n)
  case Nil
  then show ?case by (auto simp: log_extends_refl log_add_def)
next
  case (Cons op ops)
  let ?k = "le_bytes 8 (fst op)"
  have size: "take (op_size (snd op)) (snd op) = snd op"
    using Cons.prems by (simp add: op_wf_def)
  have absent: "log_map d (fst op) = None \<longleftrightarrow> db_map d MDV_MAP_TRLOG ?k = None"
    using Cons.prems by (simp add: log_map_db)
  show ?case
  proof (cases "tape_ok (drop n (env_faults e)) \<and> db_map d MDV_MAP_TRLOG ?k = None")
    case True
    let ?d = "db_put MDV_MAP_TRLOG ?k (snd op) d"
    have "has_db ?d MDV_MAP_TRLOG" "log_wf ?d" "\<forall>op \<in> set ops. op_wf (snd op)"
      using Cons.prems by (simp_all add: log_wf_put)
    from Cons.IH [OF this, of True "mdv_trlog_id_maximize (fst op) t" "Suc n"] obtain c' t' d' n' where
      run: "run_state (trlog_add_loop ops True (mdv_trlog_id_maximize (fst op) t))
          (opened_map mx MDV_MAP_TRLOG e (Some ?d) (Suc n)) = ((c', t'), opened_map mx MDV_MAP_TRLOG e (Some d') n')"
        "log_extends ops ?d (mdv_trlog_id_maximize (fst op) t) d' t'"
        "env_faults e = [] \<longrightarrow> log_map d' = log_add ops (log_map ?d)"
      by blast
    have "log_extends (op # ops) d t d' t'"
      using log_extends_put [of ops "fst op" "snd op" d t d' t'] run(2) Cons.prems True absent by simp
    with run True Cons.prems size absent show ?thesis
      by (auto simp: opened_map_calls log_map_put log_add_def)
  next
    case False
    then have step: "run_state (trlog_add_loop (op # ops) c t) (opened_map mx MDV_MAP_TRLOG e (Some d) n) =
        run_state (trlog_add_loop ops c t) (opened_map mx MDV_MAP_TRLOG e (Some d) (Suc n))"
      using Cons.prems by (auto simp: opened_map_calls)
    have "log_add (op # ops) (log_map d) = log_add ops (log_map d)" if "env_faults e = []"
      using that False absent by (auto simp: log_add_def)
    moreover obtain c' t' d' n' where
      "run_state (trlog_add_loop ops c t) (opened_map mx MDV_MAP_TRLOG e (Some d) (Suc n)) =
        ((c', t'), opened_map mx MDV_MAP_TRLOG e (Some d') n')" "log_extends ops d t d' t'"
      "env_faults e = [] \<longrightarrow> log_map d' = log_add ops (log_map d)"
      using Cons.IH [of d c t "Suc n"] Cons.prems by auto
    ultimately show ?thesis
      unfolding step by (intro exI [of _ c'] exI [of _ t'] exI [of _ d'] exI [of _ n'])
        (simp add: log_extends_skip)
  qed
qed


lemma log_extends_create:
  "log_extends ops (create_db MDV_MAP_TRLOG True d) t d' t' \<Longrightarrow> log_extends ops d t d' t'"
  by (simp add: log_extends_def)

lemma add_frame_run:
  assumes "1 \<le> ref_counter e" "log_wf (env_dbs e)" "\<forall>op \<in> set ops. op_wf (snd op)"
  shows "\<exists>ok t' b s. run_state (trlog_add_frame ops t) (start_frame False e) = ((ok, t', b), s) \<and>
    (ok \<longrightarrow> log_extends ops (env_dbs e) t (env_dbs (f_env s)) t') \<and>
    (\<not> ok \<longrightarrow> env_dbs (f_env s) = env_dbs e \<and> t \<le> t') \<and> balanced e (f_env s) \<and>
    (env_faults e = [] \<longrightarrow> ok \<and> log_map (env_dbs (f_env s)) = log_add ops (log_map (env_dbs e)))"
proof (cases "map_opens True MDV_MAP_TRLOG e")
  case True
  let ?d = "create_db MDV_MAP_TRLOG True (env_dbs e)"
  from add_loop_run [of ?d ops False t False e 3] assms obtain c t' d' n where
    loop: "run_state (trlog_add_loop ops False t) (opened_map False MDV_MAP_TRLOG e (Some ?d) 3) =
        ((c, t'), opened_map False MDV_MAP_TRLOG e (Some d') n)"
      "log_extends ops (env_dbs e) t d' t'"
      "env_faults e = [] \<longrightarrow> log_map d' = log_add ops (log_map (env_dbs e))"
    using log_extends_create by auto
  let ?s = "snd (run_state close_map (opened_map False MDV_MAP_TRLOG (e \<lparr> env_dbs := d' \<rparr>) None (Suc n)))"
  have rc: "1 \<le> ref_counter (e \<lparr> env_dbs := d' \<rparr>)" using assms by simp
  from close_notify [OF rc, where mx = False and name = MDV_MAP_TRLOG and n = "Suc n"]
  obtain b s where notified: "run_state mdv_trlog_changed_notify ?s = (b, s)"
    "env_dbs (f_env s) = d'" "balanced e (f_env s)" by auto
  note step = trlog_add_frame_def run_with_map_ok [OF True] opened_map_calls split_beta leave_opened_map loop(1)
  show ?thesis
  proof (cases "tape_ok (drop n (env_faults e))")
    case ok: True
    then show ?thesis
      using notified loop(2,3) assms(1) by - (rule exI [of _ True], cases c, auto simp: step)
  next
    case fails: False
    then show ?thesis
      using loop(2) assms(1) by (auto simp: step log_extends_def)
  qed
next
  case False
  note fails = with_map_fails [OF False assms(1)]
  have "env_faults e \<noteq> []" using False by (auto simp: map_opens_def txn_opens_def)
  then show ?thesis
    unfolding trlog_add_frame_def
    by (intro exI [of _ False] exI [of _ t] exI [of _ "snd (run_state (with_map False MDV_MAP_TRLOG True True
        (False, t, False) (False, t, False) _) (start_frame False e))"] conjI prod_eqI)
      (simp_all add: fails)
qed

text \<open>
  C18. Operations received from a peer: whatever fails, a call that reports
  success keeps every stored operation, adds only operations of the given list
  under their own ids, and leaves the top above every new id but the largest
  64-bit number, which nothing is above; a call that reports failure stores nothing. Without failures the log becomes the old one
  extended by the first operation of the list for every id it did not have.
\<close>

theorem trlog_add_outcome:
  assumes "1 \<le> ref_counter (tl_storage t)" "log_wf (env_dbs (tl_storage t))" "\<forall>op \<in> set ops. op_wf (snd op)"
  shows "let (ok, t') = mdv_trlog_add ops t; d = env_dbs (tl_storage t); d' = env_dbs (tl_storage t') in
    (ok \<longrightarrow> log_extends ops d (tl_top t) d' (tl_top t')) \<and> (\<not> ok \<longrightarrow> d' = d) \<and>
    balanced (tl_storage t) (tl_storage t') \<and>
    (env_faults (tl_storage t) = [] \<longrightarrow> ok \<and> log_map d' = log_add ops (log_map d))"
  using add_frame_run [OF assms, of "tl_top t"] by (auto simp: mdv_trlog_add_def)

lemma trlog_add_outcome_witness:
  "let t = \<lparr> tl_storage = \<lparr> env_dbs = (\<lambda>_. None), ref_counter = 1, env_open = True, env_live = 1, env_faults = [] \<rparr>,
             tl_top = 0, tl_applied = 0, tl_events = 0 \<rparr>;
       (ok, t') = mdv_trlog_add [(3, [4, 0, 0, 0]), (3, [5, 0, 0, 0, 9])] t
   in ok \<and> log_map (env_dbs (tl_storage t')) = [3 \<mapsto> [4, 0, 0, 0]]"
proof -
  let ?t = "\<lparr> tl_storage = \<lparr> env_dbs = (\<lambda>_. None), ref_counter = 1, env_open = True, env_live = 1, env_faults = [] \<rparr>,
              tl_top = 0, tl_applied = 0, tl_events = 0 \<rparr>"
  let ?ops = "[(3, [4, 0, 0, 0]), (3, [5, 0, 0, 0, 9])]"
  have "1 \<le> ref_counter (tl_storage ?t)" "log_wf (env_dbs (tl_storage ?t))" "\<forall>op \<in> set ?ops. op_wf (snd op)"
    by (simp_all add: log_wf_def op_wf_def op_size_def)
  from trlog_add_outcome [OF this] show ?thesis
    by (auto simp: log_add_def log_map_def log_list_def log_kv_def Let_def)
qed

end
