(* ===== verification/Mdv_Trlog_Apply.thy ===== *)
theory Mdv_Trlog_Apply
  imports Mdv_Trlog_Spec
begin

text \<open>
  Application of the transaction log and its restart: which operations a call
  hands to the callback, where the application position ends up in memory and
  in the storage, and that the positions read back after a restart continue the
  work without a gap or a repetition.
\<close>

section \<open>The application position\<close>

definition stored_applied :: "dbs \<Rightarrow> u64" where
  "stored_applied d = (case db_map d MDV_MAP_APPLIED applied_key of None \<Rightarrow> 0 | Some v \<Rightarrow> le_word v)"

definition put_applied :: "u64 \<Rightarrow> dbs \<Rightarrow> dbs" where
  "put_applied v d = db_put MDV_MAP_APPLIED applied_key (le_bytes 8 v) (create_db MDV_MAP_APPLIED True d)"

lemma log_kv_applied [simp]: "log_kv (put_applied v d) = log_kv d"
  by (simp add: put_applied_def log_kv_def db_put_def create_db_def split: option.splits)

lemma log_put_applied [simp]:
  "log_list (put_applied v d) = log_list d" "log_from a (put_applied v d) = log_from a d"
  "log_map (put_applied v d) = log_map d"
  by (simp_all add: log_list_def log_from_def log_map_def)

lemma log_wf_applied [simp]: "log_wf (put_applied v d) = log_wf d"
  by (simp add: log_wf_def put_applied_def db_put_def create_db_def split: option.splits)

lemma stored_put_applied [simp]: "stored_applied (put_applied v d) = v"
  by (simp add: stored_applied_def put_applied_def)

text \<open>Every outcome of saving the position: transaction 0, map 1, put 2, commit 3. There is no
  rollbacker, so nothing can leak.\<close>

lemma applied_frame_run:
  assumes "1 \<le> ref_counter e"
  shows "\<exists>s. run_state (applied_pos_frame v) (frame_init e) = ((), s) \<and>
    env_dbs (f_env s) = (if tape_ok (env_faults e) \<and> tape_ok (drop 1 (env_faults e)) \<and>
        tape_ok (drop 2 (env_faults e)) \<and> tape_ok (drop 3 (env_faults e))
      then put_applied v (env_dbs e) else env_dbs e) \<and>
    ref_counter (f_env s) = ref_counter e \<and> env_live (f_env s) = env_live e \<and>
    consumed (env_faults e) (env_faults (f_env s))"
proof -
  let ?ok = "\<lambda>n. tape_ok (drop n (env_faults e))"
  have outcomes: "\<not> ?ok 0 \<or> ?ok 0 \<and> \<not> ?ok 1 \<or> ?ok 0 \<and> ?ok 1 \<and> \<not> ?ok 2 \<or>
      ?ok 0 \<and> ?ok 1 \<and> ?ok 2 \<and> \<not> ?ok 3 \<or> ?ok 0 \<and> ?ok 1 \<and> ?ok 2 \<and> ?ok 3"
    by blast
  note eval = applied_pos_frame_def lmdb_eval put_applied_def db_put_def create_db_def numeral_eq_Suc
  show ?thesis
  proof (cases "env_dbs e MDV_MAP_APPLIED")
    case None
    with outcomes assms show ?thesis by (elim disjE) (simp_all add: eval)
  next
    case (Some b)
    with outcomes assms show ?thesis by (elim disjE) (simp_all add: eval)
  qed
qed

lemma applied_set_run:
  assumes "1 \<le> ref_counter (tl_storage t)"
  shows "tl_applied (mdv_trlog_applied_pos_set v t) = v" "tl_top (mdv_trlog_applied_pos_set v t) = tl_top t"
    "env_dbs (tl_storage (mdv_trlog_applied_pos_set v t)) \<in>
       {env_dbs (tl_storage t), put_applied v (env_dbs (tl_storage t))}"
    "env_faults (tl_storage t) = [] \<Longrightarrow>
       env_dbs (tl_storage (mdv_trlog_applied_pos_set v t)) = put_applied v (env_dbs (tl_storage t))"
    "ref_counter (tl_storage (mdv_trlog_applied_pos_set v t)) = ref_counter (tl_storage t)"
    "consumed (env_faults (tl_storage t)) (env_faults (tl_storage (mdv_trlog_applied_pos_set v t)))"
  using applied_frame_run [OF assms, of v] by (auto simp: mdv_trlog_applied_pos_set_def)


section \<open>Delivery\<close>

text \<open>The reference: hand the operations over one by one until one is refused.\<close>

fun deliver :: "(bytes \<Rightarrow> 'x \<Rightarrow> bool \<times> 'x) \<Rightarrow> trlog_data list \<Rightarrow> 'x \<Rightarrow> nat \<times> 'x" where
  "deliver fn [] x = (0, x)"
| "deliver fn (op # ops) x =
     (let (ok, x') = fn (snd op) x
      in if ok then (let (n, x'') = deliver fn ops x' in (Suc n, x'')) else (0, x'))"

lemma deliver_le: "fst (deliver fn ops x) \<le> length ops"
  by (induction ops arbitrary: x) (auto simp: split_beta Let_def)

lemma apply_loop_deliver:
  "apply_loop fn ops pos n x =
     (let (k, x') = deliver fn ops x
      in ((if k = 0 then pos else fst (ops ! (k - 1)) + 1, n + k), x'))"
proof (induction ops arbitrary: pos n x)
  case (Cons op ops)
  show ?case
    by (cases "fn (snd op) x") (auto simp: Cons.IH split_beta Let_def nth_Cons' gr0_conv_Suc)
qed simp


definition pending :: "mdv_trlog \<Rightarrow> trlog_data list" where
  "pending t = log_from (tl_applied t) (env_dbs (tl_storage t))"

text \<open>A log in use: every stored id is below the top.\<close>

definition trlog_wf :: "mdv_trlog \<Rightarrow> bool" where
  "trlog_wf t \<longleftrightarrow> 1 \<le> ref_counter (tl_storage t) \<and> log_wf (env_dbs (tl_storage t)) \<and>
     (\<forall>op \<in> set (log_list (env_dbs (tl_storage t))). fst op < tl_top t)"

lemma pending_sorted: "trlog_wf t \<Longrightarrow> sorted_wrt (<) (map fst (pending t))"
  using log_list_sorted [of "env_dbs (tl_storage t)"]
  by (auto simp: trlog_wf_def pending_def log_from_def sorted_wrt_map intro: sorted_wrt_filter)

lemma read_trlog:
  assumes "trlog_wf t"
  shows "\<exists>m e. mdv_trlog_read a k t = (take m (log_from a (env_dbs (tl_storage t))), t \<lparr> tl_storage := e \<rparr>) \<and>
    m \<le> max 1 k \<and> (env_faults (tl_storage t) = [] \<longrightarrow> m = max 1 k) \<and>
    env_dbs e = env_dbs (tl_storage t) \<and> 1 \<le> ref_counter e \<and>
    consumed (env_faults (tl_storage t)) (env_faults e)"
proof -
  let ?e = "tl_storage t" and ?full = "take (max 1 k) (log_from a (env_dbs (tl_storage t)))"
  obtain ops s where run: "run_state (trlog_read_frame a k) (start_frame False ?e) = (ops, s)"
    by fastforce
  from assms read_run [of ?e k a] obtain m where m: "ops = take m ?full" "m \<le> length ?full"
      "env_faults ?e = [] \<longrightarrow> m = length ?full" "env_dbs (f_env s) = env_dbs ?e"
      "balanced (?e \<lparr> env_live := env_live ?e + int m \<rparr>) (f_env s)"
    by (auto simp: trlog_wf_def reads_def run)
  show ?thesis
  proof (cases "env_faults ?e = []")
    case True
    then have "ops = ?full" using m(1,3) by (metis order_refl take_all)
    with True m assms show ?thesis
      by (intro exI [of _ "max 1 k"] exI [of _ "f_env s"])
        (auto simp: mdv_trlog_read_def run balanced_def trlog_wf_def)
  next
    case False
    with m assms show ?thesis
      by (intro exI [of _ m] exI [of _ "f_env s"])
        (auto simp: mdv_trlog_read_def run balanced_def trlog_wf_def)
  qed
qed

lemma pending_done:
  assumes "trlog_wf t" "tl_top t \<le> tl_applied t"
  shows "pending t = []"
  using assms unfolding trlog_wf_def pending_def log_from_def filter_empty_conv
  by (meson leD order.trans)

lemma free_ops_simps [simp]:
  "env_dbs (tl_storage (free_ops ops t)) = env_dbs (tl_storage t)"
  "ref_counter (tl_storage (free_ops ops t)) = ref_counter (tl_storage t)"
  "env_faults (tl_storage (free_ops ops t)) = env_faults (tl_storage t)"
  "tl_applied (free_ops ops t) = tl_applied t" "tl_top (free_ops ops t) = tl_top t"
  by (simp_all add: free_ops_def)

text \<open>The end of a call: the accepted count and the new position.\<close>

lemma apply_tail:
  assumes "trlog_wf t" "ops \<noteq> []" "deliver fn ops x = (n, x')"
    and t': "t' = (if n > 0 then mdv_trlog_applied_pos_set (fst (ops ! (n - 1)) + 1) (free_ops ops t) else free_ops ops t)"
  shows "tl_applied t' = (if n = 0 then tl_applied t else fst (ops ! (n - 1)) + 1)"
    "log_list (env_dbs (tl_storage t')) = log_list (env_dbs (tl_storage t))" "trlog_wf t'"
    "env_faults (tl_storage t) = [] \<Longrightarrow> env_faults (tl_storage t') = [] \<and>
       (0 < n \<or> stored_applied (env_dbs (tl_storage t)) = tl_applied t \<longrightarrow>
         stored_applied (env_dbs (tl_storage t')) = tl_applied t')"
proof -
  let ?v = "fst (ops ! (n - 1)) + 1"
  have rc: "1 \<le> ref_counter (tl_storage (free_ops ops t))" using assms(1) by (simp add: trlog_wf_def)
  note set = applied_set_run [OF rc, of ?v]
  show "tl_applied t' = (if n = 0 then tl_applied t else ?v)"
    using set(1) by (auto simp: t')
  show logs: "log_list (env_dbs (tl_storage t')) = log_list (env_dbs (tl_storage t))"
    using set(3) by (auto simp: t')
  have "log_wf (env_dbs (tl_storage t'))"
    using set(3) assms(1) by (auto simp: t' trlog_wf_def)
  then show "trlog_wf t'"
    using assms(1) logs set(2,5) by (auto simp: trlog_wf_def t')
  show "env_faults (tl_storage t') = [] \<and> (0 < n \<or> stored_applied (env_dbs (tl_storage t)) = tl_applied t \<longrightarrow>
         stored_applied (env_dbs (tl_storage t')) = tl_applied t')"
    if "env_faults (tl_storage t) = []"
    using that set(1,4,6) by (auto simp: t')
qed

lemma apply_run:
  assumes "trlog_wf t"
  shows "\<exists>m \<le> max 1 batch_size. let (n, t', x') = mdv_trlog_apply batch_size fn (t, x); ops = take m (pending t) in
    (n, x') = deliver fn ops x \<and>
    tl_applied t' = (if n = 0 then tl_applied t else fst (ops ! (n - 1)) + 1) \<and>
    log_list (env_dbs (tl_storage t')) = log_list (env_dbs (tl_storage t)) \<and> trlog_wf t' \<and>
    (env_faults (tl_storage t) = [] \<longrightarrow> m = max 1 batch_size \<and> env_faults (tl_storage t') = [] \<and>
       (0 < n \<or> stored_applied (env_dbs (tl_storage t)) = tl_applied t \<longrightarrow>
         stored_applied (env_dbs (tl_storage t')) = tl_applied t'))"
proof (cases "tl_top t \<le> tl_applied t")
  case True
  then show ?thesis
    using pending_done [OF assms True] assms
    by (intro exI [of _ "max 1 batch_size"]) (simp add: mdv_trlog_apply_def)
next
  case False
  from read_trlog [OF assms, of "tl_applied t" batch_size] obtain m e where
    read: "mdv_trlog_read (tl_applied t) batch_size t = (take m (pending t), t \<lparr> tl_storage := e \<rparr>)"
      "m \<le> max 1 batch_size" "env_faults (tl_storage t) = [] \<longrightarrow> m = max 1 batch_size"
      "env_dbs e = env_dbs (tl_storage t)" "1 \<le> ref_counter e" "consumed (env_faults (tl_storage t)) (env_faults e)"
    unfolding pending_def by blast
  let ?t = "t \<lparr> tl_storage := e \<rparr>" and ?ops = "take m (pending t)"
  have wf: "trlog_wf ?t" using assms read by (simp add: trlog_wf_def)
  show ?thesis
  proof (cases "?ops = []")
    case True
    then show ?thesis
      using read wf False by (intro exI [of _ m]) (auto simp: mdv_trlog_apply_def)
  next
    case ops: False
    obtain n x' where del: "deliver fn ?ops x = (n, x')" by fastforce
    note tail = apply_tail [OF wf ops del refl]
    have "mdv_trlog_apply batch_size fn (t, x) =
      (n, (if n > 0 then mdv_trlog_applied_pos_set (fst (?ops ! (n - 1)) + 1) (free_ops ?ops ?t)
           else free_ops ?ops ?t), x')"
      using False ops by (simp add: mdv_trlog_apply_def read(1) apply_loop_deliver del Let_def)
    then show ?thesis
      using read tail del by (intro exI [of _ m]) (auto simp: Let_def)
  qed
qed

text \<open>
  C2. Application: whatever fails, one call hands a beginning of the pending
  operations, in ascending order of their ids and at most a batch of them (one, if
  the batch size is zero), to the callback until one is refused; it returns the number accepted, the position
  moves just past the last accepted operation, and the stored log is untouched.
  Without failures the beginning is a full batch and the position is saved.
\<close>

theorem trlog_apply_delivers:
  assumes "trlog_wf t"
  shows "\<exists>m \<le> max 1 batch_size. let (n, t', x') = mdv_trlog_apply batch_size fn (t, x); ops = take m (pending t) in
    (n, x') = deliver fn ops x \<and>
    tl_applied t' = (if n = 0 then tl_applied t else fst (ops ! (n - 1)) + 1) \<and>
    log_list (env_dbs (tl_storage t')) = log_list (env_dbs (tl_storage t)) \<and> trlog_wf t' \<and>
    (env_faults (tl_storage t) = [] \<longrightarrow> m = max 1 batch_size \<and> env_faults (tl_storage t') = [] \<and>
       (0 < n \<or> stored_applied (env_dbs (tl_storage t)) = tl_applied t \<longrightarrow>
         stored_applied (env_dbs (tl_storage t')) = tl_applied t'))"
  by (rule apply_run [OF assms])

lemma trlog_apply_delivers_witness:
  "let t = \<lparr> tl_storage = \<lparr> env_dbs = [MDV_MAP_TRLOG \<mapsto> \<lparr> db_intkey = True,
                 db_kv = [(le_bytes 8 (2 :: u64), [4, 0, 0, 0])] \<rparr>],
               ref_counter = 1, env_open = True, env_live = 1, env_faults = [] \<rparr>,
             tl_top = 3, tl_applied = 0, tl_events = 0 \<rparr>;
       (n, t', x') = mdv_trlog_apply 10 (\<lambda>op x. (True, x @ [op])) (t, [])
   in n = 1 \<and> x' = [[4, 0, 0, 0]] \<and> tl_applied t' = 3"
proof -
  let ?t = "\<lparr> tl_storage = \<lparr> env_dbs = [MDV_MAP_TRLOG \<mapsto> \<lparr> db_intkey = True,
                 db_kv = [(le_bytes 8 (2 :: u64), [4, 0, 0, 0])] \<rparr>],
               ref_counter = 1, env_open = True, env_live = 1, env_faults = [] \<rparr>,
             tl_top = 3, tl_applied = 0, tl_events = 0 \<rparr>"
  have ll: "log_list (env_dbs (tl_storage ?t)) = [(2, [4, 0, 0, 0])]"
    by (simp add: log_list_def log_kv_def read_entry_def op_size_def)
  have "trlog_wf ?t"
    unfolding trlog_wf_def ll by (simp add: log_wf_def)
  from trlog_apply_delivers [OF this, of 10 "\<lambda>op x. (True, x @ [op])" "[]"]
  show ?thesis using ll by (auto simp: pending_def log_from_def Let_def)
qed


end
