(* ===== verification/Mdv_Trlog_Restart.thy ===== *)
theory Mdv_Trlog_Restart
  imports Mdv_Trlog_Apply
begin

text \<open>Restarting the transaction log of \<^verbatim>\<open>src/mdv_core/storage/mdv_trlog.c\<close>: what
  \<^verbatim>\<open>mdv_trlog_init\<close> reads back from the storage, and that applying, restarting and applying
  again delivers every logged operation once and in order.\<close>


section \<open>Restart\<close>

text \<open>The position after the last stored operation.\<close>

definition log_end :: "dbs \<Rightarrow> u64" where
  "log_end d = (if log_list d = [] then 0 else fst (last (log_list d)) + 1)"

lemma log_end_kv: "log_end d = (if log_kv d = [] then 0 else le_word (fst (last (log_kv d))) + 1)"
  by (simp add: log_end_def log_list_def last_map read_entry_def)

lemma init_frame_run:
  assumes "1 \<le> ref_counter e" "env_faults e = []"
  shows "\<exists>s. run_state trlog_init_frame (frame_init e) = ((log_end (env_dbs e), stored_applied (env_dbs e)), s) \<and>
    f_env s = e"
proof -
  note eval = trlog_init_frame_def lmdb_eval mdv_map_foreach_explicit_def mdv_cursor_open_explicit_def
    mdv_cursor_open_def mdv_cursor_get_def mdv_cursor_close_def null_cursor_def cursor_rest_def
    stored_applied_def db_map_def
  obtain ds rc op lv where e: "e = \<lparr> env_dbs = ds, ref_counter = rc, env_open = op, env_live = lv, env_faults = [] \<rparr>"
    using assms(2) by (cases e) simp
  have rc: "1 \<le> rc" using assms(1) by (simp add: e)
  have pos: "log_end ds = (case ds MDV_MAP_TRLOG of None \<Rightarrow> 0 | Some b \<Rightarrow>
      if db_kv b = [] then 0 else (case db_kv b ! (length (db_kv b) - Suc 0) of (k, v) \<Rightarrow> le_word k + 1))"
    by (simp add: log_end_kv log_kv_def last_conv_nth split_beta split: option.split)
  show ?thesis
  proof (cases "ds MDV_MAP_APPLIED")
    case None
    with rc show ?thesis
      unfolding e by (cases "ds MDV_MAP_TRLOG") (simp_all add: eval pos)
  next
    case (Some b)
    with rc show ?thesis
      unfolding e by (cases "ds MDV_MAP_TRLOG"; cases "map_of (db_kv b) applied_key")
        (simp_all add: eval pos)
  qed
qed


lemma init_run:
  assumes "1 \<le> ref_counter (tl_storage t)" "env_faults (tl_storage t) = []"
  shows "mdv_trlog_init t = t \<lparr> tl_top := log_end (env_dbs (tl_storage t)),
    tl_applied := stored_applied (env_dbs (tl_storage t)) \<rparr>"
  using init_frame_run [OF assms] by (auto simp: mdv_trlog_init_def)

lemma below_not_max: "a < (t :: u64) \<Longrightarrow> a \<noteq> - 1"
  using word_n1_ge [of t] by auto

lemma word_succ_le: "a < (t :: u64) \<Longrightarrow> a + 1 \<le> b \<longleftrightarrow> a < b"
  using below_not_max [of a t] by (simp add: inc_less_eq_iff)

lemma last_sorted: "sorted_wrt (<) (map fst xs) \<Longrightarrow> x \<in> set xs \<Longrightarrow> fst x \<le> (fst (last xs) :: u64)"
  by (induction xs) (auto intro: less_imp_le)

text \<open>In an ascending list the elements after position k are those above the one at k.\<close>

lemma sorted_after:
  assumes "sorted_wrt (<) (map fst xs)" "k < length xs"
  shows "filter (\<lambda>e. fst (xs ! k) < (fst e :: u64)) xs = drop (Suc k) xs"
  using assms
proof (induction xs arbitrary: k)
  case (Cons x xs)
  show ?case
  proof (cases k)
    case 0
    then show ?thesis using Cons.prems by (auto intro: filter_True)
  next
    case (Suc j)
    then have "fst x < fst (xs ! j)" using Cons.prems by auto
    then have "\<not> fst (xs ! j) < fst x" by simp
    with Suc show ?thesis using Cons.prems Cons.IH [of j] by simp
  qed
qed simp

lemma pending_after:
  assumes "trlog_wf t" "trlog_wf t'" "log_list (env_dbs (tl_storage t')) = log_list (env_dbs (tl_storage t))"
    and "0 < n" "n \<le> length (pending t)" "tl_applied t' = fst (pending t ! (n - 1)) + 1"
  shows "pending t' = drop n (pending t)"
proof -
  let ?p = "pending t ! (n - 1)"
  have "?p \<in> set (pending t)" using assms(4,5) by simp
  then have p: "tl_applied t \<le> fst ?p" "fst ?p < tl_top t"
    using assms(1) by (auto simp: pending_def log_from_def trlog_wf_def)
  have "pending t' = filter (\<lambda>e. fst ?p < fst e) (log_list (env_dbs (tl_storage t)))"
    using assms(3,6) word_succ_le [OF p(2)] by (simp add: pending_def log_from_def)
  also have "\<dots> = filter (\<lambda>e. fst ?p < fst e) (pending t)"
    using p(1) by (auto simp: pending_def log_from_def intro: filter_cong)
  also have "\<dots> = drop (Suc (n - 1)) (pending t)"
    using assms(4,5) by (intro sorted_after pending_sorted [OF assms(1)]) simp
  finally show ?thesis using assms(4) by simp
qed

lemma init_wf:
  assumes "trlog_wf t" "env_faults (tl_storage t) = []"
  shows "trlog_wf (mdv_trlog_init t)"
proof -
  let ?l = "log_list (env_dbs (tl_storage t))"
  have "fst op < fst (last ?l) + 1" if op: "op \<in> set ?l" for op
  proof -
    have "fst op \<le> fst (last ?l)"
      using op assms(1) by (intro last_sorted log_list_sorted) (auto simp: trlog_wf_def)
    moreover have "last ?l \<in> set ?l" using op by (intro last_in_set) auto
    then have "fst (last ?l) < tl_top t" using assms(1) by (auto simp: trlog_wf_def)
    then have "fst (last ?l) < fst (last ?l) + 1" using word_succ_le by blast
    ultimately show ?thesis by (rule le_less_trans)
  qed
  then show ?thesis
    using assms by (auto simp: init_run trlog_wf_def log_end_def)
qed

text \<open>After a saved position, a restart finds exactly the operations not yet accepted.\<close>

lemma restart_pending:
  assumes "trlog_wf t" "trlog_wf t'" "log_list (env_dbs (tl_storage t')) = log_list (env_dbs (tl_storage t))"
    and "n \<le> length (pending t)"
    and "tl_applied t' = (if n = 0 then tl_applied t else fst (pending t ! (n - 1)) + 1)"
    and "env_faults (tl_storage t') = []" "stored_applied (env_dbs (tl_storage t')) = tl_applied t'"
  shows "trlog_wf (mdv_trlog_init t')" "pending (mdv_trlog_init t') = drop n (pending t)"
    "env_faults (tl_storage (mdv_trlog_init t')) = []"
proof -
  have rc: "1 \<le> ref_counter (tl_storage t')" using assms(2) by (simp add: trlog_wf_def)
  show "trlog_wf (mdv_trlog_init t')" by (rule init_wf [OF assms(2,6)])
  show "env_faults (tl_storage (mdv_trlog_init t')) = []" using assms(6) rc by (simp add: init_run)
  have "pending (mdv_trlog_init t') = pending t'"
    using assms(6,7) rc by (simp add: init_run pending_def)
  also have "\<dots> = drop n (pending t)"
  proof (cases "n = 0")
    case True
    then show ?thesis using assms(3,5) by (simp add: pending_def log_from_def)
  next
    case False
    then show ?thesis using assms(1-5) by (intro pending_after) auto
  qed
  finally show "pending (mdv_trlog_init t') = drop n (pending t)" .
qed

text \<open>Saving the position succeeds or leaves the storage as it is.\<close>

lemma apply_stored:
  assumes "trlog_wf t" "mdv_trlog_apply b fn (t, x) = (n, t', x')"
  shows "stored_applied (env_dbs (tl_storage t')) = stored_applied (env_dbs (tl_storage t)) \<or>
    stored_applied (env_dbs (tl_storage t')) = tl_applied t'"
proof (cases "tl_applied t \<ge> tl_top t")
  case True
  with assms(2) show ?thesis by (simp add: mdv_trlog_apply_def)
next
  case False
  from read_trlog [OF assms(1), of "tl_applied t" b] obtain ops e where
    read: "mdv_trlog_read (tl_applied t) b t = (ops, t \<lparr> tl_storage := e \<rparr>)"
      "env_dbs e = env_dbs (tl_storage t)" "1 \<le> ref_counter e" by blast
  let ?t = "free_ops ops (t \<lparr> tl_storage := e \<rparr>)"
  have rc: "1 \<le> ref_counter (tl_storage ?t)" using read(3) by simp
  obtain v k y where loop: "apply_loop fn ops (tl_applied t) 0 x = ((v, k), y)" by (metis surj_pair)
  have "t' = t \<lparr> tl_storage := e \<rparr> \<or> t' = ?t \<or> t' = mdv_trlog_applied_pos_set v ?t"
    using assms(2) False by (auto simp: mdv_trlog_apply_def read(1) loop Let_def split: if_splits)
  then show ?thesis using applied_set_run(1,3) [OF rc, of v] read(2) by auto
qed

lemma no_faults [simp]:
  "trlog_wf (t \<lparr> tl_storage := (tl_storage t) \<lparr> env_faults := fs \<rparr> \<rparr>) = trlog_wf t"
  by (simp add: trlog_wf_def)

text \<open>
  C5. Restart: a log whose saved position is up to date applies a batch, whatever
  fails, and is then started again from its storage and applies another batch,
  this time without failures. If the position could be saved, the second call
  delivers the operations that follow the last accepted one: none is delivered
  twice and none is skipped. If saving it failed, which the code does not
  report, the second call begins with the first batch again: none is skipped, but
  the accepted ones are delivered a second time. Without failures the first batch
  is full and the position is saved.
\<close>

theorem trlog_restart_resumes:
  assumes "trlog_wf t" "stored_applied (env_dbs (tl_storage t)) = tl_applied t"
    and first: "mdv_trlog_apply b fn (t, x) = (n, t1, x1)"
    and again: "mdv_trlog_apply b' fn (mdv_trlog_init (t1 \<lparr> tl_storage := (tl_storage t1) \<lparr> env_faults := [] \<rparr> \<rparr>), x1) = (n', t2, x2)"
  shows "\<exists>m \<le> max 1 b. (n, x1) = deliver fn (take m (pending t)) x \<and>
    (n', x2) = deliver fn (take (max 1 b')
      (if stored_applied (env_dbs (tl_storage t1)) = tl_applied t1 then drop n (pending t) else pending t)) x1 \<and>
    (env_faults (tl_storage t) = [] \<longrightarrow> m = max 1 b \<and> stored_applied (env_dbs (tl_storage t1)) = tl_applied t1)"
proof -
  let ?t1 = "t1 \<lparr> tl_storage := (tl_storage t1) \<lparr> env_faults := [] \<rparr> \<rparr>"
  from apply_run [OF assms(1), of b fn x] obtain m where one: "m \<le> max 1 b" "(n, x1) = deliver fn (take m (pending t)) x"
    "tl_applied t1 = (if n = 0 then tl_applied t else fst (take m (pending t) ! (n - 1)) + 1)"
    "log_list (env_dbs (tl_storage t1)) = log_list (env_dbs (tl_storage t))" "trlog_wf t1"
    "env_faults (tl_storage t) = [] \<longrightarrow> m = max 1 b \<and> stored_applied (env_dbs (tl_storage t1)) = tl_applied t1"
    unfolding first Let_def prod.case using assms(2) by blast
  have n: "n \<le> length (take m (pending t))" using deliver_le [of fn "take m (pending t)" x] by (simp flip: one(2))
  have pos: "tl_applied t1 = (if n = 0 then tl_applied t else fst (pending t ! (n - 1)) + 1)"
    using one(3) n by (auto split: if_splits)
  let ?rest = "if stored_applied (env_dbs (tl_storage t1)) = tl_applied t1 then drop n (pending t) else pending t"
  have rc: "1 \<le> ref_counter (tl_storage ?t1)" using one(5) by (simp add: trlog_wf_def)
  have wf: "trlog_wf (mdv_trlog_init ?t1)" "env_faults (tl_storage (mdv_trlog_init ?t1)) = []"
    using init_wf [of ?t1] one(5) rc by (simp_all add: init_run)
  have "pending (mdv_trlog_init ?t1) = ?rest"
  proof (cases "stored_applied (env_dbs (tl_storage t1)) = tl_applied t1")
    case True
    then show ?thesis
      using restart_pending(2) [OF assms(1), of ?t1 n] one(4,5) pos n by simp
  next
    case False
    then have "stored_applied (env_dbs (tl_storage t1)) = tl_applied t"
      using apply_stored [OF assms(1) first] assms(2) by simp
    then show ?thesis using False rc one(4) by (simp add: init_run pending_def log_from_def)
  qed
  then have "(n', x2) = deliver fn (take (max 1 b') ?rest) x1"
    using apply_run [OF wf(1), of b' fn x1] wf(2) by (auto simp: again Let_def)
  with one(1,2,6) show ?thesis by blast
qed

lemma trlog_restart_resumes_witness:
  "let t = \<lparr> tl_storage = \<lparr> env_dbs = [MDV_MAP_TRLOG \<mapsto> \<lparr> db_intkey = True,
                 db_kv = [(le_bytes 8 (1 :: u64), [5, 0, 0, 0]), (le_bytes 8 (2 :: u64), [4, 0, 0, 0])] \<rparr>],
               ref_counter = 1, env_open = True, env_live = 1, env_faults = [] \<rparr>,
             tl_top = 3, tl_applied = 0, tl_events = 0 \<rparr>;
       fn = (\<lambda>op x. (True, x @ [op]));
       (n, t1, x1) = mdv_trlog_apply 1 fn (t, []);
       (n', t2, x2) = mdv_trlog_apply 5 fn (mdv_trlog_init (t1 \<lparr> tl_storage := (tl_storage t1) \<lparr> env_faults := [] \<rparr> \<rparr>), x1)
   in n = 1 \<and> x1 = [[5, 0, 0, 0]] \<and> n' = 1 \<and> x2 = [[5, 0, 0, 0], [4, 0, 0, 0]]"
proof -
  let ?t = "\<lparr> tl_storage = \<lparr> env_dbs = [MDV_MAP_TRLOG \<mapsto> \<lparr> db_intkey = True,
                 db_kv = [(le_bytes 8 (1 :: u64), [5, 0, 0, 0]), (le_bytes 8 (2 :: u64), [4, 0, 0, 0])] \<rparr>],
               ref_counter = 1, env_open = True, env_live = 1, env_faults = [] \<rparr>,
             tl_top = 3, tl_applied = 0, tl_events = 0 \<rparr>"
  let ?fn = "\<lambda>op x. (True, x @ [op])"
  have ll: "log_list (env_dbs (tl_storage ?t)) = [(1, [5, 0, 0, 0]), (2, [4, 0, 0, 0])]"
    by (simp add: log_list_def log_kv_def read_entry_def op_size_def)
  have wf: "trlog_wf ?t"
    unfolding trlog_wf_def ll by (simp add: log_wf_def key_less_def)
  have saved: "stored_applied (env_dbs (tl_storage ?t)) = tl_applied ?t"
    by (simp add: stored_applied_def db_map_def MDV_MAP_TRLOG_def MDV_MAP_APPLIED_def)
  have pend: "pending ?t = [(1, [5, 0, 0, 0]), (2, [4, 0, 0, 0])]"
    using ll by (simp add: pending_def log_from_def)
  obtain n t1 x1 where one: "mdv_trlog_apply 1 ?fn (?t, []) = (n, t1, x1)" by (cases "mdv_trlog_apply 1 ?fn (?t, [])")
  let ?r = "mdv_trlog_init (t1 \<lparr> tl_storage := (tl_storage t1) \<lparr> env_faults := [] \<rparr> \<rparr>)"
  obtain n' t2 x2 where two: "mdv_trlog_apply 5 ?fn (?r, x1) = (n', t2, x2)" by (cases "mdv_trlog_apply 5 ?fn (?r, x1)")
  from trlog_restart_resumes [OF wf saved one two] show ?thesis
    using one two by (auto simp: pend Let_def)
qed

end
