(* ===== verification/Mdv_Trlog_Drain.thy ===== *)
theory Mdv_Trlog_Drain
  imports Mdv_Trlog_Restart
begin

text \<open>
  The committer's loop over the transaction log, the body of
  mdv_tablespace_log_apply in mdv_core/storage/mdv_tablespace.c: batches are
  applied as long as each of them comes back full. A loop that never ends is None.
\<close>

partial_function (option) apply_batches ::
  "nat \<Rightarrow> (bytes \<Rightarrow> 'x \<Rightarrow> bool \<times> 'x) \<Rightarrow> mdv_trlog \<times> 'x \<Rightarrow> (mdv_trlog \<times> 'x) option" where
  "apply_batches batch_size fn tx =
     (let (n, tx) = mdv_trlog_apply batch_size fn tx in
      if n \<ge> batch_size then apply_batches batch_size fn tx else Some tx)"

lemma deliver_append:
  "deliver fn (xs @ ys) x =
     (let (n, x') = deliver fn xs x in
      if n < length xs then (n, x') else let (k, x'') = deliver fn ys x' in (n + k, x''))"
proof (induction xs arbitrary: x)
  case (Cons op xs)
  show ?case
    by (cases "fn (snd op) x"; cases "deliver fn xs (snd (fn (snd op) x))") (auto simp: Cons.IH split: prod.splits)
qed (simp split: prod.splits)

lemma apply_one:
  assumes "trlog_wf t" "mdv_trlog_apply batch_size fn (t, x) = (n, t', x')"
  shows "\<exists>m \<le> max 1 batch_size. (n, x') = deliver fn (take m (pending t)) x \<and> pending t' = drop n (pending t) \<and> trlog_wf t' \<and>
    (env_faults (tl_storage t) = [] \<longrightarrow> m = max 1 batch_size \<and> env_faults (tl_storage t') = [] \<and>
       (stored_applied (env_dbs (tl_storage t)) = tl_applied t \<longrightarrow> stored_applied (env_dbs (tl_storage t')) = tl_applied t'))"
proof -
  from apply_run [OF assms(1), of batch_size fn x] obtain m where m: "m \<le> max 1 batch_size"
    "(n, x') = deliver fn (take m (pending t)) x"
    "tl_applied t' = (if n = 0 then tl_applied t else fst (take m (pending t) ! (n - 1)) + 1)"
    "log_list (env_dbs (tl_storage t')) = log_list (env_dbs (tl_storage t))" "trlog_wf t'"
    "env_faults (tl_storage t) = [] \<longrightarrow> m = max 1 batch_size \<and> env_faults (tl_storage t') = [] \<and>
       (0 < n \<or> stored_applied (env_dbs (tl_storage t)) = tl_applied t \<longrightarrow>
         stored_applied (env_dbs (tl_storage t')) = tl_applied t')"
    unfolding assms(2) Let_def prod.case by blast
  have n: "n \<le> length (pending t)" "n \<le> m" using deliver_le [of fn "take m (pending t)" x] by (simp_all flip: m(2))
  have "pending t' = drop n (pending t)"
  proof (cases "n = 0")
    case True
    then show ?thesis using m(3,4) by (simp add: pending_def log_from_def)
  next
    case False
    then show ?thesis using m(3,4,5) n by (intro pending_after [OF assms(1)]) auto
  qed
  with m show ?thesis by blast
qed

lemma batches_run:
  assumes "trlog_wf t" "0 < batch_size"
  shows "\<exists>m n t' x'. apply_batches batch_size fn (t, x) = Some (t', x') \<and> (n, x') = deliver fn (take m (pending t)) x \<and>
    pending t' = drop n (pending t) \<and> trlog_wf t' \<and>
    (env_faults (tl_storage t) = [] \<longrightarrow> m = length (pending t) \<and> env_faults (tl_storage t') = [] \<and>
       (stored_applied (env_dbs (tl_storage t)) = tl_applied t \<longrightarrow> stored_applied (env_dbs (tl_storage t')) = tl_applied t'))"
  using assms(1)
proof (induction "length (pending t)" arbitrary: t x rule: less_induct)
  case less
  obtain n t1 x1 where run: "mdv_trlog_apply batch_size fn (t, x) = (n, t1, x1)" by (metis prod_cases3)
  note step = apply_batches.simps [of batch_size fn "(t, x)"]
  from apply_one [OF less.prems run] obtain m where m: "m \<le> max 1 batch_size" "(n, x1) = deliver fn (take m (pending t)) x"
    "pending t1 = drop n (pending t)" "trlog_wf t1"
    "env_faults (tl_storage t) = [] \<longrightarrow> m = max 1 batch_size \<and> env_faults (tl_storage t1) = [] \<and>
       (stored_applied (env_dbs (tl_storage t)) = tl_applied t \<longrightarrow> stored_applied (env_dbs (tl_storage t1)) = tl_applied t1)"
    by blast
  have n: "n \<le> length (take m (pending t))" using deliver_le [of fn "take m (pending t)" x] by (simp flip: m(2))
  show ?case
  proof (cases "n \<ge> batch_size")
    case True
    have len: "length (take m (pending t)) = n" "n \<le> length (pending t)" "0 < n" using n m(1) True assms(2) by auto
    then have "length (pending t1) < length (pending t)" using m(3) by simp
    from less.hyps [OF this m(4), of x1] obtain m1 n1 t' x' where
      rest: "apply_batches batch_size fn (t1, x1) = Some (t', x')" "(n1, x') = deliver fn (take m1 (pending t1)) x1"
        "pending t' = drop n1 (pending t1)" "trlog_wf t'"
        "env_faults (tl_storage t1) = [] \<longrightarrow> m1 = length (pending t1) \<and> env_faults (tl_storage t') = [] \<and>
          (stored_applied (env_dbs (tl_storage t1)) = tl_applied t1 \<longrightarrow> stored_applied (env_dbs (tl_storage t')) = tl_applied t')"
      by blast
    have head: "take m (pending t) = take n (pending t)" using len by (auto simp: min_def split: if_splits)
    have "take (n + m1) (pending t) = take n (pending t) @ take m1 (pending t1)" by (simp add: take_add m(3))
    moreover have "deliver fn (take n (pending t)) x = (n, x1)" "deliver fn (take m1 (pending t1)) x1 = (n1, x')"
      using m(2) rest(2) head by simp_all
    ultimately have "(n + n1, x') = deliver fn (take (n + m1) (pending t)) x"
      using len(2) by (simp add: deliver_append)
    moreover have "apply_batches batch_size fn (t, x) = Some (t', x')" using rest(1) True by (simp add: step run)
    moreover have "pending t' = drop (n + n1) (pending t)" using rest(3) m(3) by (simp add: add.commute)
    moreover have "env_faults (tl_storage t) = [] \<longrightarrow> n + m1 = length (pending t)" using m(3,5) rest(5) len by simp
    ultimately show ?thesis using m(5) rest(4,5) by (intro exI [of _ "n + m1"] exI [of _ "n + n1"] exI [of _ t'] exI [of _ x']) auto
  next
    case False
    have all: "take m (pending t) = take (length (pending t)) (pending t) \<or> n < length (take m (pending t))"
      if "m = max 1 batch_size" using that False by auto
    show ?thesis
    proof (cases "env_faults (tl_storage t) = []")
      case True
      have "(n, x1) = deliver fn (take (length (pending t)) (pending t)) x"
      proof (cases "n < length (take m (pending t))")
        case True
        then have "deliver fn (take m (pending t) @ drop m (pending t)) x = (n, x1)"
          unfolding deliver_append m(2) [symmetric] by simp
        then show ?thesis by simp
      next
        case False
        then show ?thesis using all m(2,5) True by auto
      qed
      with m(3-5) True False show ?thesis
        by (intro exI [of _ "length (pending t)"] exI [of _ n] exI [of _ t1] exI [of _ x1]) (simp add: step run)
    next
      case faults: False
      with m False show ?thesis by (auto simp: step run)
    qed
  qed
qed

lemma batches_zero: "apply_batches 0 fn tx = None"
proof -
  have "False" if "apply_batches 0 fn tx = Some y" for y
    using that
    by (rule apply_batches.raw_induct [where P = "\<lambda>b f t r. b = 0 \<longrightarrow> False", THEN mp, rotated 1])
      (auto split: prod.splits if_splits)
  then show ?thesis by (cases "apply_batches 0 fn tx") auto
qed

text \<open>
  C8. The log drains: with a batch size of at least one the loop ends, whatever
  fails and whatever the callback refuses. Without failures it has then handed
  over every pending operation in order up to the first one refused, so if none
  is refused nothing is left pending, and the saved position agrees. With a batch
  size of zero the loop never ends.
\<close>

theorem log_apply_drains:
  assumes "trlog_wf t"
  shows "(0 < batch_size \<longrightarrow> (\<exists>t' x'. apply_batches batch_size fn (t, x) = Some (t', x') \<and>
      (env_faults (tl_storage t) = [] \<longrightarrow>
         x' = snd (deliver fn (pending t) x) \<and> pending t' = drop (fst (deliver fn (pending t) x)) (pending t) \<and>
         ((\<forall>op y. fst (fn op y)) \<longrightarrow> pending t' = []) \<and>
         (stored_applied (env_dbs (tl_storage t)) = tl_applied t \<longrightarrow>
           stored_applied (env_dbs (tl_storage t')) = tl_applied t')))) \<and>
    apply_batches 0 fn (t, x) = None"
proof (intro conjI impI)
  assume "0 < batch_size"
  from batches_run [OF assms this, of fn x] obtain m n t' x' where
    run: "apply_batches batch_size fn (t, x) = Some (t', x')" "(n, x') = deliver fn (take m (pending t)) x"
      "pending t' = drop n (pending t)"
      "env_faults (tl_storage t) = [] \<longrightarrow> m = length (pending t) \<and>
         (stored_applied (env_dbs (tl_storage t)) = tl_applied t \<longrightarrow> stored_applied (env_dbs (tl_storage t')) = tl_applied t')"
    by blast
  have full: "fst (deliver fn ops y) = length ops" if "\<forall>op y. fst (fn op y)" for ops y
    using that by (induction ops arbitrary: y) (auto simp: split_beta Let_def)
  have "n = length (pending t)" if "env_faults (tl_storage t) = []" "\<forall>op y. fst (fn op y)"
    using full [OF that(2), of "pending t" x] run(2,4) that(1) by (metis fst_conv take_all order_refl)
  moreover have "deliver fn (pending t) x = (n, x')" if "env_faults (tl_storage t) = []" using run(2,4) that by simp
  ultimately show "\<exists>t' x'. apply_batches batch_size fn (t, x) = Some (t', x') \<and>
      (env_faults (tl_storage t) = [] \<longrightarrow>
         x' = snd (deliver fn (pending t) x) \<and> pending t' = drop (fst (deliver fn (pending t) x)) (pending t) \<and>
         ((\<forall>op y. fst (fn op y)) \<longrightarrow> pending t' = []) \<and>
         (stored_applied (env_dbs (tl_storage t)) = tl_applied t \<longrightarrow>
           stored_applied (env_dbs (tl_storage t')) = tl_applied t'))"
    using run(1,3,4) by (intro exI [of _ t'] exI [of _ x']) auto
qed (rule batches_zero)

lemma log_apply_drains_witness:
  "let t = \<lparr> tl_storage = \<lparr> env_dbs = [MDV_MAP_TRLOG \<mapsto> \<lparr> db_intkey = True,
                 db_kv = [(le_bytes 8 (1 :: u64), [5, 0, 0, 0]), (le_bytes 8 (2 :: u64), [4, 0, 0, 0])] \<rparr>],
               ref_counter = 1, env_open = True, env_live = 1, env_faults = [] \<rparr>,
             tl_top = 3, tl_applied = 0, tl_events = 0 \<rparr>;
       fn = (\<lambda>op x. (True, x @ [op]))
   in (\<exists>t'. apply_batches 1 fn (t, []) = Some (t', [[5, 0, 0, 0], [4, 0, 0, 0]]) \<and> pending t' = []) \<and>
     apply_batches 0 fn (t, []) = None"
proof -
  let ?t = "\<lparr> tl_storage = \<lparr> env_dbs = [MDV_MAP_TRLOG \<mapsto> \<lparr> db_intkey = True,
                 db_kv = [(le_bytes 8 (1 :: u64), [5, 0, 0, 0]), (le_bytes 8 (2 :: u64), [4, 0, 0, 0])] \<rparr>],
               ref_counter = 1, env_open = True, env_live = 1, env_faults = [] \<rparr>,
             tl_top = 3, tl_applied = 0, tl_events = 0 \<rparr>"
  have ll: "log_list (env_dbs (tl_storage ?t)) = [(1, [5, 0, 0, 0]), (2, [4, 0, 0, 0])]"
    by (simp add: log_list_def log_kv_def read_entry_def op_size_def)
  have wf: "trlog_wf ?t"
    unfolding trlog_wf_def ll by (simp add: log_wf_def key_less_def)
  have pend: "pending ?t = [(1, [5, 0, 0, 0]), (2, [4, 0, 0, 0])]"
    using ll by (simp add: pending_def log_from_def)
  show ?thesis
    using log_apply_drains [OF wf, of 1 "\<lambda>op x. (True, x @ [op])" "[]"]
      log_apply_drains [OF wf, of 0 "\<lambda>op x. (True, x @ [op])" "[]"] by (auto simp: pend)
qed

end
