(* ===== verification/Mdv_Tablespace.thy ===== *)
theory Mdv_Tablespace
  imports Mdv_Rowdata Mdv_Trlog_Drain
begin

text \<open>
  The tablespace (mdv_core/storage/mdv_tablespace.c, mdv_tables.c): requests are
  written to the transaction log of the node, and applying a log changes the
  storages of tables and rows. The maps of open logs and row storages are partial
  functions on identifiers, which the hash map refines. What opening a storage file
  yields is a parameter, as are the code of a failed lock and the conversions of
  floating-point numbers; the outcomes of the locks, insertions into the maps and
  allocations of the tablespace itself are a list of truth values. The listing of
  tables for the log is left out. None is an access outside the memory or an
  application that does not end.
\<close>

section \<open>Tables\<close>

record mdv_tables =
  tbs_objects :: mdv_2pset

definition on_tables :: "(mdv_lmdb, 'a) state \<Rightarrow> mdv_tables \<Rightarrow> 'a \<times> mdv_tables" where
  "on_tables call tables =
     (let (r, e) = run_state call (s_storage (tbs_objects tables))
      in (r, tables \<lparr> tbs_objects := tbs_objects tables \<lparr> s_storage := e \<rparr> \<rparr>))"

definition mdv_tables_add_raw :: "mdv_uuid \<Rightarrow> bytes \<Rightarrow> mdv_tables \<Rightarrow> mdv_errno \<times> mdv_tables" where
  "mdv_tables_add_raw uuid table = on_tables (mdv_2pset_add (uuid_u8 uuid) table)"

definition mdv_table_restore :: "float_ops \<Rightarrow> bool \<times> bool \<Rightarrow> bytes \<Rightarrow> mdv_table option option" where
  "mdv_table_restore fp oks bs = do {
     obj \<leftarrow> binn_load bs 0;
     case obj of None \<Rightarrow> Some None | Some obj \<Rightarrow> mdv_unbinn_table fp oks bs 0
   }"

definition mdv_tables_get ::
  "float_ops \<Rightarrow> bool \<times> bool \<Rightarrow> mdv_uuid \<Rightarrow> mdv_tables \<Rightarrow> (mdv_table option \<times> mdv_tables) option" where
  "mdv_tables_get fp oks uuid tables =
     (let (r, tables) = on_tables (mdv_2pset_get (\<lambda>bs. Some (mdv_table_restore fp oks bs)) (uuid_u8 uuid)) tables
      in case r of None \<Rightarrow> Some (None, tables) | Some table \<Rightarrow> map_option (\<lambda>t. (t, tables)) table)"


section \<open>The state\<close>

record ts_env =
  te_fp :: float_ops
  open_trlog :: "mdv_uuid \<Rightarrow> u32 \<Rightarrow> mdv_trlog option"
  open_rowdata :: "mdv_uuid \<Rightarrow> mdv_rowdata option"
  lock_error :: mdv_errno

text \<open>A log is kept with the local identifier it was opened with.\<close>

record mdv_tablespace =
  ts_tables :: mdv_tables
  ts_trlogs :: "mdv_uuid \<rightharpoonup> u32 \<times> mdv_trlog"
  ts_rowdata :: "mdv_uuid \<rightharpoonup> mdv_rowdata"
  ts_uuid :: mdv_uuid
  ts_storage_ids :: "mdv_uuid \<rightharpoonup> u32"
  ts_faults :: "bool list"

definition ts_sys :: "mdv_tablespace \<Rightarrow> bool \<times> mdv_tablespace" where
  "ts_sys ts = (let (ok, fs) = next_ok (ts_faults ts) in (ok, ts \<lparr> ts_faults := fs \<rparr>))"

definition set_trlog :: "mdv_uuid \<Rightarrow> (u32 \<times> mdv_trlog) option \<Rightarrow> mdv_tablespace \<Rightarrow> mdv_tablespace" where
  "set_trlog u r ts = ts \<lparr> ts_trlogs := (ts_trlogs ts)(u := r) \<rparr>"

definition set_rowdata :: "mdv_uuid \<Rightarrow> mdv_rowdata option \<Rightarrow> mdv_tablespace \<Rightarrow> mdv_tablespace" where
  "set_rowdata u r ts = ts \<lparr> ts_rowdata := (ts_rowdata ts)(u := r) \<rparr>"

definition retain_trlog :: "mdv_uuid \<Rightarrow> mdv_tablespace \<Rightarrow> mdv_tablespace" where
  "retain_trlog u ts = set_trlog u (map_option (\<lambda>(i, t). (i, mdv_trlog_retain t)) (ts_trlogs ts u)) ts"

definition release_trlog :: "mdv_uuid \<Rightarrow> mdv_tablespace \<Rightarrow> mdv_tablespace" where
  "release_trlog u ts =
     set_trlog u (Option.bind (ts_trlogs ts u) (\<lambda>(i, t). map_option (Pair i) (mdv_trlog_release t))) ts"

definition retain_rowdata :: "mdv_uuid \<Rightarrow> mdv_tablespace \<Rightarrow> mdv_tablespace" where
  "retain_rowdata u ts = set_rowdata u (map_option mdv_rowdata_retain (ts_rowdata ts u)) ts"

definition release_rowdata :: "mdv_uuid \<Rightarrow> mdv_tablespace \<Rightarrow> mdv_tablespace" where
  "release_rowdata u ts = set_rowdata u (Option.bind (ts_rowdata ts u) mdv_rowdata_release) ts"


section \<open>Finding and opening\<close>

text \<open>The functions answer whether there is an object, which is then in its map with one reference
  more.\<close>

definition mdv_tablespace_trlog :: "mdv_uuid \<Rightarrow> mdv_tablespace \<Rightarrow> bool \<times> mdv_tablespace" where
  "mdv_tablespace_trlog uuid ts =
     (let (locked, ts) = ts_sys ts in
      if \<not> locked \<or> ts_trlogs ts uuid = None then (False, ts) else (True, retain_trlog uuid ts))"

definition mdv_tablespace_trlog_create :: "ts_env \<Rightarrow> mdv_uuid \<Rightarrow> mdv_tablespace \<Rightarrow> bool \<times> mdv_tablespace" where
  "mdv_tablespace_trlog_create env uuid ts =
     (let (locked, ts) = ts_sys ts in
      if \<not> locked then (False, ts)
      else if ts_trlogs ts uuid \<noteq> None then (True, retain_trlog uuid ts)
      else
        case ts_storage_ids ts uuid of
          None \<Rightarrow> (False, ts)
        | Some i \<Rightarrow>
            (case open_trlog env uuid i of
               None \<Rightarrow> (False, ts)
             | Some t \<Rightarrow>
                 let (inserted, ts) = ts_sys ts in
                 if inserted then (True, retain_trlog uuid (set_trlog uuid (Some (i, t)) ts)) else (False, ts)))"

definition mdv_tablespace_rowdata_create :: "ts_env \<Rightarrow> mdv_uuid \<Rightarrow> mdv_tablespace \<Rightarrow> bool \<times> mdv_tablespace" where
  "mdv_tablespace_rowdata_create env table_id ts =
     (let (locked, ts) = ts_sys ts in
      if \<not> locked then (False, ts)
      else if ts_rowdata ts table_id \<noteq> None then (True, retain_rowdata table_id ts)
      else
        case open_rowdata env table_id of
          None \<Rightarrow> (False, ts)
        | Some rowdata \<Rightarrow>
            let (inserted, ts) = ts_sys ts in
            if inserted then (True, retain_rowdata table_id (set_rowdata table_id (Some rowdata) ts)) else (False, ts))"


section \<open>Writing to the log\<close>

definition MDV_OP_TABLE_CREATE :: nat where "MDV_OP_TABLE_CREATE = 0"
definition MDV_OP_ROW_INSERT :: nat where "MDV_OP_ROW_INSERT = 2"
definition MDV_OP_ROW_DELETE :: nat where "MDV_OP_ROW_DELETE = 3"

text \<open>The size counts the header of eight bytes.\<close>

definition trlog_op :: "nat \<Rightarrow> bytes \<Rightarrow> bytes" where
  "trlog_op type payload0 = le_bytes 4 (of_nat (8 + length payload0) :: u32) @ le_bytes 4 (of_nat type :: u32) @ payload0"

datatype ts_rollback = Ts_rollbacker_free | Ts_trlog_release mdv_uuid | Ts_rowdata_release mdv_uuid | Ts_free

fun exec_ts_rollback :: "ts_rollback \<Rightarrow> mdv_tablespace \<Rightarrow> mdv_tablespace" where
  "exec_ts_rollback (Ts_trlog_release u) ts = release_trlog u ts"
| "exec_ts_rollback (Ts_rowdata_release u) ts = release_rowdata u ts"
| "exec_ts_rollback Ts_rollbacker_free ts = ts"
| "exec_ts_rollback Ts_free ts = ts"

abbreviation (input) ts_push :: "ts_rollback mdv_rollbacker option \<Rightarrow> ts_rollback \<Rightarrow> ts_rollback mdv_rollbacker option" where
  "ts_push rbr op \<equiv> snd (mdv_rollbacker_push rbr op)"

abbreviation (input) ts_rollback_all :: "ts_rollback mdv_rollbacker option \<Rightarrow> mdv_tablespace \<Rightarrow> mdv_tablespace" where
  "ts_rollback_all \<equiv> mdv_rollback exec_ts_rollback"

text \<open>Allocating an operation and appending it to the log of the node. The block is freed by the
  rollback, which changes nothing of this state.\<close>

definition append_op :: "bytes \<Rightarrow> mdv_tablespace \<Rightarrow> mdv_errno \<times> mdv_tablespace" where
  "append_op op ts =
     (let (ok, ts) = ts_sys ts in
      if \<not> ok then (MDV_NO_MEM, ts)
      else
        case ts_trlogs ts (ts_uuid ts) of
          None \<Rightarrow> (MDV_FAILED, ts)
        | Some (i, t) \<Rightarrow>
            let (added, t) = mdv_trlog_add_op op t
            in (if added then MDV_OK else MDV_FAILED, set_trlog (ts_uuid ts) (Some (i, t)) ts))"

text \<open>The lengths of the rows are read for the log.\<close>

fun rows_looked_at :: "bytes \<Rightarrow> binn_value list \<Rightarrow> unit option" where
  "rows_looked_at m [] = Some ()"
| "rows_looked_at m (v # vs) = do {
     (case value_place m v of None \<Rightarrow> Some 0 | Some (vm, q) \<Rightarrow> mdv_binn_list_length vm q);
     rows_looked_at m vs
   }"

definition mdv_tablespace_log_rowset ::
  "ts_env \<Rightarrow> mdv_uuid \<Rightarrow> bytes \<Rightarrow> nat \<Rightarrow> mdv_tablespace \<Rightarrow> (mdv_errno \<times> mdv_tablespace) option" where
  "mdv_tablespace_log_rowset env table_id m p ts = do {
     rowset_len \<leftarrow> mdv_binn_list_length m p;
     if rowset_len = 0 then Some (MDV_FAILED, ts)
     else do {
       vs \<leftarrow> binn_list_foreach m p;
       rows_looked_at m vs;
       valid \<leftarrow> binn_is_valid m p;
       case valid of None \<Rightarrow> Some (MDV_FAILED, ts)
       | Some (type, count0, rowset_size) \<Rightarrow>
           let (ok, ts) = ts_sys ts;
               rbr = mdv_rollbacker_create ok Ts_rollbacker_free 3;
               (found, ts) = mdv_tablespace_trlog_create env (ts_uuid ts) ts in
           if \<not> found then Some (MDV_FAILED, ts_rollback_all rbr ts)
           else
             let rbr = ts_push rbr (Ts_trlog_release (ts_uuid ts));
                 (found, ts) = mdv_tablespace_rowdata_create env table_id ts in
             (case ts_rowdata ts table_id of
                Some rowdata \<Rightarrow>
                  if \<not> found then Some (MDV_FAILED, ts_rollback_all rbr ts)
                  else
                    let rbr = ts_push rbr (Ts_rowdata_release table_id);
                        (locked, ts) = ts_sys ts;
                        ((err, i), rowdata) = mdv_rowdata_reserve (if locked then MDV_OK else lock_error env) (of_nat rowset_len) rowdata;
                        ts = set_rowdata table_id (Some rowdata) ts in
                    (case i of
                       Some i \<Rightarrow> do {
                         rowset \<leftarrow> rds m p rowset_size;
                         let (err, ts) = append_op (trlog_op MDV_OP_ROW_INSERT (le_bytes 8 i @ uuid_u8 table_id @ rowset)) ts;
                         Some (err, ts_rollback_all (ts_push rbr Ts_free) ts)
                       }
                     | None \<Rightarrow> Some (err, ts_rollback_all rbr ts))
              | None \<Rightarrow> Some (MDV_FAILED, ts_rollback_all rbr ts))
     }
   }"

definition mdv_tablespace_log_delete ::
  "ts_env \<Rightarrow> mdv_uuid \<Rightarrow> mdv_objid \<Rightarrow> mdv_tablespace \<Rightarrow> mdv_errno \<times> mdv_tablespace" where
  "mdv_tablespace_log_delete env table_id row_id ts =
     (let (ok, ts) = ts_sys ts;
          rbr = mdv_rollbacker_create ok Ts_rollbacker_free 2;
          (found, ts) = mdv_tablespace_trlog_create env (ts_uuid ts) ts in
      if \<not> found then (MDV_FAILED, ts_rollback_all rbr ts)
      else
        let rbr = ts_push rbr (Ts_trlog_release (ts_uuid ts));
            (err, ts) = append_op (trlog_op MDV_OP_ROW_DELETE (uuid_u8 table_id @ objid_u8 row_id)) ts
        in (err, ts_rollback_all (ts_push rbr Ts_free) ts))"

text \<open>The new identifier is a parameter. The storage of the rows is opened and closed again.\<close>

definition mdv_tablespace_log_create_table ::
  "ts_env \<Rightarrow> mdv_uuid \<Rightarrow> mdv_table_desc \<Rightarrow> bool list \<Rightarrow> mdv_tablespace \<Rightarrow> (mdv_table option \<times> mdv_tablespace) option" where
  "mdv_tablespace_log_create_table env uuid desc oks ts =
     (let (ok, ts) = ts_sys ts;
          rbr = mdv_rollbacker_create ok Ts_rollbacker_free 4;
          (found, ts) = mdv_tablespace_trlog_create env (ts_uuid ts) ts in
      if \<not> found then Some (None, ts_rollback_all rbr ts)
      else
        let rbr = ts_push rbr (Ts_trlog_release (ts_uuid ts)); (ok, ts) = ts_sys ts in do {
          table \<leftarrow> mdv_table_create ok uuid desc;
          case table of None \<Rightarrow> Some (None, ts_rollback_all rbr ts)
          | Some table \<Rightarrow> do {
              let rbr = ts_push rbr Ts_free;
              (obj, oks) \<leftarrow> mdv_binn_table table oks;
              case obj of None \<Rightarrow> Some (None, ts_rollback_all rbr ts)
              | Some obj \<Rightarrow>
                  let rbr = ts_push rbr Ts_free;
                      (err, ts) = append_op (trlog_op MDV_OP_TABLE_CREATE (binn_serialised obj)) ts in
                  if err \<noteq> MDV_OK then Some (None, ts_rollback_all rbr ts)
                  else
                    let (r, tables) = mdv_tables_add_raw uuid (binn_serialised obj) (ts_tables ts)
                    in Some (Some table, ts_rollback_all (ts_push rbr Ts_free) (ts \<lparr> ts_tables := tables \<rparr>))
            }
        })"


section \<open>Applying the log\<close>

definition u8_objid :: "bytes \<Rightarrow> mdv_objid" where
  "u8_objid bs = \<lparr> oid_node = le_word (take 4 bs), oid_id = le_word (drop 4 bs) \<rparr>"

definition apply_table_create :: "ts_env \<Rightarrow> bytes \<Rightarrow> mdv_tablespace \<Rightarrow> (bool \<times> mdv_tablespace) option" where
  "apply_table_create env op ts = do {
     obj \<leftarrow> binn_load op 8;
     case obj of None \<Rightarrow> Some (False, ts)
     | Some obj \<Rightarrow> do {
         uuid \<leftarrow> mdv_unbinn_table_uuid (te_fp env) op 8;
         case uuid of None \<Rightarrow> Some (True, ts)
         | Some uuid \<Rightarrow> do {
             table \<leftarrow> rds op 8 (v_size obj);
             let (ok1, ts) = ts_sys ts;
             let (ok2, ts) = ts_sys ts;
             (existing, tables) \<leftarrow> mdv_tables_get (te_fp env) (ok1, ok2) uuid (ts_tables ts);
             if existing \<noteq> None then Some (True, ts \<lparr> ts_tables := tables \<rparr>)
             else let (r, tables) = mdv_tables_add_raw uuid table tables in Some (r = MDV_OK, ts \<lparr> ts_tables := tables \<rparr>)
           }
       }
   }"

definition apply_row_insert :: "ts_env \<Rightarrow> u32 \<Rightarrow> bytes \<Rightarrow> mdv_tablespace \<Rightarrow> (bool \<times> mdv_tablespace) option" where
  "apply_row_insert env node_id op ts = do {
     i \<leftarrow> rds op 8 8;
     table_id \<leftarrow> rds op 16 16;
     let table_id = u8_uuid table_id;
     rowset \<leftarrow> binn_load op 32;
     case rowset of None \<Rightarrow> Some (False, ts)
     | Some rowset \<Rightarrow> do {
         mdv_binn_list_length op 32;
         let (found, ts) = mdv_tablespace_rowdata_create env table_id ts;
         case ts_rowdata ts table_id of
           Some rowdata \<Rightarrow>
             if \<not> found then Some (True, ts)
             else do {
               (err, rowdata) \<leftarrow> mdv_rowdata_add_raw_rowset \<lparr> oid_node = node_id, oid_id = le_word i \<rparr> op 32 rowdata;
               Some (err = MDV_OK, release_rowdata table_id (set_rowdata table_id (Some rowdata) ts))
             }
         | None \<Rightarrow> Some (True, ts)
       }
   }"

definition apply_row_delete :: "ts_env \<Rightarrow> bytes \<Rightarrow> mdv_tablespace \<Rightarrow> (bool \<times> mdv_tablespace) option" where
  "apply_row_delete env op ts = do {
     table_id \<leftarrow> rds op 8 16;
     let table_id = u8_uuid table_id;
     row_id \<leftarrow> rds op 24 12;
     let (found, ts) = mdv_tablespace_rowdata_create env table_id ts;
     case ts_rowdata ts table_id of
       Some rowdata \<Rightarrow>
         if \<not> found then Some (False, ts)
         else
           let (delete_result, rowdata) = mdv_rowdata_delete (u8_objid row_id) rowdata
           in Some (delete_result \<in> {MDV_OK, MDV_NOT_FOUND}, release_rowdata table_id (set_rowdata table_id (Some rowdata) ts))
     | None \<Rightarrow> Some (False, ts)
   }"

definition mdv_tablespace_trlog_apply ::
  "ts_env \<Rightarrow> u32 \<Rightarrow> bytes \<Rightarrow> mdv_tablespace \<Rightarrow> (bool \<times> mdv_tablespace) option" where
  "mdv_tablespace_trlog_apply env node_id op ts = do {
     type \<leftarrow> rds op 4 4;
     let type = le_value type;
     if type = MDV_OP_TABLE_CREATE then apply_table_create env op ts
     else if type = MDV_OP_ROW_INSERT then apply_row_insert env node_id op ts
     else if type = MDV_OP_ROW_DELETE then apply_row_delete env op ts
     else Some (True, ts)
   }"

text \<open>The callback of the log works on the tablespace until an access goes wrong.\<close>

definition guarded :: "(bytes \<Rightarrow> 'x \<Rightarrow> (bool \<times> 'x) option) \<Rightarrow> bytes \<Rightarrow> 'x option \<Rightarrow> bool \<times> 'x option" where
  "guarded fn op x = (case Option.bind x (fn op) of None \<Rightarrow> (False, None) | Some (ok, x) \<Rightarrow> (ok, Some x))"

definition mdv_tablespace_log_apply ::
  "ts_env \<Rightarrow> nat \<Rightarrow> mdv_uuid \<Rightarrow> mdv_tablespace \<Rightarrow> (bool \<times> mdv_tablespace) option" where
  "mdv_tablespace_log_apply env batch_size storage ts =
     (let (found, ts) = mdv_tablespace_trlog storage ts in
      case ts_trlogs ts storage of
        Some (i, t) \<Rightarrow>
          if \<not> found then Some (True, ts)
          else do {
            (t, applied) \<leftarrow> apply_batches batch_size (guarded (mdv_tablespace_trlog_apply env i)) (t, Some ts);
            ts \<leftarrow> applied;
            Some (True, release_trlog storage (set_trlog storage (Some (i, t)) ts))
          }
      | None \<Rightarrow> Some (True, ts))"

end
