(* ===== verification/Mdv_Tablespace_Spec.thy ===== *)
theory Mdv_Tablespace_Spec
  imports Mdv_Tablespace
begin

text \<open>
  What the tablespace promises: an operation of the log changes the stored rows of
  its table as the two-phase set says and those of no other table, applying a log
  carries out every pending operation in order, and a row set that was accepted is
  stored, row by row under consecutive identifiers, once the log is applied.
\<close>

section \<open>The log\<close>

lemma apply_refs:
  assumes "trlog_wf t"
  shows "ref_counter (tl_storage t) \<le> ref_counter (tl_storage (fst (snd (mdv_trlog_apply b fn (t, x)))))"
proof -
  let ?e = "tl_storage t"
  obtain ops s where run: "run_state (trlog_read_frame (tl_applied t) b) (start_frame False ?e) = (ops, s)" by fastforce
  from assms read_run [of ?e b "tl_applied t"] have "ref_counter ?e \<le> ref_counter (f_env s)"
    by (auto simp: trlog_wf_def reads_def run balanced_def)
  moreover have "1 \<le> ref_counter ?e" using assms by (simp add: trlog_wf_def)
  ultimately show ?thesis
    by (auto simp: mdv_trlog_apply_def mdv_trlog_read_def run applied_set_run Let_def split: prod.splits)
qed

lemma batches_refs:
  assumes "apply_batches b fn (t, x) = Some (t', x')" "trlog_wf t"
  shows "ref_counter (tl_storage t) \<le> ref_counter (tl_storage t')"
proof -
  have "trlog_wf (fst tx) \<longrightarrow> ref_counter (tl_storage (fst tx)) \<le> ref_counter (tl_storage (fst r))"
    if "apply_batches b fn tx = Some r" for tx r
    using that
  proof (rule apply_batches.raw_induct [where P = "\<lambda>b fn tx r. trlog_wf (fst tx) \<longrightarrow>
      ref_counter (tl_storage (fst tx)) \<le> ref_counter (tl_storage (fst r))", rotated 1])
    fix rec :: "nat \<Rightarrow> (bytes \<Rightarrow> 'a \<Rightarrow> bool \<times> 'a) \<Rightarrow> mdv_trlog \<times> 'a \<Rightarrow> (mdv_trlog \<times> 'a) option" and b fn tx r
    assume ih: "\<And>b fn tx r. rec b fn tx = Some r \<Longrightarrow> trlog_wf (fst tx) \<longrightarrow>
        ref_counter (tl_storage (fst tx)) \<le> ref_counter (tl_storage (fst r))"
      and step: "(let (n, tx) = mdv_trlog_apply b fn tx in if n \<ge> b then rec b fn tx else Some tx) = Some r"
    obtain t x where tx: "tx = (t, x)" by (cases tx)
    obtain n t1 x1 where run: "mdv_trlog_apply b fn (t, x) = (n, t1, x1)" by (metis prod_cases3)
    show "trlog_wf (fst tx) \<longrightarrow> ref_counter (tl_storage (fst tx)) \<le> ref_counter (tl_storage (fst r))"
    proof
      assume "trlog_wf (fst tx)"
      then have wf: "trlog_wf t" by (simp add: tx)
      have "trlog_wf t1" using apply_one [OF wf run] by blast
      moreover have "ref_counter (tl_storage t) \<le> ref_counter (tl_storage t1)" using apply_refs [OF wf, of b fn x] by (simp add: run)
      ultimately show "ref_counter (tl_storage (fst tx)) \<le> ref_counter (tl_storage (fst r))"
        using step ih [of b fn "(t1, x1)" r] by (auto simp: tx run split: if_splits)
    qed
  qed
  from this [OF assms(1)] assms(2) show ?thesis by simp
qed

text \<open>Appending to a log on which nothing fails.\<close>

definition trlog_ready :: "int \<Rightarrow> mdv_trlog \<Rightarrow> bool" where
  "trlog_ready k t \<longleftrightarrow> trlog_wf t \<and> env_faults (tl_storage t) = [] \<and> k \<le> ref_counter (tl_storage t) \<and>
     tl_applied t \<le> tl_top t"

lemma sorted_keys_unique:
  assumes "sorted_wrt (<) (map fst xs)" "sorted_wrt (<) (map fst ys)" "map_of xs = map_of (ys :: ('k :: linorder \<times> 'v) list)"
  shows "xs = ys"
proof -
  have d: "distinct (map fst xs)" "distinct (map fst ys)" using assms(1,2) by (simp_all add: strict_sorted_iff)
  then have "set xs = set ys" using assms(3) by (metis map_of_inject_set)
  moreover have "sorted (map fst xs)" "sorted (map fst ys)" using assms(1,2) by (simp_all add: strict_sorted_iff)
  ultimately show ?thesis
    using d by (intro map_sorted_distinct_set_unique [where f = fst and xs = xs and ys = ys])
      (auto simp: distinct_map)
qed

lemma trlog_append:
  assumes "trlog_ready k t" "op_wf op" "tl_top t \<noteq> - 1"
  shows "\<exists>t'. mdv_trlog_add_op op t = (True, t') \<and> trlog_ready k t' \<and> pending t' = pending t @ [(tl_top t, op)]"
proof -
  let ?e = "tl_storage t" and ?i = "tl_top t"
  have wf: "1 \<le> ref_counter ?e" "log_wf (env_dbs ?e)" "\<forall>op \<in> set (log_list (env_dbs ?e)). fst op < ?i" "env_faults ?e = []"
    "k \<le> ref_counter ?e" "tl_applied t \<le> ?i"
    using assms(1) by (auto simp: trlog_ready_def trlog_wf_def)
  let ?d = "create_db MDV_MAP_TRLOG True (env_dbs ?e)"
  have none: "log_map (env_dbs ?e) ?i = None" using wf(3) by (force simp: log_map_def map_of_eq_None_iff)
  then have ok: "add_op_ok ?i ?e"
    using wf(2,4) by (simp add: add_op_ok_def log_map_db map_opens_def txn_opens_def)
  from add_op_frame_run [OF wf(1), of ?i op] ok obtain b s where
    run: "run_state (trlog_add_op_frame ?i op) (start_frame False ?e) = ((True, map_opens True MDV_MAP_TRLOG ?e, b), s)"
      "env_dbs (f_env s) = db_put MDV_MAP_TRLOG (le_bytes 8 ?i) op ?d" "balanced ?e (f_env s)"
    using assms(2) by (auto simp: op_wf_def)
  let ?d' = "env_dbs (f_env s)"
  have logs: "log_wf ?d'" "log_map ?d' = (log_map (env_dbs ?e))(?i \<mapsto> op)"
    using wf(2) log_map_put [of ?d op ?i] assms(2) by (simp_all add: run(2) log_wf_put)
  have list0: "log_list ?d' = log_list (env_dbs ?e) @ [(?i, op)]"
  proof (rule sorted_keys_unique)
    show "sorted_wrt (<) (map fst (log_list ?d'))" by (rule log_list_sorted [OF logs(1)])
    show "sorted_wrt (<) (map fst (log_list (env_dbs ?e) @ [(?i, op)]))"
      using log_list_sorted [OF wf(2)] wf(3) by (simp add: sorted_wrt_append)
    show "map_of (log_list ?d') = map_of (log_list (env_dbs ?e) @ [(?i, op)])"
      using logs(2) none by (auto simp: log_map_def map_add_def fun_eq_iff split: option.splits)
  qed
  have "?i + 1 \<le> y \<longleftrightarrow> ?i < y" for y using assms(3) by (simp add: inc_less_eq_iff)
  then have less: "y < ?i + 1 \<longleftrightarrow> y \<le> ?i" for y by (metis not_le)
  obtain n where add: "mdv_trlog_add_op op t = (True, t \<lparr> tl_top := ?i + 1, tl_storage := f_env s, tl_events := n \<rparr>)"
    using ok by (simp add: mdv_trlog_add_op_def mdv_trlog_new_id_def run(1) add_op_ok_def)
  let ?t = "t \<lparr> tl_top := ?i + 1, tl_storage := f_env s, tl_events := n \<rparr>"
  have "trlog_ready k ?t"
    using logs(1) list0 wf run(3) less by (auto simp: trlog_ready_def trlog_wf_def balanced_def order_le_less)
  moreover have "pending ?t = pending t @ [(?i, op)]"
    using list0 wf(6) by (simp add: pending_def log_from_def)
  ultimately show ?thesis using add by blast
qed


section \<open>Row storages\<close>

text \<open>The stored rows of a table, whether its storage is open or still to be opened.\<close>

definition data_abs :: "ts_env \<Rightarrow> mdv_tablespace \<Rightarrow> mdv_uuid \<Rightarrow> tp_set" where
  "data_abs env ts u =
     (case ts_rowdata ts u of
        Some rowdata \<Rightarrow> rd_abs rowdata
      | None \<Rightarrow> (case open_rowdata env u of Some rowdata \<Rightarrow> rd_abs rowdata | None \<Rightarrow> (Map.empty, {})))"

text \<open>The identifier that the next row of a table gets.\<close>

definition next_id :: "ts_env \<Rightarrow> mdv_tablespace \<Rightarrow> mdv_uuid \<Rightarrow> u64" where
  "next_id env ts u =
     (case ts_rowdata ts u of
        Some rowdata \<Rightarrow> s_idgen (rd_objects rowdata)
      | None \<Rightarrow> (case open_rowdata env u of Some rowdata \<Rightarrow> s_idgen (rd_objects rowdata) | None \<Rightarrow> 0))"

text \<open>Nothing fails, and the only reference to an open storage is that of the map.\<close>

definition env_ok :: "ts_env \<Rightarrow> bool" where
  "env_ok env \<longleftrightarrow> (\<forall>u. \<exists>rowdata. open_rowdata env u = Some rowdata \<and> rd_healthy 1 rowdata)"

definition ts_ok :: "mdv_tablespace \<Rightarrow> bool" where
  "ts_ok ts \<longleftrightarrow> ts_faults ts = [] \<and> (\<forall>u rowdata. ts_rowdata ts u = Some rowdata \<longrightarrow> rd_healthy 1 rowdata)"

lemma ts_sys_ok: "ts_faults ts = [] \<Longrightarrow> ts_sys ts = (True, ts)"
  by (simp add: ts_sys_def)

lemma rowdata_refs:
  "rd_healthy k rowdata \<Longrightarrow> rd_healthy (k + 1) (mdv_rowdata_retain rowdata)"
  "rd_abs (mdv_rowdata_retain rowdata) = rd_abs rowdata"
  "s_idgen (rd_objects (mdv_rowdata_retain rowdata)) = s_idgen (rd_objects rowdata)"
  "rd_healthy (k + 1) rowdata \<Longrightarrow> 1 \<le> k \<Longrightarrow>
     \<exists>rowdata'. mdv_rowdata_release rowdata = Some rowdata' \<and> rd_healthy k rowdata' \<and> rd_abs rowdata' = rd_abs rowdata \<and>
       s_idgen (rd_objects rowdata') = s_idgen (rd_objects rowdata)"
  by (auto simp: rd_healthy_def healthy_def mdv_rowdata_retain_def mdv_2pset_retain_def mdv_storage_retain_def rd_abs_def
      mdv_rowdata_release_def mdv_2pset_release_def mdv_storage_release_def Let_def)

lemma rowdata_create_run:
  assumes "env_ok env" "ts_ok ts"
  shows "\<exists>rowdata. mdv_tablespace_rowdata_create env u ts = (True, set_rowdata u (Some rowdata) ts) \<and>
    rd_healthy 2 rowdata \<and> rd_abs rowdata = data_abs env ts u \<and> s_idgen (rd_objects rowdata) = next_id env ts u"
proof -
  have faults: "ts_faults ts = []" using assms(2) by (simp add: ts_ok_def)
  show ?thesis
  proof (cases "ts_rowdata ts u")
    case None
    from assms(1) obtain rowdata where "open_rowdata env u = Some rowdata" "rd_healthy 1 rowdata" by (auto simp: env_ok_def)
    with None faults rowdata_refs(1) [of 1 rowdata] rowdata_refs(2,3) [of rowdata] show ?thesis
      by (intro exI [of _ "mdv_rowdata_retain rowdata"])
        (simp add: mdv_tablespace_rowdata_create_def ts_sys_ok data_abs_def next_id_def retain_rowdata_def set_rowdata_def)
  next
    case (Some rowdata)
    then have "rd_healthy 1 rowdata" using assms(2) by (auto simp: ts_ok_def)
    with Some faults rowdata_refs(1) [of 1 rowdata] rowdata_refs(2,3) [of rowdata] show ?thesis
      by (intro exI [of _ "mdv_rowdata_retain rowdata"])
        (simp add: mdv_tablespace_rowdata_create_def ts_sys_ok data_abs_def next_id_def retain_rowdata_def)
  qed
qed

lemma rowdata_close_run:
  assumes "ts_ok ts" "rd_healthy 2 rowdata"
  shows "\<exists>rowdata'. release_rowdata u (set_rowdata u (Some rowdata) ts) = set_rowdata u (Some rowdata') ts \<and>
    ts_ok (set_rowdata u (Some rowdata') ts) \<and>
    data_abs env (set_rowdata u (Some rowdata') ts) = (data_abs env ts)(u := rd_abs rowdata) \<and>
    next_id env (set_rowdata u (Some rowdata') ts) u = s_idgen (rd_objects rowdata)"
proof -
  from rowdata_refs(4) [of 1 rowdata] assms(2) obtain rowdata' where
    "mdv_rowdata_release rowdata = Some rowdata'" "rd_healthy 1 rowdata'" "rd_abs rowdata' = rd_abs rowdata"
    "s_idgen (rd_objects rowdata') = s_idgen (rd_objects rowdata)" by auto
  with assms(1) show ?thesis
    by (intro exI [of _ rowdata']) (auto simp: release_rowdata_def set_rowdata_def ts_ok_def data_abs_def next_id_def fun_eq_iff)
qed


section \<open>Operations on rows\<close>

datatype row_op = Row_insert mdv_uuid u64 "bytes list" | Row_delete mdv_uuid mdv_objid

primrec row_step :: "u32 \<Rightarrow> row_op \<Rightarrow> (mdv_uuid \<Rightarrow> tp_set) \<Rightarrow> mdv_uuid \<Rightarrow> tp_set" where
  "row_step node (Row_insert u i bss) d = d(u := fold tp_step (row_adds node i bss) (d u))"
| "row_step node (Row_delete u oid) d = d(u := tp_delete (objid_u8 oid) (d u))"

text \<open>The operation that the bytes of the log stand for.\<close>

fun op_means :: "bytes \<Rightarrow> row_op \<Rightarrow> bool" where
  "op_means op (Row_insert u i bss) \<longleftrightarrow> rds op 4 4 = Some (le_bytes 4 (of_nat MDV_OP_ROW_INSERT :: u32)) \<and>
     rds op 8 8 = Some (le_bytes 8 i) \<and> rds op 16 16 = Some (uuid_u8 u) \<and> rowset_at op 32 bss \<and>
     (\<exists>v. binn_load op 32 = Some (Some v))"
| "op_means op (Row_delete u oid) \<longleftrightarrow> rds op 4 4 = Some (le_bytes 4 (of_nat MDV_OP_ROW_DELETE :: u32)) \<and>
     rds op 8 16 = Some (uuid_u8 u) \<and> rds op 24 12 = Some (objid_u8 oid)"

lemma u8_objid_inverse [simp]: "u8_objid (objid_u8 oid) = oid"
  by (cases oid) (simp add: u8_objid_def objid_u8_def)

lemma apply_op_run:
  assumes "env_ok env" "ts_ok ts" "op_means op rop"
  shows "\<exists>rowdata u. mdv_tablespace_trlog_apply env node op ts = Some (True, set_rowdata u (Some rowdata) ts) \<and>
    ts_ok (set_rowdata u (Some rowdata) ts) \<and> data_abs env (set_rowdata u (Some rowdata) ts) = row_step node rop (data_abs env ts)"
proof (cases rop)
  case (Row_insert u i bss)
  note op = assms(3) [unfolded Row_insert op_means.simps]
  from rowdata_create_run [OF assms(1,2), of u] obtain rd0 where
    rd0: "mdv_tablespace_rowdata_create env u ts = (True, set_rowdata u (Some rd0) ts)" "rd_healthy 2 rd0" "rd_abs rd0 = data_abs env ts u"
    by blast
  from op have at: "rowset_at op 32 bss" by blast
  from add_raw_rowset_run [OF at rd0(2), of node i] obtain rd1 where
    rd1: "mdv_rowdata_add_raw_rowset \<lparr> oid_node = node, oid_id = i \<rparr> op 32 rd0 = Some (MDV_OK, rd1)" "rd_healthy 2 rd1"
      "rd_abs rd1 = fold tp_step (row_adds node i bss) (rd_abs rd0)" by blast
  from rowdata_close_run [OF assms(2) rd1(2), of u env] obtain rd2 where
    rd2: "release_rowdata u (set_rowdata u (Some rd1) ts) = set_rowdata u (Some rd2) ts" "ts_ok (set_rowdata u (Some rd2) ts)"
      "data_abs env (set_rowdata u (Some rd2) ts) = (data_abs env ts)(u := rd_abs rd1)" by blast
  have twice: "set_rowdata u (Some rd1) (set_rowdata u (Some rd0) ts) = set_rowdata u (Some rd1) ts" by (simp add: set_rowdata_def)
  have stored: "ts_rowdata (set_rowdata u (Some rd0) ts) u = Some rd0" by (simp add: set_rowdata_def)
  obtain n where "mdv_binn_list_length op 32 = Some n" using at by (auto simp: rowset_at_def mdv_binn_list_length_def)
  with op rd0(1) rd1(1) rd2(1) have "mdv_tablespace_trlog_apply env node op ts = Some (True, set_rowdata u (Some rd2) ts)"
    by (auto simp: mdv_tablespace_trlog_apply_def apply_row_insert_def MDV_OP_ROW_INSERT_def MDV_OP_TABLE_CREATE_def uuid_u8_inverse
        twice stored)
  with rd2 rd1(3) rd0(3) show ?thesis by (auto simp: Row_insert)
next
  case (Row_delete u oid)
  note op = assms(3) [unfolded Row_delete op_means.simps]
  from rowdata_create_run [OF assms(1,2), of u] obtain rd0 where
    rd0: "mdv_tablespace_rowdata_create env u ts = (True, set_rowdata u (Some rd0) ts)" "rd_healthy 2 rd0" "rd_abs rd0 = data_abs env ts u"
    by blast
  from objects_exec(2) [OF rd0(2), of oid] obtain r rd1 where
    rd1: "mdv_rowdata_delete oid rd0 = (r, rd1)" "r \<in> {MDV_OK, MDV_NOT_FOUND}" "rd_healthy 2 rd1"
      "rd_abs rd1 = tp_delete (objid_u8 oid) (rd_abs rd0)" by blast
  from rowdata_close_run [OF assms(2) rd1(3), of u env] obtain rd2 where
    rd2: "release_rowdata u (set_rowdata u (Some rd1) ts) = set_rowdata u (Some rd2) ts" "ts_ok (set_rowdata u (Some rd2) ts)"
      "data_abs env (set_rowdata u (Some rd2) ts) = (data_abs env ts)(u := rd_abs rd1)" by blast
  have twice: "set_rowdata u (Some rd1) (set_rowdata u (Some rd0) ts) = set_rowdata u (Some rd1) ts" by (simp add: set_rowdata_def)
  have stored: "ts_rowdata (set_rowdata u (Some rd0) ts) u = Some rd0" by (simp add: set_rowdata_def)
  from op rd0(1) rd1(1,2) rd2(1) have "mdv_tablespace_trlog_apply env node op ts = Some (True, set_rowdata u (Some rd2) ts)"
    by (auto simp: mdv_tablespace_trlog_apply_def apply_row_delete_def MDV_OP_ROW_INSERT_def MDV_OP_TABLE_CREATE_def
        MDV_OP_ROW_DELETE_def uuid_u8_inverse twice stored)
  with rd2 rd1(4) rd0(3) show ?thesis by (auto simp: Row_delete)
qed


text \<open>What a client of the log promises: it carries out every operation it understands as its
  specification says. Then it carries out any number of them in order.\<close>

locale log_client =
  fixes fn :: "bytes \<Rightarrow> 'x \<Rightarrow> (bool \<times> 'x) option"
    and inv :: "'x \<Rightarrow> bool"
    and means :: "bytes \<Rightarrow> 'op \<Rightarrow> bool"
    and abs :: "'x \<Rightarrow> 'd"
    and step :: "'op \<Rightarrow> 'd \<Rightarrow> 'd"
  assumes carries_out: "inv x \<Longrightarrow> means op rop \<Longrightarrow> \<exists>x'. fn op x = Some (True, x') \<and> inv x' \<and> abs x' = step rop (abs x)"
begin

lemma carries_out_all:
  assumes "list_all2 (\<lambda>e rop. means (snd e) rop) es rops" "inv x"
  shows "\<exists>x'. deliver (guarded fn) es (Some x) = (length es, Some x') \<and> inv x' \<and> abs x' = fold step rops (abs x)"
  using assms
proof (induction arbitrary: x rule: list_all2_induct)
  case (Cons e es rop rops)
  from carries_out [OF Cons.prems Cons.hyps(1)] obtain x1 where
    one: "fn (snd e) x = Some (True, x1)" "inv x1" "abs x1 = step rop (abs x)" by blast
  then have "guarded fn (snd e) (Some x) = (True, Some x1)" by (simp add: guarded_def)
  with Cons.IH [OF one(2)] one(3) show ?case by auto
qed simp

end

text \<open>Applying an operation on rows changes the row storages and nothing else of the tablespace.\<close>

interpretation row_log: log_client "mdv_tablespace_trlog_apply env node"
  "\<lambda>x. env_ok env \<and> ts_ok x \<and> (\<exists>rowdatas. x = ts \<lparr> ts_rowdata := rowdatas \<rparr>)" op_means "data_abs env" "row_step node"
  for env node ts
proof
  fix x op rop
  assume inv: "env_ok env \<and> ts_ok x \<and> (\<exists>rowdatas. x = ts \<lparr> ts_rowdata := rowdatas \<rparr>)" and means: "op_means op rop"
  from inv have ok: "env_ok env" "ts_ok x" by simp_all
  from apply_op_run [OF ok means, of node] obtain rowdata u where
    "mdv_tablespace_trlog_apply env node op x = Some (True, set_rowdata u (Some rowdata) x)" "ts_ok (set_rowdata u (Some rowdata) x)"
    "data_abs env (set_rowdata u (Some rowdata) x) = row_step node rop (data_abs env x)" by blast
  moreover have "\<exists>rowdatas. set_rowdata u (Some rowdata) x = ts \<lparr> ts_rowdata := rowdatas \<rparr>" using inv by (auto simp: set_rowdata_def)
  ultimately show "\<exists>x'. mdv_tablespace_trlog_apply env node op x = Some (True, x') \<and>
      (env_ok env \<and> ts_ok x' \<and> (\<exists>rowdatas. x' = ts \<lparr> ts_rowdata := rowdatas \<rparr>)) \<and> data_abs env x' = row_step node rop (data_abs env x)"
    using ok(1) by blast
qed

lemma trlog_refs:
  "trlog_ready k t \<Longrightarrow> 0 \<le> k \<Longrightarrow> trlog_ready (k + 1) (mdv_trlog_retain t)" "pending (mdv_trlog_retain t) = pending t"
  "tl_top (mdv_trlog_retain t) = tl_top t"
  "trlog_ready (k + 1) t \<Longrightarrow> 1 \<le> k \<Longrightarrow> \<exists>t'. mdv_trlog_release t = Some t' \<and> trlog_ready k t' \<and> pending t' = pending t"
  by (auto simp: trlog_ready_def trlog_wf_def mdv_trlog_retain_def mdv_storage_retain_def pending_def
      mdv_trlog_release_def mdv_storage_release_def Let_def)

lemma release_trlog_run:
  assumes "trlog_ready 2 t"
  shows "\<exists>t'. release_trlog u (set_trlog u (Some (i, t)) ts) = set_trlog u (Some (i, t')) ts \<and> trlog_ready 1 t' \<and> pending t' = pending t"
  using trlog_refs(4) [of 1 t] assms by (auto simp: release_trlog_def set_trlog_def)

lemma set_trlog_data [simp]:
  "ts_ok (set_trlog u r ts) = ts_ok ts" "data_abs env (set_trlog u r ts) = data_abs env ts" "next_id env (set_trlog u r ts) = next_id env ts"
  "ts_trlogs (set_trlog u r ts) u = r" "ts_uuid (set_trlog u r ts) = ts_uuid ts" "set_trlog u r (set_trlog u r' ts) = set_trlog u r ts"
  "ts_rowdata (set_trlog u r ts) = ts_rowdata ts" "ts_faults (set_trlog u r ts) = ts_faults ts"
  by (simp_all add: set_trlog_def ts_ok_def data_abs_def next_id_def fun_eq_iff)

lemma log_apply_run:
  assumes "env_ok env" "ts_ok ts" "ts_trlogs ts u = Some (i, t)" "trlog_ready 1 t" "0 < batch_size"
    "list_all2 (\<lambda>e rop. op_means (snd e) rop) (pending t) rops"
  shows "\<exists>ts' t'. mdv_tablespace_log_apply env batch_size u ts = Some (True, ts') \<and> ts_ok ts' \<and>
    data_abs env ts' = fold (row_step i) rops (data_abs env ts) \<and> ts_trlogs ts' u = Some (i, t') \<and> pending t' = []"
proof -
  let ?fn = "guarded (mdv_tablespace_trlog_apply env i)" and ?t = "mdv_trlog_retain t" and ?ts = "retain_trlog u ts"
  have faults: "ts_faults ts = []" using assms(2) by (simp add: ts_ok_def)
  have ts: "?ts = set_trlog u (Some (i, ?t)) ts" by (simp add: retain_trlog_def assms(3))
  have ready: "trlog_ready 2 ?t" using trlog_refs(1) [OF assms(4)] by simp
  then have wf: "trlog_wf ?t" "env_faults (tl_storage ?t) = []" by (simp_all add: trlog_ready_def)
  have start: "env_ok env \<and> ts_ok ?ts \<and> (\<exists>rowdatas. ?ts = ?ts \<lparr> ts_rowdata := rowdatas \<rparr>)"
    using assms(1,2) by (auto simp: ts intro: exI [of _ "ts_rowdata (retain_trlog u ts)"])
  from row_log.carries_out_all [OF assms(6) start, of i] obtain rowdatas where
    del: "deliver ?fn (pending t) (Some ?ts) = (length (pending t), Some (?ts \<lparr> ts_rowdata := rowdatas \<rparr>))"
      "ts_ok (?ts \<lparr> ts_rowdata := rowdatas \<rparr>)"
      "data_abs env (?ts \<lparr> ts_rowdata := rowdatas \<rparr>) = fold (row_step i) rops (data_abs env ts)"
    by (auto simp: ts)
  from batches_run [OF wf(1) assms(5), of ?fn "Some ?ts"] wf(2) obtain n t' x' where
    run: "apply_batches batch_size ?fn (?t, Some ?ts) = Some (t', x')" "(n, x') = deliver ?fn (pending t) (Some ?ts)"
      "pending t' = drop n (pending t)" "trlog_wf t'"
    by (auto simp: trlog_refs(2))
  then have x': "x' = Some (?ts \<lparr> ts_rowdata := rowdatas \<rparr>)" "pending t' = []" using del(1) by simp_all
  have refs: "2 \<le> ref_counter (tl_storage t')"
    using batches_refs [OF run(1) wf(1)] ready by (simp add: trlog_ready_def)
  then obtain t'' where t'': "mdv_trlog_release t' = Some t''" "pending t'' = []"
    using x'(2) by (auto simp: mdv_trlog_release_def mdv_storage_release_def Let_def pending_def)
  have "mdv_tablespace_log_apply env batch_size u ts =
      Some (True, set_trlog u (Some (i, t'')) (?ts \<lparr> ts_rowdata := rowdatas \<rparr>))"
    using run(1) x'(1) t''(1)
    by (simp add: mdv_tablespace_log_apply_def mdv_tablespace_trlog_def ts_sys_ok [OF faults] assms(3) ts release_trlog_def)
  with del(2,3) t''(2) show ?thesis by simp
qed


section \<open>Requests\<close>

lemma rollbacks:
  "mdv_rollback exec_ts_rollback (snd (mdv_rollbacker_push (snd (mdv_rollbacker_push (snd (mdv_rollbacker_push
     (mdv_rollbacker_create True Ts_rollbacker_free 3) (Ts_trlog_release u))) (Ts_rowdata_release v))) Ts_free)) ts =
   release_trlog u (release_rowdata v ts)"
  "mdv_rollback exec_ts_rollback (snd (mdv_rollbacker_push (snd (mdv_rollbacker_push
     (mdv_rollbacker_create True Ts_rollbacker_free 2) (Ts_trlog_release u))) Ts_free)) ts = release_trlog u ts"
  by (simp_all add: mdv_rollback_def mdv_rollbacker_create_def mdv_rollbacker_push_def numeral_eq_Suc)

lemma trlog_create_run:
  assumes "ts_faults ts = []" "ts_trlogs ts u = Some (i, t)"
  shows "mdv_tablespace_trlog_create env u ts = (True, set_trlog u (Some (i, mdv_trlog_retain t)) ts)"
  by (simp add: mdv_tablespace_trlog_create_def ts_sys_ok assms retain_trlog_def)

lemma append_op_run:
  assumes "ts_faults ts = []" "ts_trlogs ts (ts_uuid ts) = Some (i, t)" "trlog_ready k t" "op_wf op" "tl_top t \<noteq> - 1"
  shows "\<exists>t'. append_op op ts = (MDV_OK, set_trlog (ts_uuid ts) (Some (i, t')) ts) \<and> trlog_ready k t' \<and>
    pending t' = pending t @ [(tl_top t, op)]"
  using trlog_append [OF assms(3-5)] by (auto simp: append_op_def ts_sys_ok assms(1,2))

lemma reserve_rows:
  assumes "rd_healthy k rowdata"
  shows "\<exists>rowdata'. mdv_rowdata_reserve MDV_OK n rowdata = ((MDV_OK, Some (s_idgen (rd_objects rowdata))), rowdata') \<and>
    rd_healthy k rowdata' \<and> rd_abs rowdata' = rd_abs rowdata \<and>
    s_idgen (rd_objects rowdata') = s_idgen (rd_objects rowdata) + ucast n"
proof -
  let ?o = "rd_objects rowdata"
  have e: "1 \<le> ref_counter (s_storage ?o)" "env_faults (s_storage ?o) = []" "ref_counter (s_storage ?o) = k"
    using assms by (simp_all add: rd_healthy_def healthy_def)
  then have ok: "reserve_ok (s_storage ?o)" by (simp add: reserve_ok_def map_opens_def txn_opens_def)
  from reserve_run [OF e(1), of n] ok e show ?thesis
    by (auto simp: mdv_rowdata_reserve_def rd_healthy_def healthy_def rd_abs_def balanced_def tp_abs_def)
qed

lemma trlog_op_wf:
  assumes "8 + length bs < 2 ^ 32"
  shows "op_wf (trlog_op type bs)"
proof -
  have "unat (of_nat (8 + length bs) :: u32) = 8 + length bs"
    using assms by (simp only: unsigned_of_nat) (simp add: take_bit_nat_eq_self)
  then show ?thesis by (simp add: op_wf_def trlog_op_def op_size_def del: of_nat_add)
qed

lemma rowset_in_memory:
  assumes "list_holds (map Item_container bss) lst" "bss \<noteq> []" "\<forall>bs \<in> set bss. row_bytes bs" "m = pre @ binn_serialised lst @ post"
    "p = length pre"
  shows "rowset_at m p bss" "\<exists>t c. binn_is_valid m p = Some (Some (t, c, length (binn_serialised lst)))"
    "\<exists>v. binn_load m p = Some (Some v)" "\<exists>vs. binn_list_foreach m p = Some vs \<and> length vs = length bss \<and> rows_looked_at m vs = Some ()"
    "rds m p (length (binn_serialised lst)) = Some (binn_serialised lst)" "mdv_binn_list_length m p = Some (length bss)"
proof -
  have ne: "map Item_container bss \<noteq> []" using assms(2) by simp
  from row_valid [OF assms(1) ne assms(4,5)] obtain vs where
    vs: "binn_list_foreach m p = Some vs" "decodes m vs (map Item_container bss)" "\<forall>v \<in> set vs. value_ok v" by blast
  with assms(3) show "rowset_at m p bss" by (auto simp: rowset_at_def)
  from serialised_list [OF assms(1)] obtain encs where
    ser: "binn_serialised lst = container BINN_LIST (length bss) (concat encs)" "list_all2 reads_as encs (map Item_container bss)" by auto
  have "1 \<le> length (concat encs)" using concat_length [OF ser(2)] assms(2) by (cases bss) auto
  then have "4 \<le> length (binn_serialised lst @ post)" by (simp add: ser(1) length_container container_size_def Let_def)
  from serialised_read_as [OF assms(1) this, of pre] obtain v where
    load: "binn_load m p = Some (Some v)" "v_size v = length (binn_serialised lst)" "mdv_binn_list_length m p = Some (length bss)"
    by (auto simp: list_read_as_def assms(4,5))
  then show "\<exists>v. binn_load m p = Some (Some v)" "mdv_binn_list_length m p = Some (length bss)" by blast+
  from load(1,2) show "\<exists>t c. binn_is_valid m p = Some (Some (t, c, length (binn_serialised lst)))"
    by (auto simp: binn_load_def bind_eq_Some_conv)
  have "rows_looked_at m vs = Some ()"
    using vs(2,3) assms(3)
  proof (induction vs arbitrary: bss)
    case (Cons v vs)
    then obtain bs bss' where bss: "bss = bs # bss'" by (cases bss) (auto simp: decodes_def)
    have v: "decode m v = Some (Item_container bs)" "decodes m vs (map Item_container bss')"
      using Cons.prems(1) by (simp_all add: bss decodes_def)
    obtain q where q: "value_place m v = Some (m, q)" "holds_at m q bs" using decode_container_at [OF v(1)] Cons.prems(2) by auto
    have "row_bytes bs" using Cons.prems(3) by (simp add: bss)
    from row_in_memory(1) [OF this q(2)] obtain n where "mdv_binn_list_length m q = Some n" by blast
    with q(1) Cons.IH [OF v(2)] Cons.prems(2,3) show ?case by (simp add: bss)
  qed simp
  moreover have "length vs = length bss" using vs(2) by (auto simp: decodes_def dest: list_all2_lengthD)
  ultimately show "\<exists>vs. binn_list_foreach m p = Some vs \<and> length vs = length bss \<and> rows_looked_at m vs = Some ()" using vs(1) by blast
  show "rds m p (length (binn_serialised lst)) = Some (binn_serialised lst)" using holds_at_mid by (auto intro: rds_holds simp: assms(4,5))
qed

lemma insert_means:
  assumes "list_holds (map Item_container bss) lst" "bss \<noteq> []" "\<forall>bs \<in> set bss. row_bytes bs"
  shows "op_means (trlog_op MDV_OP_ROW_INSERT (le_bytes 8 j @ uuid_u8 u @ binn_serialised lst)) (Row_insert u j bss)"
proof -
  let ?h = "le_bytes 4 (of_nat (8 + (24 + length (binn_serialised lst))) :: u32)" and ?t = "le_bytes 4 (of_nat MDV_OP_ROW_INSERT :: u32)"
  let ?op = "trlog_op MDV_OP_ROW_INSERT (le_bytes 8 j @ uuid_u8 u @ binn_serialised lst)"
  have op: "?op = (?h @ ?t @ le_bytes 8 j @ uuid_u8 u) @ binn_serialised lst @ []" by (simp add: trlog_op_def)
  have "rds ?op 4 4 = Some ?t" "rds ?op 8 8 = Some (le_bytes 8 j)" "rds ?op 16 16 = Some (uuid_u8 u)"
    unfolding op by (simp_all add: rds_def subarray_def)
  with rowset_in_memory(1,3) [OF assms op] show ?thesis by (simp add: uuid_u8_def)
qed


lemma set_both [simp]:
  "set_rowdata v r' (set_trlog u r ts) = set_trlog u r (set_rowdata v r' ts)"
  "ts_uuid (set_rowdata v r' ts) = ts_uuid ts" "ts_trlogs (set_rowdata v r' ts) = ts_trlogs ts" "ts_faults (set_rowdata v r' ts) = ts_faults ts"
  "set_rowdata v r'' (set_rowdata v r' ts) = set_rowdata v r'' ts" "ts_rowdata (set_rowdata v r' ts) v = r'"
  "release_rowdata v (set_trlog u r ts) = set_trlog u r (release_rowdata v ts)"
  by (simp_all add: set_trlog_def set_rowdata_def release_rowdata_def)

lemma log_rowset_run:
  assumes "env_ok env" "ts_ok ts" "ts_trlogs ts (ts_uuid ts) = Some (i, t)" "trlog_ready 1 t" "tl_top t \<noteq> - 1"
    and set: "list_holds (map Item_container bss) lst" "bss \<noteq> []" "\<forall>bs \<in> set bss. row_bytes bs"
      "m = pre @ binn_serialised lst @ post" "p = length pre"
  shows "\<exists>ts1 t1 op. mdv_tablespace_log_rowset env u m p ts = Some (MDV_OK, ts1) \<and> ts_ok ts1 \<and> data_abs env ts1 = data_abs env ts \<and>
    next_id env ts1 u = next_id env ts u + ucast (of_nat (length bss) :: u32) \<and> ts_uuid ts1 = ts_uuid ts \<and>
    ts_trlogs ts1 (ts_uuid ts) = Some (i, t1) \<and> trlog_ready 1 t1 \<and> pending t1 = pending t @ [(tl_top t, op)] \<and>
    op_means op (Row_insert u (next_id env ts u) bss)"
proof -
  note mem = rowset_in_memory [OF set]
  obtain vs ty c where vs: "binn_list_foreach m p = Some vs" "rows_looked_at m vs = Some ()"
    and valid: "binn_is_valid m p = Some (Some (ty, c, length (binn_serialised lst)))" using mem(2,4) by blast
  have faults: "ts_faults ts = []" using assms(2) by (simp add: ts_ok_def)
  let ?u = "ts_uuid ts" and ?t = "mdv_trlog_retain t"
  let ?ts = "set_trlog ?u (Some (i, ?t)) ts"
  note log = trlog_create_run [OF faults assms(3), of env]
  have "ts_ok ?ts" using assms(2) by simp
  from rowdata_create_run [OF assms(1) this, of u] obtain rd0 where
    rd0: "mdv_tablespace_rowdata_create env u ?ts = (True, set_rowdata u (Some rd0) ?ts)" "rd_healthy 2 rd0"
      "rd_abs rd0 = data_abs env ts u" "s_idgen (rd_objects rd0) = next_id env ts u" by auto
  from reserve_rows [OF rd0(2), of "of_nat (length bss)"] obtain rd1 where
    rd1: "mdv_rowdata_reserve MDV_OK (of_nat (length bss)) rd0 = ((MDV_OK, Some (next_id env ts u)), rd1)" "rd_healthy 2 rd1"
      "rd_abs rd1 = data_abs env ts u" "s_idgen (rd_objects rd1) = next_id env ts u + ucast (of_nat (length bss) :: u32)"
    using rd0(3,4) by auto
  let ?op = "trlog_op MDV_OP_ROW_INSERT (le_bytes 8 (next_id env ts u) @ uuid_u8 u @ binn_serialised lst)"
  from serialised_list [OF set(1)] have "length (binn_serialised lst) < 2 ^ 31" by (auto simp: length_container)
  then have wf: "op_wf ?op" by (intro trlog_op_wf) simp
  have ready: "trlog_ready 2 ?t" using trlog_refs(1) [OF assms(4)] by simp
  let ?ts1 = "set_rowdata u (Some rd1) ?ts"
  from append_op_run [of ?ts1 i ?t 2 ?op] ready wf assms(5) faults obtain t1 where
    t1: "append_op ?op ?ts1 = (MDV_OK, set_trlog ?u (Some (i, t1)) ?ts1)" "trlog_ready 2 t1" "pending t1 = pending t @ [(tl_top t, ?op)]"
    by (auto simp: trlog_refs(2,3))
  from rowdata_close_run [OF assms(2) rd1(2), of u env] obtain rd2 where
    rd2: "release_rowdata u (set_rowdata u (Some rd1) ts) = set_rowdata u (Some rd2) ts" "ts_ok (set_rowdata u (Some rd2) ts)"
      "data_abs env (set_rowdata u (Some rd2) ts) = (data_abs env ts)(u := rd_abs rd1)"
      "next_id env (set_rowdata u (Some rd2) ts) u = s_idgen (rd_objects rd1)" by blast
  from release_trlog_run [OF t1(2), of ?u i "set_rowdata u (Some rd2) ts"] obtain t2 where
    t2: "release_trlog ?u (set_trlog ?u (Some (i, t1)) (set_rowdata u (Some rd2) ts)) = set_trlog ?u (Some (i, t2)) (set_rowdata u (Some rd2) ts)"
      "trlog_ready 1 t2" "pending t2 = pending t1" by blast
  have "mdv_tablespace_log_rowset env u m p ts = Some (MDV_OK, set_trlog ?u (Some (i, t2)) (set_rowdata u (Some rd2) ts))"
    unfolding mdv_tablespace_log_rowset_def mem(6)
    using set(2) vs valid mem(5) log rd0(1) rd1(1) t1(1) rd2(1) t2(1)
    by (simp add: ts_sys_ok faults rollbacks)
  with rd2(2-4) rd1(3,4) t2(2,3) t1(3) insert_means [OF set(1-3)] show ?thesis
    by (intro exI [of _ "set_trlog ?u (Some (i, t2)) (set_rowdata u (Some rd2) ts)"] exI [of _ t2] exI [of _ ?op]) simp
qed


lemma delete_means: "op_means (trlog_op MDV_OP_ROW_DELETE (uuid_u8 u @ objid_u8 oid)) (Row_delete u oid)"
proof -
  let ?op = "trlog_op MDV_OP_ROW_DELETE (uuid_u8 u @ objid_u8 oid)"
  have "?op = le_bytes 4 (of_nat 36 :: u32) @ le_bytes 4 (of_nat MDV_OP_ROW_DELETE :: u32) @ uuid_u8 u @ objid_u8 oid"
    by (simp add: trlog_op_def)
  then show ?thesis by (simp add: rds_def subarray_def)
qed

lemma log_delete_run:
  assumes "ts_ok ts" "ts_trlogs ts (ts_uuid ts) = Some (i, t)" "trlog_ready 1 t" "tl_top t \<noteq> - 1"
  shows "\<exists>t1 op. mdv_tablespace_log_delete env u oid ts = (MDV_OK, set_trlog (ts_uuid ts) (Some (i, t1)) ts) \<and>
    trlog_ready 1 t1 \<and> pending t1 = pending t @ [(tl_top t, op)] \<and> op_means op (Row_delete u oid)"
proof -
  have faults: "ts_faults ts = []" using assms(1) by (simp add: ts_ok_def)
  let ?u = "ts_uuid ts" and ?t = "mdv_trlog_retain t" and ?op = "trlog_op MDV_OP_ROW_DELETE (uuid_u8 u @ objid_u8 oid)"
  let ?ts = "set_trlog ?u (Some (i, ?t)) ts"
  have ready: "trlog_ready 2 ?t" using trlog_refs(1) [OF assms(3)] by simp
  have wf: "op_wf ?op" by (intro trlog_op_wf) simp
  from append_op_run [of ?ts i ?t 2 ?op] ready wf assms(4) faults obtain t1 where
    t1: "append_op ?op ?ts = (MDV_OK, set_trlog ?u (Some (i, t1)) ts)" "trlog_ready 2 t1" "pending t1 = pending t @ [(tl_top t, ?op)]"
    by (auto simp: trlog_refs(2,3))
  from release_trlog_run [OF t1(2), of ?u i ts] obtain t2 where
    t2: "release_trlog ?u (set_trlog ?u (Some (i, t1)) ts) = set_trlog ?u (Some (i, t2)) ts" "trlog_ready 1 t2" "pending t2 = pending t1" by blast
  have "mdv_tablespace_log_delete env u oid ts = (MDV_OK, set_trlog ?u (Some (i, t2)) ts)"
    using trlog_create_run [OF faults assms(2), of env] t1(1) t2(1)
    by (simp add: mdv_tablespace_log_delete_def ts_sys_ok faults rollbacks)
  with t2(2,3) t1(3) show ?thesis by (intro exI [of _ t2] exI [of _ ?op]) (simp add: delete_means del: op_means.simps)
qed


section \<open>Properties\<close>

text \<open>A tablespace in use on which nothing fails: its log is open, is not full and holds operations on
  rows that are still to be applied.\<close>

definition ts_serving :: "ts_env \<Rightarrow> mdv_tablespace \<Rightarrow> u32 \<Rightarrow> row_op list \<Rightarrow> bool" where
  "ts_serving env ts node rops \<longleftrightarrow> env_ok env \<and> ts_ok ts \<and>
     (\<exists>t. ts_trlogs ts (ts_uuid ts) = Some (node, t) \<and> trlog_ready 1 t \<and> tl_top t \<noteq> - 1 \<and>
       list_all2 (\<lambda>e rop. op_means (snd e) rop) (pending t) rops)"

lemma stored_row_back:
  assumes "row_as fp desc row bs" "row_fits fp desc row" "length (td_fields desc) \<le> 1000"
  shows "mdv_unbinn_row fp True bs 0 desc = Some (Some (map2 field_back (td_fields desc) row))"
proof -
  obtain oks item where item: "mdv_binn_row oks row desc = Some (Some item)" "bs = binn_serialised item"
    using assms(1) by (auto simp: row_as_def)
  have ok: "list_all2 (field_ok fp) (td_fields desc) row" "sum_list (map d_size row) \<le> 2 ^ 27" "row \<noteq> []"
    using assms(2) by (auto simp: row_fits_def)
  from binn_row_run [OF item(1) ok(1)] obtain js where
    js: "list_holds js item" "length js = length (td_fields desc)" "js \<noteq> []"
      "\<forall>n < length js. field_as (td_fields desc ! n) (row ! n) (js ! n)" by blast
  have "mdv_unbinn_row_slice fp True ([] @ binn_serialised item @ []) (length []) desc None =
      Some (Some (nths (map2 field_back (td_fields desc) row) UNIV))"
    using ok(2,3) exI [of "\<lambda>n. n < length row" 0] row_read_back [OF js(1-3) assms(3) ok(1) js(4), where fmask = None and sel = UNIV and pre = "[]" and post = "[]"]
    by (simp add: mdv_bitset_test_def)
  then show ?thesis by (simp add: mdv_unbinn_row_def item(2) nths_all)
qed

text \<open>
  No row of the table, stored or deleted, has an identifier of the node from i on.
  It is so in an empty table, and rows that are added under consecutive
  identifiers from i on keep it so for the identifiers after theirs.
\<close>

definition ids_fresh :: "u32 \<Rightarrow> u64 \<Rightarrow> tp_set \<Rightarrow> bool" where
  "ids_fresh node i d \<longleftrightarrow> (\<forall>j \<ge> i. objid_u8 \<lparr> oid_node = node, oid_id = j \<rparr> \<notin> dom (fst d) \<union> snd d)"

lemma row_adds_fresh:
  assumes "ids_fresh node i d" "unat i + length bss < 2 ^ 64"
  defines "d' \<equiv> fold tp_step (row_adds node i bss) d"
  shows "(\<forall>oid. fst d oid \<noteq> None \<longrightarrow> fst d' oid = fst d oid) \<and> ids_fresh node (i + of_nat (length bss)) d' \<and>
    (\<forall>k < length bss. fst d' (objid_u8 \<lparr> oid_node = node, oid_id = i + of_nat k \<rparr>) = Some (bss ! k))"
  using assms(1,2) unfolding d'_def
proof (induction bss arbitrary: i d)
  case (Cons bs bss)
  obtain live removed where d: "d = (live, removed)" by fastforce
  let ?oid = "\<lambda>j. objid_u8 \<lparr> oid_node = node, oid_id = j \<rparr>"
  have one: "tp_add (?oid i) bs d = (live(?oid i \<mapsto> bs), removed)" "live (?oid i) = None"
    using Cons.prems(1) by (auto simp: d ids_fresh_def)
  have i: "unat (i + 1) = unat i + 1" using Cons.prems(2) by (subst unat_word_ariths) simp
  have fresh: "ids_fresh node (i + 1) (live(?oid i \<mapsto> bs), removed)"
  proof (unfold ids_fresh_def, intro allI impI)
    fix j
    assume "i + 1 \<le> j"
    then have "i \<le> j" "j \<noteq> i" using i by (auto simp: word_le_nat_alt)
    then show "?oid j \<notin> dom (fst (live(?oid i \<mapsto> bs), removed)) \<union> snd (live(?oid i \<mapsto> bs), removed)"
      using Cons.prems(1) by (auto simp: d ids_fresh_def objid_u8_inject)
  qed
  have "unat (i + 1) + length bss < 2 ^ 64" using Cons.prems(2) i by simp
  note IH = Cons.IH [OF fresh this]
  have "fst (fold tp_step (row_adds node (i + 1) bss) (live(?oid i \<mapsto> bs), removed)) (?oid (i + of_nat k)) = Some ((bs # bss) ! k)"
    if "k < length (bs # bss)" for k
    using IH that by (cases k) (auto simp: add.assoc)
  with IH one show ?case by (auto simp: d add.assoc)
qed simp

text \<open>The number of such rows fits 32 bits.\<close>

lemma rowset_count:
  assumes "sum_list (map row_room rows) \<le> 2 ^ 29"
  shows "ucast (of_nat (length rows) :: u32) = (of_nat (length rows) :: u64)"
proof -
  have "length rows \<le> sum_list (map row_room rows)" by (induction rows) (auto simp: row_room_def)
  with assms show ?thesis by (simp add: unsigned_of_nat take_bit_nat_eq_self)
qed



text \<open>A node with an empty log and empty storages.\<close>

definition sample_env :: ts_env where
  "sample_env = \<lparr> te_fp = sample_floats, open_trlog = (\<lambda>u i. None),
     open_rowdata = (\<lambda>u. Some \<lparr> rd_objects = \<lparr> s_storage = empty_storage, s_locked = False, s_idgen = 0 \<rparr>, rd_table = u \<rparr>),
     lock_error = MDV_FAILED \<rparr>"

definition sample_ts :: mdv_tablespace where
  "sample_ts = \<lparr> ts_tables = \<lparr> tbs_objects = \<lparr> s_storage = empty_storage, s_locked = False, s_idgen = 0 \<rparr> \<rparr>,
     ts_trlogs = [UUID 1 2 \<mapsto> (7, \<lparr> tl_storage = empty_storage, tl_top = 0, tl_applied = 0, tl_events = 0 \<rparr>)],
     ts_rowdata = Map.empty, ts_uuid = UUID 1 2, ts_storage_ids = [UUID 1 2 \<mapsto> 7], ts_faults = [] \<rparr>"

lemma sample_serving: "ts_serving sample_env sample_ts 7 []"
  by (simp add: ts_serving_def sample_env_def sample_ts_def env_ok_def ts_ok_def rd_healthy_def healthy_def empty_storage_def
      trlog_ready_def trlog_wf_def log_wf_def log_list_def log_kv_def pending_def log_from_def)

lemma sample_data: "data_abs sample_env sample_ts u = (Map.empty, {})" "next_id sample_env sample_ts u = 0"
  by (simp_all add: data_abs_def next_id_def sample_env_def sample_ts_def rd_abs_def empty_storage_def)

lemma sample_fits: "\<forall>row \<in> set [sample_row]. row_fits sample_floats sample_desc row"
  by (simp add: row_fits_def sample_row_def sample_desc_def field_ok_def Let_def data_bytes_def)


text \<open>
  C7. A deletion reaches the storage. A tablespace in use, whose pending operations
  are operations on rows, accepts it and changes no stored row until the log is
  applied. Applying the log of the node, in batches of at least one operation, then
  ends, carries out what was pending before and deletes the row, leaving a
  tombstone if it was stored; no other table is touched.
\<close>

theorem delete_reaches_storage:
  assumes "ts_serving env ts node rops" "0 < batch_size"
  shows "\<exists>ts1 ts2. mdv_tablespace_log_delete env u oid ts = (MDV_OK, ts1) \<and> data_abs env ts1 = data_abs env ts \<and>
    mdv_tablespace_log_apply env batch_size (ts_uuid ts) ts1 = Some (True, ts2) \<and>
    data_abs env ts2 = row_step node (Row_delete u oid) (fold (row_step node) rops (data_abs env ts))"
proof -
  obtain t where t: "env_ok env" "ts_ok ts" "ts_trlogs ts (ts_uuid ts) = Some (node, t)" "trlog_ready 1 t" "tl_top t \<noteq> - 1"
    "list_all2 (\<lambda>e rop. op_means (snd e) rop) (pending t) rops" using assms(1) by (auto simp: ts_serving_def)
  from log_delete_run [OF t(2-5), of env u oid] obtain t1 op where
    one: "mdv_tablespace_log_delete env u oid ts = (MDV_OK, set_trlog (ts_uuid ts) (Some (node, t1)) ts)" "trlog_ready 1 t1"
      "pending t1 = pending t @ [(tl_top t, op)]" "op_means op (Row_delete u oid)" by blast
  have "list_all2 (\<lambda>e rop. op_means (snd e) rop) (pending t1) (rops @ [Row_delete u oid])"
    unfolding one(3) by (intro list_all2_appendI [OF t(6)]) (simp add: one(4) del: op_means.simps)
  from log_apply_run [OF t(1) _ _ one(2) assms(2) this, of "set_trlog (ts_uuid ts) (Some (node, t1)) ts" "ts_uuid ts" node] t(2)
  obtain ts2 where "mdv_tablespace_log_apply env batch_size (ts_uuid ts) (set_trlog (ts_uuid ts) (Some (node, t1)) ts) = Some (True, ts2)"
    "data_abs env ts2 = fold (row_step node) (rops @ [Row_delete u oid]) (data_abs env ts)" by auto
  with one(1) show ?thesis by simp
qed

text \<open>The same node with a row in every table.\<close>

definition row_env :: ts_env where
  "row_env = sample_env \<lparr> open_rowdata := (\<lambda>u. Some \<lparr> rd_objects = \<lparr>
     s_storage = empty_storage \<lparr> env_dbs := [MDV_MAP_OBJECTS \<mapsto>
       \<lparr> db_intkey = False, db_kv = [(objid_u8 \<lparr> oid_node = 7, oid_id = 0 \<rparr>, [5])] \<rparr>] \<rparr>,
     s_locked = False, s_idgen = 1 \<rparr>, rd_table = u \<rparr>) \<rparr>"

lemma row_env_serving: "ts_serving row_env sample_ts 7 []"
  using sample_serving by (simp add: ts_serving_def row_env_def env_ok_def rd_healthy_def healthy_def empty_storage_def)

lemma row_env_data: "data_abs row_env sample_ts u = ([objid_u8 \<lparr> oid_node = 7, oid_id = 0 \<rparr> \<mapsto> [5]], {})"
  by (simp add: data_abs_def row_env_def sample_ts_def rd_abs_def tp_abs_def db_map_def)

lemma delete_reaches_storage_witness:
  "\<exists>ts1 ts2. mdv_tablespace_log_delete row_env (UUID 3 4) \<lparr> oid_node = 7, oid_id = 0 \<rparr> sample_ts = (MDV_OK, ts1) \<and>
    fst (data_abs row_env ts1 (UUID 3 4)) (objid_u8 \<lparr> oid_node = 7, oid_id = 0 \<rparr>) = Some [5] \<and>
    mdv_tablespace_log_apply row_env 5 (UUID 1 2) ts1 = Some (True, ts2) \<and>
    data_abs row_env ts2 (UUID 3 4) = (Map.empty, {objid_u8 \<lparr> oid_node = 7, oid_id = 0 \<rparr>})"
proof -
  from delete_reaches_storage [OF row_env_serving, of 5 "UUID 3 4" "\<lparr> oid_node = 7, oid_id = 0 \<rparr>"] obtain ts1 ts2 where
    run: "mdv_tablespace_log_delete row_env (UUID 3 4) \<lparr> oid_node = 7, oid_id = 0 \<rparr> sample_ts = (MDV_OK, ts1)"
      "data_abs row_env ts1 = data_abs row_env sample_ts"
      "mdv_tablespace_log_apply row_env 5 (ts_uuid sample_ts) ts1 = Some (True, ts2)"
      "data_abs row_env ts2 = row_step 7 (Row_delete (UUID 3 4) \<lparr> oid_node = 7, oid_id = 0 \<rparr>) (data_abs row_env sample_ts)"
    by (auto simp del: row_step.simps)
  have "data_abs row_env ts2 (UUID 3 4) = (Map.empty, {objid_u8 \<lparr> oid_node = 7, oid_id = 0 \<rparr>})"
    unfolding run(4) by (simp add: row_env_data)
  with run(1-3) show ?thesis by (auto simp: sample_ts_def row_env_data [unfolded sample_ts_def])
qed

text \<open>
  C40. A log entry whose row storage cannot be opened: an insertion counts as
  applied although none of its rows is stored, so the log moves past it; a deletion
  is refused and stays pending. The stored rows of all tables are as before.
\<close>

theorem insert_lost_without_storage:
  assumes "open_rowdata env u = None" "ts_rowdata ts u = None"
  shows "(\<forall>i bss. op_means op (Row_insert u i bss) \<longrightarrow>
      (\<exists>ts'. mdv_tablespace_trlog_apply env node op ts = Some (True, ts') \<and> ts_rowdata ts' = ts_rowdata ts)) \<and>
    (\<forall>oid. op_means op (Row_delete u oid) \<longrightarrow>
      (\<exists>ts'. mdv_tablespace_trlog_apply env node op ts = Some (False, ts') \<and> ts_rowdata ts' = ts_rowdata ts))"
proof -
  obtain ok ts' where sys: "ts_sys ts = (ok, ts')" "ts_rowdata ts' = ts_rowdata ts" by (cases "ts_sys ts") (auto simp: ts_sys_def split: prod.splits)
  then have create: "mdv_tablespace_rowdata_create env u ts = (False, ts')"
    using assms by (simp add: mdv_tablespace_rowdata_create_def)
  have "\<exists>ts'. mdv_tablespace_trlog_apply env node op ts = Some (True, ts') \<and> ts_rowdata ts' = ts_rowdata ts"
    if "op_means op (Row_insert u i bss)" for i bss
    using that create sys(2) assms(2)
    by (auto simp: mdv_tablespace_trlog_apply_def apply_row_insert_def MDV_OP_ROW_INSERT_def MDV_OP_TABLE_CREATE_def rowset_at_def
        mdv_binn_list_length_def)
  moreover have "\<exists>ts'. mdv_tablespace_trlog_apply env node op ts = Some (False, ts') \<and> ts_rowdata ts' = ts_rowdata ts"
    if "op_means op (Row_delete u oid)" for oid
    using that create sys(2) assms(2)
    by (auto simp: mdv_tablespace_trlog_apply_def apply_row_delete_def MDV_OP_ROW_INSERT_def MDV_OP_TABLE_CREATE_def MDV_OP_ROW_DELETE_def)
  ultimately show ?thesis by blast
qed


lemma sample_rowset: "\<exists>bss lst. list_holds (map Item_container bss) lst \<and> bss \<noteq> [] \<and> (\<forall>bs \<in> set bss. row_bytes bs)"
proof -
  have desc: "td_fields sample_desc \<noteq> []" "length (td_fields sample_desc) \<le> 1000" by (simp_all add: sample_desc_def)
  have "used_size new_list + sum_list (map row_room [sample_row]) \<le> 2 ^ 30" by (simp add: row_room_def sample_row_def new_list_def)
  from rowset_rows_some [OF sample_fits desc new_list_holds [OF create_new_list] new_list_pow this] obtain lst where
    "binn_rowset_rows sample_desc (map (\<lambda>row. (row, \<lparr> oid_node = 0, oid_id = 0 \<rparr>)) [sample_row]) [] new_list = Some (True, lst)" by blast
  from rowset_rows_run [OF this new_list_holds [OF create_new_list] sample_fits _ desc] obtain bss where
    "list_all2 (row_as sample_floats sample_desc) [sample_row] bss" "list_holds (map Item_container bss) lst" by auto
  then show ?thesis by (intro exI [of _ bss] exI [of _ lst]) (auto simp: list_all2_Cons1 row_as_def)
qed

lemma insert_lost_without_storage_witness:
  "\<exists>op bss ts'. op_means op (Row_insert (UUID 3 4) 0 bss) \<and> bss \<noteq> [] \<and>
    mdv_tablespace_trlog_apply (sample_env \<lparr> open_rowdata := (\<lambda>u. None) \<rparr>) 7 op sample_ts = Some (True, ts') \<and>
    ts_rowdata ts' (UUID 3 4) = None"
proof -
  let ?env = "sample_env \<lparr> open_rowdata := (\<lambda>u. None) \<rparr>"
  obtain bss lst where bss: "list_holds (map Item_container bss) lst" "bss \<noteq> []" "\<forall>bs \<in> set bss. row_bytes bs" using sample_rowset by blast
  note means = insert_means [OF this, of 0 "UUID 3 4"]
  have none: "open_rowdata ?env (UUID 3 4) = None" "ts_rowdata sample_ts (UUID 3 4) = None" by (simp_all add: sample_ts_def)
  from insert_lost_without_storage [OF none, THEN conjunct1, THEN spec, THEN spec, THEN mp, OF means, of 7] obtain ts' where
    "mdv_tablespace_trlog_apply ?env 7 (trlog_op MDV_OP_ROW_INSERT (le_bytes 8 (0 :: u64) @ uuid_u8 (UUID 3 4) @ binn_serialised lst)) sample_ts =
      Some (True, ts')" "ts_rowdata ts' = ts_rowdata sample_ts" by blast
  moreover from this(2) none(2) have "ts_rowdata ts' (UUID 3 4) = None" by simp
  ultimately show ?thesis using means bss(2) by blast
qed

end
