(* ===== verification/Spec2Isabelle.thy ===== *)
theory Spec2Isabelle
  imports Mdv_Queue_Spsc Mdv_2pset_Spec Mdv_2pset_Enum
    Mdv_Lrucache Mdv_Vector Mdv_Uuid Mdv_Algorithm Mdv_Predicate Mdv_Mst_Tree Mdv_Tablespace_Spec
begin

text \<open>
  A verification library for MedvedDB, a replicated table store written in C. A theory
  models one component of \<^verbatim>\<open>src/\<close>; definitions carry the names of the C functions,
  and theories ending in \<^verbatim>\<open>_Spec\<close>, \<^verbatim>\<open>_Roundtrip\<close> and the like hold what is proved of
  the component before them.

  \<^bold>\<open>The program and its parts.\<close> A client sends a set of rows, serialised as a binary
  container. The tablespace of its node reserves row identifiers for them and appends
  the insertion to the transaction log of the node; deletions and creations of tables
  take the same way. A committer applies the log in batches: every operation
  is handed to a callback that unpacks it and changes the storage of the table it
  belongs to. Row storages and the table of tables are two-phase sets, so that replicas
  that apply the same operations agree. Logs and sets lie in LMDB storages, whose
  functions undo their work on an error through a rollbacker. Around this core are the
  containers of the platform library, the stack machine that evaluates predicates on
  rows, and the minimum spanning tree over the links between nodes.

  \<^bold>\<open>Theories.\<close>
  \<^item> \<^verbatim>\<open>Mdv_Prelude\<close>: error codes (\<^verbatim>\<open>mdv_errno.h\<close>), machine types, \<^verbatim>\<open>memcpy\<close>, shared lemmas.
  \<^item> \<^verbatim>\<open>Mdv_Tablespace\<close>, \<^verbatim>\<open>Mdv_Tablespace_Spec\<close> (\<^verbatim>\<open>mdv_core/storage/mdv_tablespace.c\<close>,
    \<^verbatim>\<open>mdv_tables.c\<close>): once the log is applied, a row set accepted by the tablespace is
    added under the identifiers reserved for it, which stores every row if these are
    fresh, readable with the columns it was sent with, and a deletion removes its row; other tables stay as they are. An insertion whose row storage cannot be
    opened is counted as applied and lost.
  \<^item> \<^verbatim>\<open>Mdv_Rowdata\<close> (\<^verbatim>\<open>mdv_rowdata.c\<close>): the rows of one table as a two-phase set.
  \<^item> \<^verbatim>\<open>Mdv_Trlog\<close>, \<^verbatim>\<open>_Spec\<close>, \<^verbatim>\<open>_Apply\<close>, \<^verbatim>\<open>_Restart\<close>, \<^verbatim>\<open>_Drain\<close> (\<^verbatim>\<open>mdv_trlog.c\<close>): an append is
    atomic and takes the next id, a remote operation is stored once, an application
    hands the pending operations to the callback in order and moves the position over
    exactly those it accepted, a restart resumes there if the position was saved and
    otherwise repeats the batch, and the loop over batches ends with nothing left.
  \<^item> \<^verbatim>\<open>Mdv_2pset\<close>, \<^verbatim>\<open>_Spec\<close>, \<^verbatim>\<open>_Idgen\<close>, \<^verbatim>\<open>_Enum\<close> (\<^verbatim>\<open>mdv_storage/mdv_2pset.c\<close>): every operation
    refines the abstract set of live objects and tombstones, an error leaves the data
    alone and leaks nothing, tombstones are final, replicas converge if
    additions of one identifier agree, identifiers are fresh across restarts, and an
    enumerator lists the live objects in order.
  \<^item> \<^verbatim>\<open>Mdv_Lmdb\<close>, \<^verbatim>\<open>Mdv_Lmdb_Map\<close> (\<^verbatim>\<open>mdv_storage/mdv_lmdb.c\<close>), \<^verbatim>\<open>Mdv_Rollbacker\<close>
    (\<^verbatim>\<open>mdv_platform/mdv_rollbacker.c\<close>): transactions, maps and cursors in a state monad
    over LMDB's contract; clean-up calls run once, the last registered first.
  \<^item> \<^verbatim>\<open>Mdv_Binn\<close>, \<^verbatim>\<open>_List\<close>, \<^verbatim>\<open>_Write\<close>, \<^verbatim>\<open>_Roundtrip\<close>, \<^verbatim>\<open>_Value\<close>, \<^verbatim>\<open>_Object\<close>, \<^verbatim>\<open>_Keys\<close>, \<^verbatim>\<open>_Keyed\<close>
    (\<^verbatim>\<open>mdv_thirdparty/binn\<close>): a serialised list or object is read back with the values it
    was built from, wherever it lies in memory; only an empty list at the very end of
    the memory makes the reader look past it.
  \<^item> \<^verbatim>\<open>Mdv_Row\<close>, \<^verbatim>\<open>_Roundtrip\<close>, \<^verbatim>\<open>_Spec\<close>, \<^verbatim>\<open>Mdv_Table\<close>, \<^verbatim>\<open>_Roundtrip\<close>, \<^verbatim>\<open>_Spec\<close>, \<^verbatim>\<open>Mdv_Rowset\<close>
    (\<^verbatim>\<open>mdv_types/mdv_serialization.c\<close>, \<^verbatim>\<open>mdv_field.c\<close>, \<^verbatim>\<open>mdv_table.c\<close>): rows, tables,
    identifiers and row sets as containers; rows and tables read back as written.
  \<^item> \<^verbatim>\<open>Mdv_Queue\<close>, \<^verbatim>\<open>_Spsc\<close>, \<^verbatim>\<open>Mdv_List\<close>, \<^verbatim>\<open>Mdv_Hashmap\<close>, \<^verbatim>\<open>Mdv_Lrucache\<close>, \<^verbatim>\<open>Mdv_Vector\<close>,
    \<^verbatim>\<open>Mdv_Bitset\<close>, \<^verbatim>\<open>Mdv_Algorithm\<close>, \<^verbatim>\<open>Mdv_Uuid\<close> (\<^verbatim>\<open>mdv_platform\<close>): each container refines
    its abstract counterpart (a FIFO; a sequence; a finite map; a cache that evicts the
    oldest entry; a set of bits). The queue of two threads is a machine of loads, copies
    and stores with their memory orders, in which a thread may load an old index: it is
    a FIFO up to the first data race, there is none if each side acquires the index of
    the other, and with the orders of the code there is one. The array
    algorithms compute the ordered set operations, and identifiers are read back from
    their text and totally ordered.
  \<^item> \<^verbatim>\<open>Mdv_Vm\<close>, \<^verbatim>\<open>Mdv_Vm_Run\<close> (\<^verbatim>\<open>mdv_platform/mdv_vm.c\<close>), \<^verbatim>\<open>Mdv_Predicate\<close>
    (\<^verbatim>\<open>mdv_storage/mdv_predicate.c\<close>): a run of the byte code computes what the abstract
    stack machine does and stays within the stack.
  \<^item> \<^verbatim>\<open>Mdv_Mst\<close>, \<^verbatim>\<open>_Sets\<close>, \<^verbatim>\<open>_Graph\<close>, \<^verbatim>\<open>_Run\<close>, \<^verbatim>\<open>_Tree\<close> (\<^verbatim>\<open>mdv_platform/generic/mdv_mst.c\<close>): the
    algorithm returns, finds a spanning tree exactly when there is one, and a minimal
    one, for weights that differ by less than 2^31; a larger difference misleads the
    comparison.

  \<^bold>\<open>Interfaces.\<close> Where a component relies on another's contract the contract is a locale,
  interpreted on the definitions of the provider: \<^verbatim>\<open>bounded_fifo\<close> (the ring buffer),
  \<^verbatim>\<open>linked_seq\<close> (the linked list), \<^verbatim>\<open>keyed_store\<close> (the hash map), \<^verbatim>\<open>kv_store\<close> (one LMDB
  database), \<^verbatim>\<open>op_replica\<close> (the two-phase set as a replicated type), \<^verbatim>\<open>log_client\<close> (the
  callback of the tablespace that applies a log), \<^verbatim>\<open>vm_functions\<close> (the functions a
  predicate may call) and \<^verbatim>\<open>weighted_links\<close> (links with a strict order of preference).

  \<^bold>\<open>State, errors, parameters.\<close> Structures are records, pointers into shared structures
  are addresses of an explicit store, machine integers are words. A code that a C
  function returns is a value; None is what the C code must not do, an access outside
  its memory or a loop without end. Allocations, locks and calls into LMDB take their
  outcomes from a list of truth values, which theorems on error paths quantify over;
  an exhausted list means success. Parameters are LMDB (by its documented contract: ordered
  databases, transactions that work on a copy), the floating-point operations of the
  machine, hash functions, and what opening a storage file yields.

  \<^bold>\<open>Termination and bounds.\<close> Loops whose end depends on the data are partial functions
  with a proof that they return: the walks over linked lists, the joining of subsets and
  the outer loop of the spanning tree, the growth of a vector (from a capacity above 0
  and for at most 2^63 items; beyond that its 64-bit arithmetic wraps and it may not
  return), the interpreter, and the batches of a log (for batches of at least
  one operation). Three walks count down instead: \<^verbatim>\<open>list_values\<close> and
  \<^verbatim>\<open>add_rowset_loop\<close> have one step more than the list has values, the last finding the
  end, and \<^verbatim>\<open>search_key\<close> has one per item, as the loop in C has. Serialised sizes are C
  integers; the theorems on containers assume a total of at most 2^30 or 2^29, those on
  one table or row at most 2^27, so that no length overflows. The largest message
  (\<^verbatim>\<open>MDV_MSG_SIZE_MAX\<close>) has 100 MB, less than 2^27.

  \<^bold>\<open>Not modelled.\<close> Sockets, message framing, threads, the event bus, files and the
  jobs and handlers that connect them, since they consist of system calls and
  scheduling; the opening of storage directories; queries, paging and views; reading row
  sets on the client's side; topologies as containers; the client library and the
  generated bindings and SQL parser; cryptography and the vendored libraries other
  than binn; the B-tree and the Bloom filter, which nothing uses.
\<close>

end
